(* ===== verification/Catapult_Prelude.thy ===== *)
theory Catapult_Prelude
  imports Main "HOL-Library.Word"
begin

text \<open>
  The shared layer of the development: the machine types the chain's values have, the
  exceptions of \<^verbatim>\<open>catapult/exceptions.h\<close> as values, the standard containers the code relies on
  (an ordered \<^verbatim>\<open>std::map\<close> as a key-sorted association list) and the generic lemmas on lists,
  options and words that the component theories use.
\<close>

section \<open>Machine types\<close>

text \<open>
  Every value type of \<^verbatim>\<open>catapult/types.h\<close> used here is a \<^verbatim>\<open>BaseValue<uint64_t>\<close>: addition and
  subtraction wrap modulo \<open>2 ^ 64\<close>, comparison is unsigned.
\<close>

type_synonym u8 = "8 word"
type_synonym u16 = "16 word"
type_synonym u32 = "32 word"
type_synonym u64 = "64 word"
type_synonym amount = u64
type_synonym mosaic_id = u64
type_synonym height = u64
type_synonym timestamp = u64

section \<open>Exceptions as values\<close>

text \<open>
  \<^verbatim>\<open>CATAPULT_THROW_RUNTIME_ERROR\<close>, \<^verbatim>\<open>CATAPULT_THROW_INVALID_ARGUMENT\<close> and
  \<^verbatim>\<open>CATAPULT_THROW_OUT_OF_RANGE\<close>, with the message of the throw.
\<close>

datatype catapult_error =
    RuntimeError string
  | InvalidArgument string
  | OutOfRange string

type_synonym 'a result = "catapult_error + 'a"

definition res_bind :: "'a result \<Rightarrow> ('a \<Rightarrow> 'b result) \<Rightarrow> 'b result" where
  "res_bind r f = (case r of Inl e \<Rightarrow> Inl e | Inr x \<Rightarrow> f x)"

lemma res_bind_simps [simp]:
  "res_bind (Inl e) f = Inl e"
  "res_bind (Inr x) f = f x"
  by (simp_all add: res_bind_def)

lemma res_bind_Inr_iff:
  "res_bind r f = Inr y \<longleftrightarrow> (\<exists>x. r = Inr x \<and> f x = Inr y)"
  by (cases r) auto

lemma res_bind_assoc: "res_bind (res_bind r f) g = res_bind r (\<lambda>x. res_bind (f x) g)"
  by (cases r) auto

primrec res_fold :: "('a \<Rightarrow> 's \<Rightarrow> 's result) \<Rightarrow> 'a list \<Rightarrow> 's \<Rightarrow> 's result" where
  "res_fold f [] s = Inr s"
| "res_fold f (x # xs) s = res_bind (f x s) (res_fold f xs)"

lemma res_fold_append: "res_fold f (xs @ ys) s = res_bind (res_fold f xs s) (res_fold f ys)"
  by (induction xs arbitrary: s) (simp_all add: res_bind_assoc fun_eq_iff res_bind_def split: sum.split)

lemma res_fold_invariant:
  assumes "res_fold f xs s = Inr s'" and "I s"
    and "\<And>x s s'. x \<in> set xs \<Longrightarrow> I s \<Longrightarrow> f x s = Inr s' \<Longrightarrow> I s'"
  shows "I s'"
  using assms by (induction xs arbitrary: s) (auto simp: res_bind_Inr_iff)

section \<open>\<^verbatim>\<open>std::map\<close>: association lists sorted by key\<close>

abbreviation sorted_keys :: "('k::linorder \<times> 'v) list \<Rightarrow> bool" where
  "sorted_keys m \<equiv> sorted_wrt (<) (map fst m)"

text \<open>\<^verbatim>\<open>std::map::insert\<close> leaves the map alone when the key is already present.\<close>

fun std_map_insert :: "'k::linorder \<times> 'v \<Rightarrow> ('k \<times> 'v) list \<Rightarrow> ('k \<times> 'v) list" where
  "std_map_insert p [] = [p]"
| "std_map_insert p (q # m) =
     (if fst p < fst q then p # q # m
      else if fst p = fst q then q # m
      else q # std_map_insert p m)"

definition std_map_erase :: "'k \<Rightarrow> ('k \<times> 'v) list \<Rightarrow> ('k \<times> 'v) list" where
  "std_map_erase k m = filter (\<lambda>p. fst p \<noteq> k) m"

text \<open>\<^verbatim>\<open>operator[]\<close> and assignment through an iterator replace the value of the key.\<close>

fun std_map_put :: "'k::linorder \<Rightarrow> 'v \<Rightarrow> ('k \<times> 'v) list \<Rightarrow> ('k \<times> 'v) list" where
  "std_map_put k v [] = [(k, v)]"
| "std_map_put k v (q # m) =
     (if k < fst q then (k, v) # q # m
      else if k = fst q then (k, v) # m
      else q # std_map_put k v m)"

lemma sorted_keys_distinct: "sorted_keys m \<Longrightarrow> distinct (map fst m)"
  by (simp add: strict_sorted_iff)

lemma set_fst_std_map_insert [simp]:
  "fst ` set (std_map_insert p m) = insert (fst p) (fst ` set m)"
  by (induction p m rule: std_map_insert.induct) auto

lemma set_std_map_insert_subset: "set (std_map_insert p m) \<subseteq> insert p (set m)"
  by (induction p m rule: std_map_insert.induct) auto

lemma set_std_map_insert: "fst p \<notin> fst ` set m \<Longrightarrow> set (std_map_insert p m) = insert p (set m)"
  by (induction p m rule: std_map_insert.induct) auto

lemma sorted_std_map_insert [simp]: "sorted_keys m \<Longrightarrow> sorted_keys (std_map_insert p m)"
proof (induction p m rule: std_map_insert.induct)
  case (1 p)
  then show ?case by simp
next
  case (2 p q m)
  then show ?case
    using set_fst_std_map_insert [of p m] by auto
qed

lemma map_of_std_map_insert:
  "sorted_keys m \<Longrightarrow> fst p \<notin> fst ` set m \<Longrightarrow> map_of (std_map_insert p m) = (map_of m)(fst p \<mapsto> snd p)"
  by (induction p m rule: std_map_insert.induct) (auto simp: fun_eq_iff)

lemma length_std_map_insert:
  "fst p \<notin> fst ` set m \<Longrightarrow> length (std_map_insert p m) = Suc (length m)"
  by (induction p m rule: std_map_insert.induct) auto

lemma sorted_std_map_erase [simp]: "sorted_keys m \<Longrightarrow> sorted_keys (std_map_erase k m)"
  by (induction m) (auto simp: std_map_erase_def)

lemma map_of_std_map_erase: "map_of (std_map_erase k m) = (map_of m)(k := None)"
  by (induction m) (auto simp: std_map_erase_def fun_eq_iff)

lemma set_fst_std_map_erase [simp]: "fst ` set (std_map_erase k m) = fst ` set m - {k}"
  by (auto simp: std_map_erase_def)

lemma set_fst_std_map_put [simp]: "fst ` set (std_map_put k v m) = insert k (fst ` set m)"
  by (induction k v m rule: std_map_put.induct) auto

lemma map_of_std_map_put: "sorted_keys m \<Longrightarrow> map_of (std_map_put k v m) = (map_of m)(k \<mapsto> v)"
proof (induction k v m rule: std_map_put.induct)
  case (1 k v)
  then show ?case by simp
next
  case (2 k v q m)
  then show ?case by (auto simp: fun_eq_iff)
qed

lemma sorted_std_map_put [simp]: "sorted_keys m \<Longrightarrow> sorted_keys (std_map_put k v m)"
proof (induction k v m rule: std_map_put.induct)
  case (1 k v)
  then show ?case by simp
next
  case (2 k v q m)
  then show ?case
    using set_fst_std_map_put [of k v m] by auto
qed

section \<open>Lists and words\<close>

lemma map_of_eq_None_fst: "map_of m k = None \<longleftrightarrow> k \<notin> fst ` set m"
  by (rule map_of_eq_None_iff)

lemma option_eqI: "(\<And>a. x = Some a \<longleftrightarrow> y = Some a) \<Longrightarrow> x = y"
  by (metis not_Some_eq)

lemma filter_key_nth:
  assumes "distinct (map fst xs)" and "i < length xs"
  shows "filter (\<lambda>q. fst q \<noteq> fst (xs ! i)) xs = take i xs @ drop (Suc i) xs"
proof -
  let ?P = "\<lambda>q. fst q \<noteq> fst (xs ! i)"
  have split: "xs = take i xs @ xs ! i # drop (Suc i) xs"
    using assms(2) by (simp add: id_take_nth_drop)
  have "distinct (map fst (take i xs @ xs ! i # drop (Suc i) xs))"
    using assms(1) split by simp
  then have "fst (xs ! i) \<notin> fst ` set (take i xs)" and "fst (xs ! i) \<notin> fst ` set (drop (Suc i) xs)"
    unfolding map_append distinct_append by auto
  then have "\<forall>q \<in> set (take i xs). ?P q" and "\<forall>q \<in> set (drop (Suc i) xs). ?P q"
    by (metis image_eqI)+
  then have "filter ?P (take i xs @ xs ! i # drop (Suc i) xs) = take i xs @ drop (Suc i) xs"
    unfolding filter_append by simp
  then show ?thesis using split by simp
qed

lemma word_minus_one_less: "0 < (x :: 'a::len word) \<Longrightarrow> x - 1 < x"
  by (simp add: word_less_minus_mono_left unat_minus_one word_less_nat_alt unat_gt_0)

lemma unat_of_nat_u64: "n < 2 ^ 64 \<Longrightarrow> unat (of_nat n :: u64) = n"
  by (simp add: unat_of_nat)

end
