(* ===== verification/Compact_Mosaic_Map.thy ===== *)
theory Compact_Mosaic_Map
  imports Catapult_Prelude
begin

text \<open>
  \<^verbatim>\<open>src/catapult/state/CompactMosaicMap.{h,cpp}\<close>: the ordered mosaic map with three levels of
  storage (one inline value, an array of five, a \<^verbatim>\<open>std::map\<close> for the rest) that every account
  balance is kept in. The model keeps the three levels, the fixed-size array with its stale
  slots and the shifting loops; the abstract view is the list \<open>entries\<close> and the finite map
  \<open>lookup\<close>. The lemmas show that every operation keeps the representation invariant and acts on
  the abstract map as the operation of the same name should.
\<close>

section \<open>Storage\<close>

type_synonym mosaic = "mosaic_id \<times> amount"

definition Array_Size :: nat where
  "Array_Size = 5"

record second_level_storage =
  ArrayStorage :: "mosaic list"
  ArraySize :: nat
  pMapStorage :: "mosaic list option"

record first_level_storage =
  Value :: mosaic
  pNextStorage :: "second_level_storage option"

record compact_mosaic_map =
  m_storage :: first_level_storage
  m_optimizedMosaicId :: mosaic_id

definition empty_map :: compact_mosaic_map where
  "empty_map = \<lparr>m_storage = \<lparr>Value = (0, 0), pNextStorage = None\<rparr>, m_optimizedMosaicId = 0\<rparr>"

definition hasValue :: "first_level_storage \<Rightarrow> bool" where
  "hasValue s \<longleftrightarrow> 0 \<noteq> fst (Value s)"

definition hasArray :: "first_level_storage \<Rightarrow> bool" where
  "hasArray s \<longleftrightarrow> pNextStorage s \<noteq> None"

definition hasMap :: "first_level_storage \<Rightarrow> bool" where
  "hasMap s \<longleftrightarrow> (case pNextStorage s of None \<Rightarrow> False | Some n \<Rightarrow> pMapStorage n \<noteq> None)"

text \<open>The three accessors dereference the unique pointers; callers check them first.\<close>

definition arraySize :: "first_level_storage \<Rightarrow> nat" where
  "arraySize s = ArraySize (the (pNextStorage s))"

definition array_of :: "first_level_storage \<Rightarrow> mosaic list" where
  "array_of s = ArrayStorage (the (pNextStorage s))"

definition mapStorage :: "first_level_storage \<Rightarrow> mosaic list" where
  "mapStorage s = the (pMapStorage (the (pNextStorage s)))"

definition set_next :: "(second_level_storage \<Rightarrow> second_level_storage) \<Rightarrow> first_level_storage \<Rightarrow> first_level_storage" where
  "set_next f s = s\<lparr>pNextStorage := Some (f (the (pNextStorage s)))\<rparr>"

section \<open>Iterators\<close>

datatype stage = Stage_Start | Stage_Value | Stage_Array | Stage_Map | Stage_End

text \<open>
  An iterator holds its stage, the array index and the position in the map. A map position is
  the rest of the map from the current element on; \<^verbatim>\<open>m_pCurrent\<close> is \<open>it_current\<close>.
\<close>

record basic_iterator =
  it_stage :: stage
  it_arrayIndex :: nat
  it_mapIterator :: "mosaic list"
  it_current :: "mosaic option"

definition setValueMosaic :: "first_level_storage \<Rightarrow> basic_iterator \<Rightarrow> basic_iterator" where
  "setValueMosaic s it = it\<lparr>it_stage := Stage_Value, it_current := Some (Value s)\<rparr>"

definition setArrayMosaic :: "first_level_storage \<Rightarrow> basic_iterator \<Rightarrow> basic_iterator" where
  "setArrayMosaic s it = it\<lparr>it_stage := Stage_Array, it_current := Some (array_of s ! it_arrayIndex it)\<rparr>"

definition setMapMosaic :: "basic_iterator \<Rightarrow> basic_iterator" where
  "setMapMosaic it = it\<lparr>it_stage := Stage_Map, it_current := Some (hd (it_mapIterator it))\<rparr>"

definition setEnd :: "basic_iterator \<Rightarrow> basic_iterator" where
  "setEnd it = it\<lparr>it_stage := Stage_End, it_current := None\<rparr>"

definition isEnd :: "basic_iterator \<Rightarrow> bool" where
  "isEnd it \<longleftrightarrow> it_stage it = Stage_End"

definition advance_iter :: "first_level_storage \<Rightarrow> basic_iterator \<Rightarrow> basic_iterator" where
  "advance_iter s it = (case it_stage it of
     Stage_Start \<Rightarrow> if hasValue s then setValueMosaic s it else setEnd it
   | Stage_Value \<Rightarrow>
       (let it = it\<lparr>it_arrayIndex := 0\<rparr>
        in if hasArray s then setArrayMosaic s it else setEnd it)
   | Stage_Array \<Rightarrow>
       (let it = it\<lparr>it_arrayIndex := it_arrayIndex it + 1\<rparr>
        in if it_arrayIndex it \<noteq> arraySize s then setArrayMosaic s it
           else if \<not> hasMap s then setEnd it
           else setMapMosaic (it\<lparr>it_mapIterator := mapStorage s\<rparr>))
   | Stage_Map \<Rightarrow>
       (let it = it\<lparr>it_mapIterator := tl (it_mapIterator it)\<rparr>
        in if it_mapIterator it \<noteq> [] then setMapMosaic it else setEnd it)
   | Stage_End \<Rightarrow> it)"

definition make_iterator :: "first_level_storage \<Rightarrow> stage \<Rightarrow> basic_iterator" where
  "make_iterator s st =
     advance_iter s \<lparr>it_stage = st, it_arrayIndex = 0, it_mapIterator = [], it_current = None\<rparr>"

definition increment_iter :: "first_level_storage \<Rightarrow> basic_iterator \<Rightarrow> basic_iterator result" where
  "increment_iter s it =
     (if isEnd it then Inl (OutOfRange ''cannot advance iterator beyond end'') else Inr (advance_iter s it))"

definition current_mosaic :: "basic_iterator \<Rightarrow> mosaic result" where
  "current_mosaic it = (case it_current it of
     None \<Rightarrow> Inl (OutOfRange ''cannot dereference at end'')
   | Some p \<Rightarrow> Inr p)"

definition begin_iter :: "compact_mosaic_map \<Rightarrow> basic_iterator" where
  "begin_iter m = make_iterator (m_storage m) Stage_Start"

definition end_iter :: "compact_mosaic_map \<Rightarrow> basic_iterator" where
  "end_iter m = make_iterator (m_storage m) Stage_End"

text \<open>
  A range-based \<open>for\<close> over the map: dereference and increment until the end is reached. Every
  step uses one unit of fuel; \<open>iterate_entries\<close> shows that \<open>size + 1\<close> units are enough.
\<close>

fun iterate_mosaics :: "nat \<Rightarrow> first_level_storage \<Rightarrow> basic_iterator \<Rightarrow> mosaic list option" where
  "iterate_mosaics 0 s it = None"
| "iterate_mosaics (Suc fuel) s it =
     (if isEnd it then Some []
      else (case current_mosaic it of
        Inl _ \<Rightarrow> None
      | Inr p \<Rightarrow> (case increment_iter s it of
          Inl _ \<Rightarrow> None
        | Inr it' \<Rightarrow> map_option ((#) p) (iterate_mosaics fuel s it'))))"

section \<open>Lookup\<close>

definition empty_mosaics :: "compact_mosaic_map \<Rightarrow> bool" where
  "empty_mosaics m \<longleftrightarrow> \<not> hasValue (m_storage m)"

definition size_mosaics :: "compact_mosaic_map \<Rightarrow> nat" where
  "size_mosaics m =
     (let s = m_storage m
      in if empty_mosaics m then 0
         else 1 + (if hasArray s then arraySize s + (if hasMap s then length (mapStorage s) else 0) else 0))"

text \<open>\<^verbatim>\<open>MosaicLocation\<close>: the source of the mosaic and its index or map position.\<close>

datatype mosaic_location = Loc_Value | Loc_Array nat | Loc_Map

definition find_location :: "compact_mosaic_map \<Rightarrow> mosaic_id \<Rightarrow> mosaic_location option" where
  "find_location m mid =
     (let s = m_storage m
      in if empty_mosaics m then None
         else if mid = fst (Value s) then Some Loc_Value
         else case (if hasArray s then List.find (\<lambda>i. mid = fst (array_of s ! i)) [0..<arraySize s] else None) of
           Some i \<Rightarrow> Some (Loc_Array i)
         | None \<Rightarrow>
             if hasMap s \<and> map_of (mapStorage s) mid \<noteq> None then Some Loc_Map else None)"

definition at_location :: "first_level_storage \<Rightarrow> mosaic_id \<Rightarrow> mosaic_location \<Rightarrow> mosaic" where
  "at_location s mid loc = (case loc of
     Loc_Value \<Rightarrow> Value s
   | Loc_Array i \<Rightarrow> array_of s ! i
   | Loc_Map \<Rightarrow> (mid, the (map_of (mapStorage s) mid)))"

definition find_mosaic :: "compact_mosaic_map \<Rightarrow> mosaic_id \<Rightarrow> mosaic option" where
  "find_mosaic m mid = map_option (at_location (m_storage m) mid) (find_location m mid)"

text \<open>\<^verbatim>\<open>iter->second = amount\<close> for the iterator \<^verbatim>\<open>find(id)\<close> returned.\<close>

definition assign_mosaic :: "compact_mosaic_map \<Rightarrow> mosaic_id \<Rightarrow> amount \<Rightarrow> compact_mosaic_map" where
  "assign_mosaic m mid a = (case find_location m mid of
     None \<Rightarrow> m
   | Some Loc_Value \<Rightarrow> m\<lparr>m_storage := (m_storage m)\<lparr>Value := (mid, a)\<rparr>\<rparr>
   | Some (Loc_Array i) \<Rightarrow>
       m\<lparr>m_storage := set_next (\<lambda>n. n\<lparr>ArrayStorage := (ArrayStorage n)[i := (mid, a)]\<rparr>) (m_storage m)\<rparr>
   | Some Loc_Map \<Rightarrow>
       m\<lparr>m_storage := set_next (\<lambda>n. n\<lparr>pMapStorage := Some (std_map_put mid a (the (pMapStorage n)))\<rparr>) (m_storage m)\<rparr>)"

section \<open>Modification\<close>

definition IsLessThan :: "mosaic_id \<Rightarrow> mosaic_id \<Rightarrow> mosaic_id \<Rightarrow> bool" where
  "IsLessThan optimizedMosaicId lhs rhs =
     (if lhs = rhs then False
      else if optimizedMosaicId = lhs \<or> optimizedMosaicId = rhs then optimizedMosaicId = lhs
      else lhs < rhs)"

definition insertIntoMap :: "first_level_storage \<Rightarrow> mosaic \<Rightarrow> first_level_storage" where
  "insertIntoMap s p =
     (let s = (if \<not> hasMap s then set_next (\<lambda>n. n\<lparr>pMapStorage := Some []\<rparr>) s else s)
      in set_next (\<lambda>n. n\<lparr>pMapStorage := Some (std_map_insert p (the (pMapStorage n)))\<rparr>) s)"

text \<open>\<^verbatim>\<open>for (auto i = arraySize(); i > index + 1; --i) array()[i - 1] = array()[i - 2]\<close>\<close>

fun shift_right :: "mosaic list \<Rightarrow> nat \<Rightarrow> nat \<Rightarrow> mosaic list" where
  "shift_right a index 0 = a"
| "shift_right a index (Suc i) =
     (if Suc i > index + 1 then shift_right (a[i := a ! (i - 1)]) index i else a)"

definition insertIntoArray :: "first_level_storage \<Rightarrow> nat \<Rightarrow> mosaic \<Rightarrow> first_level_storage" where
  "insertIntoArray s index p =
     (let s = (if Array_Size = arraySize s then insertIntoMap s (last (array_of s))
               else set_next (\<lambda>n. n\<lparr>ArraySize := ArraySize n + 1\<rparr>) s);
          a = shift_right (array_of s) index (arraySize s)
      in set_next (\<lambda>n. n\<lparr>ArrayStorage := a[index := p]\<rparr>) s)"

definition new_second_level :: second_level_storage where
  "new_second_level = \<lparr>ArrayStorage = replicate Array_Size (0, 0), ArraySize = 0, pMapStorage = None\<rparr>"

text \<open>The insertion-sort scan: the first array slot with a greater id, or the array size.\<close>

fun scan_array :: "mosaic list \<Rightarrow> mosaic_id \<Rightarrow> nat list \<Rightarrow> nat option" where
  "scan_array a mid [] = None"
| "scan_array a mid (i # is) = (if mid < fst (a ! i) then Some i else scan_array a mid is)"

definition insert_mosaic :: "compact_mosaic_map \<Rightarrow> mosaic \<Rightarrow> compact_mosaic_map result" where
  "insert_mosaic m p =
     (if fst p = 0 then Inl (InvalidArgument ''cannot insert reserved mosaic'')
      else if find_mosaic m (fst p) \<noteq> None then Inl (InvalidArgument ''cannot insert mosaic already in map'')
      else if empty_mosaics m then Inr (m\<lparr>m_storage := (m_storage m)\<lparr>Value := p\<rparr>\<rparr>)
      else
        let s = m_storage m;
            s = (if \<not> hasArray s then s\<lparr>pNextStorage := Some new_second_level\<rparr> else s)
        in if IsLessThan (m_optimizedMosaicId m) (fst p) (fst (Value s))
           then Inr (m\<lparr>m_storage := (insertIntoArray s 0 (Value s))\<lparr>Value := p\<rparr>\<rparr>)
           else
             let arrayIndex = (case scan_array (array_of s) (fst p) [0..<arraySize s] of
                                 Some i \<Rightarrow> i | None \<Rightarrow> arraySize s)
             in if arrayIndex < Array_Size
                then Inr (m\<lparr>m_storage := insertIntoArray s arrayIndex p\<rparr>)
                else Inr (m\<lparr>m_storage := insertIntoMap s p\<rparr>))"

text \<open>\<^verbatim>\<open>for (auto i = index; i < arraySize() - 1u; ++i) array()[i] = array()[i + 1]\<close>\<close>

function shift_left :: "mosaic list \<Rightarrow> nat \<Rightarrow> nat \<Rightarrow> mosaic list" where
  "shift_left a i n = (if i < n - 1 then shift_left (a[i := a ! (i + 1)]) (i + 1) n else a)"
  by pat_completeness auto
termination
  by (relation "measure (\<lambda>(a, i, n). n - i)") auto

declare shift_left.simps [simp del]

definition eraseFromArray :: "first_level_storage \<Rightarrow> nat \<Rightarrow> first_level_storage" where
  "eraseFromArray s index =
     set_next (\<lambda>n. n\<lparr>ArrayStorage := shift_left (ArrayStorage n) index (ArraySize n),
                     ArraySize := ArraySize n - 1\<rparr>) s"

text \<open>The loop of \<^verbatim>\<open>compact\<close>: move the smallest map elements to the end of the array.\<close>

fun compact_loop :: "mosaic list \<Rightarrow> nat \<Rightarrow> mosaic list \<Rightarrow> mosaic list \<times> nat \<times> mosaic list" where
  "compact_loop a n [] = (a, n, [])"
| "compact_loop a n (p # mp) =
     (if n < Array_Size then compact_loop (a[n := p]) (n + 1) mp else (a, n, p # mp))"

definition compact :: "first_level_storage \<Rightarrow> first_level_storage" where
  "compact s =
     (if \<not> hasArray s then s
      else
        let s = (if hasMap s
                 then (case compact_loop (array_of s) (arraySize s) (mapStorage s) of
                   (a, n, mp) \<Rightarrow>
                     set_next (\<lambda>nx. nx\<lparr>ArrayStorage := a, ArraySize := n,
                                      pMapStorage := (if mp = [] then None else Some mp)\<rparr>) s)
                 else s)
        in if arraySize s = 0 then s\<lparr>pNextStorage := None\<rparr> else s)"

definition erase_mosaic :: "compact_mosaic_map \<Rightarrow> mosaic_id \<Rightarrow> compact_mosaic_map" where
  "erase_mosaic m mid = (case find_location m mid of
     None \<Rightarrow> m
   | Some loc \<Rightarrow>
       (let s = m_storage m;
            s = (case loc of
                  Loc_Value \<Rightarrow>
                    if hasArray s then eraseFromArray (s\<lparr>Value := array_of s ! 0\<rparr>) 0
                    else s\<lparr>Value := (0, 0)\<rparr>
                | Loc_Array i \<Rightarrow> eraseFromArray s i
                | Loc_Map \<Rightarrow>
                    set_next (\<lambda>n. n\<lparr>pMapStorage := Some (std_map_erase mid (the (pMapStorage n)))\<rparr>) s)
        in m\<lparr>m_storage := compact s\<rparr>))"

definition optimize_mosaic :: "compact_mosaic_map \<Rightarrow> mosaic_id \<Rightarrow> compact_mosaic_map result" where
  "optimize_mosaic m mid =
     (if mid = m_optimizedMosaicId m then Inr m
      else if m_optimizedMosaicId m \<noteq> 0 then Inl (InvalidArgument ''cannot reoptimize map'')
      else
        let m = m\<lparr>m_optimizedMosaicId := mid\<rparr>
        in case find_mosaic m mid of
             None \<Rightarrow> Inr m
           | Some mosaicCopy \<Rightarrow> insert_mosaic (erase_mosaic m (fst mosaicCopy)) mosaicCopy)"

section \<open>Abstract view and representation invariant\<close>

definition rest_entries :: "first_level_storage \<Rightarrow> mosaic list" where
  "rest_entries s = (case pNextStorage s of
     None \<Rightarrow> []
   | Some n \<Rightarrow> take (ArraySize n) (ArrayStorage n) @ (case pMapStorage n of None \<Rightarrow> [] | Some mp \<Rightarrow> mp))"

definition entries :: "compact_mosaic_map \<Rightarrow> mosaic list" where
  "entries m = (if empty_mosaics m then [] else Value (m_storage m) # rest_entries (m_storage m))"

definition lookup :: "compact_mosaic_map \<Rightarrow> mosaic_id \<rightharpoonup> amount" where
  "lookup m = map_of (entries m)"

definition next_ok :: "second_level_storage \<Rightarrow> bool" where
  "next_ok n \<longleftrightarrow> length (ArrayStorage n) = Array_Size \<and> ArraySize n \<le> Array_Size \<and>
     (pMapStorage n \<noteq> None \<longrightarrow> ArraySize n = Array_Size)"

definition map_inv :: "compact_mosaic_map \<Rightarrow> bool" where
  "map_inv m \<longleftrightarrow>
     (case pNextStorage (m_storage m) of
        None \<Rightarrow> True
      | Some n \<Rightarrow> next_ok n \<and> 0 < ArraySize n \<and> pMapStorage n \<noteq> Some [] \<and> \<not> empty_mosaics m) \<and>
     sorted_wrt (IsLessThan (m_optimizedMosaicId m)) (map fst (entries m)) \<and>
     0 \<notin> fst ` set (entries m)"

lemma IsLessThan_irrefl [simp]: "\<not> IsLessThan opt x x"
  by (simp add: IsLessThan_def)

lemma IsLessThan_trans: "IsLessThan opt x y \<Longrightarrow> IsLessThan opt y z \<Longrightarrow> IsLessThan opt x z"
  by (auto simp: IsLessThan_def split: if_splits)

lemma IsLessThan_total: "x \<noteq> y \<Longrightarrow> IsLessThan opt x y \<or> IsLessThan opt y x"
  by (auto simp: IsLessThan_def)

lemma IsLessThan_less: "x \<noteq> opt \<Longrightarrow> y \<noteq> opt \<Longrightarrow> IsLessThan opt x y \<longleftrightarrow> x < y"
  by (auto simp: IsLessThan_def)

lemma IsLessThan_not_opt: "IsLessThan opt x y \<Longrightarrow> y \<noteq> opt"
  by (auto simp: IsLessThan_def split: if_splits)

lemma sorted_IsLessThan_distinct: "sorted_wrt (IsLessThan opt) xs \<Longrightarrow> distinct xs"
  by (induction xs) auto

lemma map_inv_distinct: "map_inv m \<Longrightarrow> distinct (map fst (entries m))"
  by (auto simp: map_inv_def dest: sorted_IsLessThan_distinct)

lemma lookup_Some_iff: "map_inv m \<Longrightarrow> lookup m k = Some a \<longleftrightarrow> (k, a) \<in> set (entries m)"
  by (simp add: lookup_def map_inv_distinct)

lemma dom_lookup: "dom (lookup m) = fst ` set (entries m)"
  by (simp add: lookup_def dom_map_of_conv_image_fst)

section \<open>The array loops\<close>

lemma length_shift_right [simp]: "length (shift_right a index i) = length a"
  by (induction a index i rule: shift_right.induct) auto

lemma nth_shift_right:
  "i \<le> length a \<Longrightarrow> j < length a \<Longrightarrow>
   shift_right a index i ! j = (if index < j \<and> j < i then a ! (j - 1) else a ! j)"
  by (induction a index i rule: shift_right.induct) (auto simp: nth_list_update less_Suc_eq)

lemma take_shift_right:
  assumes "n \<le> length a" and "index < n"
  shows "take n ((shift_right a index n)[index := p]) = take index a @ p # drop index (take (n - 1) a)"
proof (rule nth_equalityI)
  show "length (take n ((shift_right a index n)[index := p])) =
      length (take index a @ p # drop index (take (n - 1) a))"
    using assms by auto
next
  fix j
  assume "j < length (take n ((shift_right a index n)[index := p]))"
  with assms show "take n ((shift_right a index n)[index := p]) ! j =
      (take index a @ p # drop index (take (n - 1) a)) ! j"
    by (auto simp: nth_shift_right nth_list_update nth_append nth_Cons')
qed

lemma length_shift_left [simp]: "length (shift_left a i n) = length a"
proof (induction a i n rule: shift_left.induct)
  case (1 a i n)
  then show ?case by (subst shift_left.simps) simp
qed

lemma nth_shift_left:
  "n \<le> length a \<Longrightarrow> j < length a \<Longrightarrow>
   shift_left a i n ! j = (if i \<le> j \<and> j < n - 1 then a ! (j + 1) else a ! j)"
proof (induction a i n rule: shift_left.induct)
  case (1 a i n)
  show ?case
  proof (cases "i < n - 1")
    case True
    with 1 show ?thesis
      by (subst shift_left.simps) (auto simp: nth_list_update)
  next
    case False
    with 1 show ?thesis by (subst shift_left.simps) auto
  qed
qed

lemma take_shift_left:
  assumes "n \<le> length a" and "i < n"
  shows "take (n - 1) (shift_left a i n) = take i a @ drop (Suc i) (take n a)"
proof (rule nth_equalityI)
  show "length (take (n - 1) (shift_left a i n)) = length (take i a @ drop (Suc i) (take n a))"
    using assms by auto
next
  fix j
  assume "j < length (take (n - 1) (shift_left a i n))"
  with assms show "take (n - 1) (shift_left a i n) ! j = (take i a @ drop (Suc i) (take n a)) ! j"
    by (auto simp: nth_shift_left nth_append)
qed

lemma compact_loop_spec:
  assumes "compact_loop a n mp = (a', n', mp')" and "n \<le> Array_Size" and "length a = Array_Size"
  shows "take n' a' @ mp' = take n a @ mp" and "length a' = Array_Size" and "n' \<le> Array_Size"
    and "mp' \<noteq> [] \<Longrightarrow> n' = Array_Size" and "n \<le> n'"
  using assms
  by (induction a n mp arbitrary: a' n' mp' rule: compact_loop.induct)
    (auto simp: take_Suc_conv_app_nth Array_Size_def split: if_splits)

section \<open>Lookups\<close>

lemma find_index_Some:
  "List.find P [0..<n] = Some i \<Longrightarrow> i < n \<and> P i"
  by (auto simp: find_Some_iff)

lemma find_index_None: "List.find P [0..<n] = None \<longleftrightarrow> (\<forall>i < n. \<not> P i)"
  by (auto simp: find_None_iff)

lemma find_location_in_entries:
  assumes "map_inv m" and "find_location m mid = Some loc"
  shows "at_location (m_storage m) mid loc \<in> set (entries m) \<and>
    fst (at_location (m_storage m) mid loc) = mid"
proof (cases "mid = fst (Value (m_storage m))")
  case True
  with assms show ?thesis
    by (auto simp: find_location_def at_location_def entries_def Let_def split: if_splits)
next
  case False
  show ?thesis
  proof (cases loc)
    case Loc_Value
    with False assms show ?thesis
      by (auto simp: find_location_def Let_def split: if_splits option.splits)
  next
    case (Loc_Array i)
    with False assms have i: "i < arraySize (m_storage m)" "fst (array_of (m_storage m) ! i) = mid"
      and n: "hasArray (m_storage m)" "\<not> empty_mosaics m"
      by (auto simp: find_location_def Let_def split: if_splits option.splits dest!: find_index_Some)
    obtain n where n': "pNextStorage (m_storage m) = Some n" "next_ok n"
      using n assms(1) by (auto simp: hasArray_def map_inv_def)
    have "array_of (m_storage m) ! i \<in> set (take (ArraySize n) (ArrayStorage n))"
      using i n' by (auto simp: arraySize_def array_of_def in_set_conv_nth next_ok_def intro!: exI [of _ i])
    with i n n' Loc_Array show ?thesis
      by (auto simp: at_location_def entries_def rest_entries_def)
  next
    case Loc_Map
    with False assms obtain a where "map_of (mapStorage (m_storage m)) mid = Some a"
      and n: "hasMap (m_storage m)" "\<not> empty_mosaics m"
      by (auto simp: find_location_def Let_def split: if_splits option.splits)
    with Loc_Map show ?thesis
      by (auto simp: at_location_def entries_def rest_entries_def hasMap_def mapStorage_def
        split: option.splits dest: map_of_SomeD)
  qed
qed

lemma find_location_None:
  assumes "map_inv m" and "find_location m mid = None"
  shows "mid \<notin> fst ` set (entries m)"
proof (cases "empty_mosaics m")
  case True
  then show ?thesis by (simp add: entries_def)
next
  case False
  with assms(2) have v: "mid \<noteq> fst (Value (m_storage m))"
    and arr: "hasArray (m_storage m) \<Longrightarrow> \<forall>i < arraySize (m_storage m). mid \<noteq> fst (array_of (m_storage m) ! i)"
    and mp: "hasMap (m_storage m) \<Longrightarrow> map_of (mapStorage (m_storage m)) mid = None"
    by (auto simp: find_location_def Let_def find_index_None split: if_splits option.splits)
  show ?thesis
  proof (cases "pNextStorage (m_storage m)")
    case None
    with v False show ?thesis by (simp add: entries_def rest_entries_def)
  next
    case (Some n)
    with assms(1) have "next_ok n" by (simp add: map_inv_def)
    with arr Some have "mid \<notin> fst ` set (take (ArraySize n) (ArrayStorage n))"
      by (force simp: hasArray_def arraySize_def array_of_def next_ok_def in_set_conv_nth)
    moreover have "\<And>xs. pMapStorage n = Some xs \<Longrightarrow> mid \<notin> fst ` set xs"
      using mp Some by (simp add: hasMap_def mapStorage_def map_of_eq_None_fst)
    ultimately show ?thesis
      using v False Some by (cases "pMapStorage n") (auto simp: entries_def rest_entries_def)
  qed
qed

lemma find_mosaic_lookup:
  assumes "map_inv m"
  shows "find_mosaic m mid = map_option (Pair mid) (lookup m mid)"
proof (cases "find_location m mid")
  case None
  from find_location_None [OF assms None] have "lookup m mid = None"
    by (simp add: lookup_def map_of_eq_None_fst)
  with None show ?thesis by (simp add: find_mosaic_def)
next
  case (Some loc)
  note loc = find_location_in_entries [OF assms Some]
  then obtain a where "at_location (m_storage m) mid loc = (mid, a)"
    by (cases "at_location (m_storage m) mid loc") auto
  moreover from this loc have "lookup m mid = Some a"
    by (simp add: lookup_Some_iff [OF assms])
  ultimately show ?thesis
    using Some by (simp add: find_mosaic_def)
qed

lemma size_mosaics_card:
  assumes "map_inv m"
  shows "size_mosaics m = card (dom (lookup m))"
proof -
  have "card (dom (lookup m)) = length (entries m)"
    using distinct_card [OF map_inv_distinct [OF assms]] by (simp add: dom_lookup)
  also have "\<dots> = size_mosaics m"
    using assms
    by (auto simp: entries_def rest_entries_def size_mosaics_def Let_def hasArray_def hasMap_def
      arraySize_def mapStorage_def map_inv_def next_ok_def split: option.splits)
  finally show ?thesis by simp
qed


section \<open>Insertion\<close>

definition map_part :: "second_level_storage \<Rightarrow> mosaic list" where
  "map_part n = (case pMapStorage n of None \<Rightarrow> [] | Some mp \<Rightarrow> mp)"

lemma rest_entries_Some:
  "pNextStorage s = Some n \<Longrightarrow> rest_entries s = take (ArraySize n) (ArrayStorage n) @ map_part n"
  by (simp add: rest_entries_def map_part_def)

lemma std_map_insert_front:
  "(\<And>q. q \<in> set mp \<Longrightarrow> fst p < fst q) \<Longrightarrow> std_map_insert p mp = p # mp"
  by (cases mp) auto

lemma insertIntoMap_eq:
  "pNextStorage s = Some n \<Longrightarrow>
   insertIntoMap s p = s\<lparr>pNextStorage := Some (n\<lparr>pMapStorage := Some (std_map_insert p (map_part n))\<rparr>)\<rparr>"
  by (auto simp: insertIntoMap_def set_next_def hasMap_def map_part_def Let_def)

lemma insertIntoArray_eq:
  assumes "pNextStorage s = Some n"
  shows "insertIntoArray s i p = s\<lparr>pNextStorage := Some
    (if ArraySize n = Array_Size
     then n\<lparr>pMapStorage := Some (std_map_insert (last (ArrayStorage n)) (map_part n)),
            ArrayStorage := (shift_right (ArrayStorage n) i (ArraySize n))[i := p]\<rparr>
     else n\<lparr>ArraySize := ArraySize n + 1,
            ArrayStorage := (shift_right (ArrayStorage n) i (ArraySize n + 1))[i := p]\<rparr>)\<rparr>"
  using assms
  by (auto simp: insertIntoArray_def insertIntoMap_eq set_next_def arraySize_def array_of_def Let_def)

lemma std_map_insert_not_Nil [simp]: "std_map_insert p mp \<noteq> []"
  by (cases mp) auto

lemma insertIntoArray_rest:
  assumes n: "pNextStorage s = Some n" "next_ok n"
    and i: "i \<le> ArraySize n" "i < Array_Size"
    and sorted: "sorted_keys (rest_entries s)"
    and map_ne: "pMapStorage n \<noteq> Some []"
  obtains n' where "insertIntoArray s i p = s\<lparr>pNextStorage := Some n'\<rparr>" and "next_ok n'"
    and "0 < ArraySize n'" and "pMapStorage n' \<noteq> Some []"
    and "rest_entries (insertIntoArray s i p) = take i (rest_entries s) @ p # drop i (rest_entries s)"
proof (cases "ArraySize n = Array_Size")
  case True
  let ?a = "ArrayStorage n"
  have len: "length ?a = Array_Size" using n by (simp add: next_ok_def)
  then have ne: "?a \<noteq> []" by (auto simp: Array_Size_def)
  have rest: "rest_entries s = ?a @ map_part n"
    using n True len by (simp add: rest_entries_Some)
  have "\<And>q. q \<in> set (map_part n) \<Longrightarrow> fst (last ?a) < fst q"
    using sorted ne rest by (auto simp: sorted_wrt_append)
  then have front: "std_map_insert (last ?a) (map_part n) = last ?a # map_part n"
    by (rule std_map_insert_front)
  have take: "take Array_Size ((shift_right ?a i Array_Size)[i := p]) = take i ?a @ p # drop i (butlast ?a)"
    using take_shift_right [of Array_Size ?a i p] i len by (simp add: butlast_conv_take)
  have "drop i (butlast ?a) @ [last ?a] = drop i ?a"
  proof -
    have "drop i (butlast ?a @ [last ?a]) = drop i (butlast ?a) @ [last ?a]"
      using i len by simp
    then show ?thesis using ne by simp
  qed
  then have eq: "take Array_Size ((shift_right ?a i Array_Size)[i := p]) @ last ?a # map_part n =
      take i (rest_entries s) @ p # drop i (rest_entries s)"
    using i len unfolding take rest
    by (simp add: take_append drop_append)
  show ?thesis
    using that [OF insertIntoArray_eq [OF n(1), of i p]] True n eq
    by (simp add: insertIntoArray_eq [OF n(1)] rest_entries_def next_ok_def front Array_Size_def)
next
  case False
  let ?a = "ArrayStorage n"
  have lt: "ArraySize n < Array_Size" and len: "length ?a = Array_Size"
    using n False by (auto simp: next_ok_def)
  have mp: "pMapStorage n = None" using n False by (auto simp: next_ok_def)
  have "take (ArraySize n + 1) ((shift_right ?a i (ArraySize n + 1))[i := p]) =
      take i (take (ArraySize n) ?a) @ p # drop i (take (ArraySize n) ?a)"
    using take_shift_right [of "ArraySize n + 1" ?a i p] i lt len by (simp add: min_def)
  with n mp have eq: "rest_entries (insertIntoArray s i p) = take i (rest_entries s) @ p # drop i (rest_entries s)"
    using False by (simp add: insertIntoArray_eq [OF n(1)] rest_entries_def)
  show ?thesis
    using that [OF insertIntoArray_eq [OF n(1), of i p]] False n eq lt mp
    by (simp add: next_ok_def)
qed

lemma scan_array_find: "scan_array a k is = List.find (\<lambda>i. k < fst (a ! i)) is"
  by (induction "is") auto

lemma sorted_keys_insert_at:
  assumes "sorted_keys xs" and "\<And>x. x \<in> set (take i xs) \<Longrightarrow> fst x < fst p"
    and "\<And>x. x \<in> set (drop i xs) \<Longrightarrow> fst p < fst x"
  shows "sorted_keys (take i xs @ p # drop i xs)"
proof -
  have "sorted_keys (take i xs @ drop i xs)" using assms(1) by simp
  then have "sorted_keys (take i xs)" and "sorted_keys (drop i xs)"
    and "\<And>x y. x \<in> set (take i xs) \<Longrightarrow> y \<in> set (drop i xs) \<Longrightarrow> fst x < fst y"
    unfolding map_append sorted_wrt_append by auto
  with assms(2,3) show ?thesis by (auto simp: sorted_wrt_append)
qed

lemma map_inv_not_emptyD:
  assumes "map_inv m" and "\<not> empty_mosaics m"
  shows "sorted_keys (rest_entries (m_storage m))"
    and "\<And>p. p \<in> set (rest_entries (m_storage m)) \<Longrightarrow>
      IsLessThan (m_optimizedMosaicId m) (fst (Value (m_storage m))) (fst p)"
    and "\<And>p. p \<in> set (rest_entries (m_storage m)) \<Longrightarrow> fst p \<noteq> m_optimizedMosaicId m"
proof -
  let ?opt = "m_optimizedMosaicId m"
  have sorted: "sorted_wrt (IsLessThan ?opt) (fst (Value (m_storage m)) # map fst (rest_entries (m_storage m)))"
    using assms by (simp add: map_inv_def entries_def)
  then show less: "\<And>p. p \<in> set (rest_entries (m_storage m)) \<Longrightarrow>
      IsLessThan ?opt (fst (Value (m_storage m))) (fst p)"
    by simp
  then show not_opt: "\<And>p. p \<in> set (rest_entries (m_storage m)) \<Longrightarrow> fst p \<noteq> ?opt"
    by (metis IsLessThan_not_opt)
  from sorted have "sorted_wrt (IsLessThan ?opt) (map fst (rest_entries (m_storage m)))" by simp
  then show "sorted_keys (rest_entries (m_storage m))"
    by (rule sorted_wrt_mono_rel [rotated]) (use not_opt in \<open>force simp: IsLessThan_less\<close>)
qed


text \<open>
  The storage an insertion works on: the second level exists, possibly freshly made and empty.
\<close>

definition insert_storage :: "first_level_storage \<Rightarrow> first_level_storage" where
  "insert_storage s = (if \<not> hasArray s then s\<lparr>pNextStorage := Some new_second_level\<rparr> else s)"

lemma insert_storage_props:
  assumes "map_inv m"
  obtains n where "pNextStorage (insert_storage (m_storage m)) = Some n" and "next_ok n"
    and "pMapStorage n \<noteq> Some []"
    and "rest_entries (insert_storage (m_storage m)) = rest_entries (m_storage m)"
    and "Value (insert_storage (m_storage m)) = Value (m_storage m)"
proof (cases "pNextStorage (m_storage m)")
  case None
  then show ?thesis
    using that [of new_second_level]
    by (simp add: insert_storage_def hasArray_def rest_entries_def new_second_level_def next_ok_def)
next
  case (Some n)
  with assms show ?thesis
    using that [of n] by (simp add: insert_storage_def hasArray_def map_inv_def)
qed

text \<open>What an insertion into the rest of a non-empty map has to establish.\<close>

lemma map_inv_restI:
  assumes m': "m' = m\<lparr>m_storage := s'\<rparr>" and n: "pNextStorage s' = Some n" "next_ok n"
    "0 < ArraySize n" "pMapStorage n \<noteq> Some []"
    and nz: "fst (Value s') \<noteq> 0" "0 \<notin> fst ` set (rest_entries s')"
    and sorted: "sorted_keys (rest_entries s')"
    and less: "\<And>p. p \<in> set (rest_entries s') \<Longrightarrow>
      IsLessThan (m_optimizedMosaicId m) (fst (Value s')) (fst p)"
  shows "map_inv m'" and "entries m' = Value s' # rest_entries s'"
proof -
  show ent: "entries m' = Value s' # rest_entries s'"
    using m' nz by (simp add: entries_def empty_mosaics_def hasValue_def)
  have not_opt: "\<And>x. x \<in> set (map fst (rest_entries s')) \<Longrightarrow> x \<noteq> m_optimizedMosaicId m"
    using less IsLessThan_not_opt by fastforce
  have "sorted_wrt (IsLessThan (m_optimizedMosaicId m)) (map fst (rest_entries s'))"
    using sorted by (rule sorted_wrt_mono_rel [rotated]) (simp add: IsLessThan_less not_opt)
  then show "map_inv m'"
    using m' n nz less unfolding map_inv_def ent
    by (auto simp: empty_mosaics_def hasValue_def)
qed

lemma insert_front_spec:
  assumes inv: "map_inv m" "\<not> empty_mosaics m" and nz: "fst p \<noteq> 0"
    and n: "pNextStorage s = Some n" "next_ok n" "pMapStorage n \<noteq> Some []"
    and rest: "rest_entries s = rest_entries (m_storage m)"
    and front: "IsLessThan (m_optimizedMosaicId m) (fst p) (fst (Value (m_storage m)))"
    and m': "m' = m\<lparr>m_storage := (insertIntoArray s 0 (Value (m_storage m)))\<lparr>Value := p\<rparr>\<rparr>"
  shows "map_inv m' \<and> entries m' = p # entries m"
proof -
  let ?v = "Value (m_storage m)" and ?r = "rest_entries (m_storage m)"
  let ?s' = "(insertIntoArray s 0 ?v)\<lparr>Value := p\<rparr>"
  note tail = map_inv_not_emptyD [OF inv]
  have ent: "entries m = ?v # ?r" using inv by (simp add: entries_def)
  obtain n' where n': "insertIntoArray s 0 ?v = s\<lparr>pNextStorage := Some n'\<rparr>"
    "next_ok n'" "0 < ArraySize n'" "pMapStorage n' \<noteq> Some []"
    and r: "rest_entries (insertIntoArray s 0 ?v) = ?v # ?r"
    using insertIntoArray_rest [OF n(1,2) _ _ _ n(3), of 0 ?v] tail(1)
    by (auto simp: rest Array_Size_def)
  have r': "rest_entries ?s' = ?v # ?r" using r by (simp add: rest_entries_def)
  have less: "IsLessThan (m_optimizedMosaicId m) (fst (Value ?s')) (fst q)" if "q \<in> set (rest_entries ?s')" for q
    using that front tail(2) [of q] r' by (auto intro: IsLessThan_trans)
  have "fst ?v < fst q" if "q \<in> set ?r" for q
    using tail(2,3) [OF that] IsLessThan_not_opt [OF front] by (simp add: IsLessThan_less)
  then have sorted: "sorted_keys (rest_entries ?s')" using tail(1) r' by simp
  have next': "pNextStorage ?s' = Some n'" using n'(1) by simp
  have nz': "fst (Value ?s') \<noteq> 0" "0 \<notin> fst ` set (rest_entries ?s')"
    using nz inv ent r' by (auto simp: map_inv_def)
  show ?thesis
    using map_inv_restI [OF m' next' n'(2-4) nz' sorted less] r' ent by simp
qed

lemma insert_rest_spec:
  assumes inv: "map_inv m" "\<not> empty_mosaics m" and nz: "fst p \<noteq> 0"
    and n': "pNextStorage s' = Some n'" "next_ok n'" "0 < ArraySize n'" "pMapStorage n' \<noteq> Some []"
    and val: "Value s' = Value (m_storage m)"
    and above: "IsLessThan (m_optimizedMosaicId m) (fst (Value (m_storage m))) (fst p)"
    and set_r: "set (rest_entries s') = Set.insert p (set (rest_entries (m_storage m)))"
    and sorted: "sorted_keys (rest_entries s')"
    and m': "m' = m\<lparr>m_storage := s'\<rparr>"
  shows "map_inv m' \<and> set (entries m') = Set.insert p (set (entries m))"
proof -
  have ent: "entries m = Value (m_storage m) # rest_entries (m_storage m)"
    using inv by (simp add: entries_def)
  have nz': "fst (Value s') \<noteq> 0" "0 \<notin> fst ` set (rest_entries s')"
    using nz inv ent set_r val by (auto simp: map_inv_def)
  have less: "IsLessThan (m_optimizedMosaicId m) (fst (Value s')) (fst q)" if "q \<in> set (rest_entries s')" for q
    using that above map_inv_not_emptyD(2) [OF inv, of q] by (auto simp: set_r val)
  show ?thesis
    using map_inv_restI [OF m' n' nz' sorted less] ent set_r val by auto
qed

text \<open>Where the insertion-sort scan stops splits the rest of the map around the new id.\<close>

lemma scan_split:
  assumes n: "pNextStorage s = Some n" "next_ok n" and sorted: "sorted_keys (rest_entries s)"
    and new: "k \<notin> fst ` set (rest_entries s)"
    and i: "i = (case scan_array (ArrayStorage n) k [0..<ArraySize n] of Some i \<Rightarrow> i | None \<Rightarrow> ArraySize n)"
  shows "i \<le> ArraySize n" and "\<And>x. x \<in> set (take i (rest_entries s)) \<Longrightarrow> fst x < k"
    and "i < ArraySize n \<Longrightarrow> x \<in> set (drop i (rest_entries s)) \<Longrightarrow> k < fst x"
proof -
  let ?a = "take (ArraySize n) (ArrayStorage n)"
  have len: "length ?a = ArraySize n" using n by (simp add: next_ok_def)
  have rest: "rest_entries s = ?a @ map_part n" using n by (simp add: rest_entries_Some)
  have stop: "i \<le> ArraySize n" "\<And>j. j < i \<Longrightarrow> \<not> k < fst (?a ! j)"
    "i < ArraySize n \<Longrightarrow> k < fst (?a ! i)"
    using i by (auto simp: scan_array_find find_Some_iff find_None_iff split: option.splits)
  then show "i \<le> ArraySize n" by simp
  show "fst x < k" if "x \<in> set (take i (rest_entries s))" for x
  proof -
    from that stop(1) len obtain j where j: "j < i" "x = ?a ! j"
      by (auto simp: rest in_set_conv_nth)
    moreover have "x \<in> set (rest_entries s)" using that by (rule in_set_takeD)
    ultimately show ?thesis using stop(2) new by (metis image_eqI linorder_less_linear)
  qed
  show "k < fst x" if lt: "i < ArraySize n" and x: "x \<in> set (drop i (rest_entries s))"
  proof -
    have "drop i (rest_entries s) = ?a ! i # drop (Suc i) (rest_entries s)"
      using lt len rest by (simp add: Cons_nth_drop_Suc [symmetric] nth_append)
    moreover have "sorted_keys (drop i (rest_entries s))"
      using sorted sorted_wrt_drop [of "(<)" "map fst (rest_entries s)" i] by (simp add: drop_map)
    ultimately show ?thesis
      using x stop(3) [OF lt] by (auto intro: less_trans)
  qed
qed

lemma insertIntoMap_rest:
  assumes n: "pNextStorage s = Some n" "next_ok n" "ArraySize n = Array_Size"
    and sorted: "sorted_keys (rest_entries s)" and new: "fst p \<notin> fst ` set (rest_entries s)"
    and low: "\<And>x. x \<in> set (ArrayStorage n) \<Longrightarrow> fst x < fst p"
  obtains n' where "insertIntoMap s p = s\<lparr>pNextStorage := Some n'\<rparr>" and "next_ok n'"
    and "0 < ArraySize n'" and "pMapStorage n' \<noteq> Some []"
    and "set (rest_entries (insertIntoMap s p)) = Set.insert p (set (rest_entries s))"
    and "sorted_keys (rest_entries (insertIntoMap s p))"
proof -
  have rest: "rest_entries s = ArrayStorage n @ map_part n"
    using n by (simp add: rest_entries_Some next_ok_def)
  have rest': "rest_entries (insertIntoMap s p) = ArrayStorage n @ std_map_insert p (map_part n)"
    using n by (simp add: insertIntoMap_eq [OF n(1)] rest_entries_def next_ok_def)
  have "set (std_map_insert p (map_part n)) = Set.insert p (set (map_part n))"
    using new rest by (intro set_std_map_insert) auto
  then have set_r: "set (rest_entries (insertIntoMap s p)) = Set.insert p (set (rest_entries s))"
    using rest rest' by auto
  have "sorted_keys (rest_entries (insertIntoMap s p))"
    using sorted low unfolding rest rest'
    by (auto simp: sorted_wrt_append)
  then show ?thesis
    using that [OF insertIntoMap_eq [OF n(1), of p]] n set_r
    by (simp add: next_ok_def Array_Size_def)
qed

lemma insert_mosaic_unfold:
  assumes "map_inv m" and "fst p \<noteq> 0" and "fst p \<notin> fst ` set (entries m)" and "\<not> empty_mosaics m"
    and "s = insert_storage (m_storage m)" and "pNextStorage s = Some n"
  shows "insert_mosaic m p =
    (if IsLessThan (m_optimizedMosaicId m) (fst p) (fst (Value (m_storage m)))
     then Inr (m\<lparr>m_storage := (insertIntoArray s 0 (Value (m_storage m)))\<lparr>Value := p\<rparr>\<rparr>)
     else let arrayIndex = (case scan_array (ArrayStorage n) (fst p) [0..<ArraySize n] of
                              Some i \<Rightarrow> i | None \<Rightarrow> ArraySize n)
          in if arrayIndex < Array_Size
             then Inr (m\<lparr>m_storage := insertIntoArray s arrayIndex p\<rparr>)
             else Inr (m\<lparr>m_storage := insertIntoMap s p\<rparr>))"
proof -
  have "find_mosaic m (fst p) = None"
    using assms(3) by (simp add: find_mosaic_lookup [OF assms(1)] lookup_def map_of_eq_None_fst)
  moreover have "Value s = Value (m_storage m)" using assms(5) by (simp add: insert_storage_def)
  moreover have "arraySize s = ArraySize n" and "array_of s = ArrayStorage n"
    using assms(6) by (simp_all add: arraySize_def array_of_def)
  ultimately show ?thesis
    using assms(2,4) unfolding insert_mosaic_def Let_def insert_storage_def [symmetric] assms(5) [symmetric]
    by (simp cong: option.case_cong)
qed

lemma insert_mosaic_back:
  assumes inv: "map_inv m" "\<not> empty_mosaics m" and nz: "fst p \<noteq> 0" and new: "fst p \<notin> fst ` set (entries m)"
    and notless: "\<not> IsLessThan (m_optimizedMosaicId m) (fst p) (fst (Value (m_storage m)))"
  obtains m' where "insert_mosaic m p = Inr m'" and "map_inv m'"
    and "set (entries m') = Set.insert p (set (entries m))"
    and "m_optimizedMosaicId m' = m_optimizedMosaicId m"
proof -
  define s where "s = insert_storage (m_storage m)"
  obtain n where n: "pNextStorage s = Some n" "next_ok n" "pMapStorage n \<noteq> Some []"
    and rest: "rest_entries s = rest_entries (m_storage m)" and val: "Value s = Value (m_storage m)"
    using insert_storage_props [OF inv(1)] unfolding s_def by metis
  define i where "i = (case scan_array (ArrayStorage n) (fst p) [0..<ArraySize n] of
    Some i \<Rightarrow> i | None \<Rightarrow> ArraySize n)"
  have new': "fst p \<notin> fst ` set (rest_entries s)" and "fst p \<noteq> fst (Value (m_storage m))"
    using new inv(2) rest by (auto simp: entries_def)
  then have above: "IsLessThan (m_optimizedMosaicId m) (fst (Value (m_storage m))) (fst p)"
    using notless IsLessThan_total by blast
  have sorted: "sorted_keys (rest_entries s)" using map_inv_not_emptyD(1) [OF inv] rest by simp
  note scan = scan_split [OF n(1,2) sorted new' i_def]
  note eq = insert_mosaic_unfold [OF inv(1) nz new inv(2) s_def n(1), folded i_def]
  show ?thesis
  proof (cases "i < Array_Size")
    case True
    obtain n' where n': "insertIntoArray s i p = s\<lparr>pNextStorage := Some n'\<rparr>" "next_ok n'"
      "0 < ArraySize n'" "pMapStorage n' \<noteq> Some []"
      and r: "rest_entries (insertIntoArray s i p) = take i (rest_entries s) @ p # drop i (rest_entries s)"
      using insertIntoArray_rest [OF n(1,2) scan(1) True sorted n(3)] by metis
    have "drop i (rest_entries s) = []" if "\<not> i < ArraySize n"
      using that scan(1) True n by (auto simp: rest_entries_def next_ok_def)
    then have "fst p < fst x" if "x \<in> set (drop i (rest_entries s))" for x
      using that scan(3) [of x] by (cases "i < ArraySize n") auto
    then have srt: "sorted_keys (rest_entries (insertIntoArray s i p))"
      unfolding r using scan(2) by (intro sorted_keys_insert_at [OF sorted]) blast+
    have "set (rest_entries (insertIntoArray s i p)) = Set.insert p (set (rest_entries (m_storage m)))"
      using set_append [of "take i (rest_entries s)" "drop i (rest_entries s)"]
      unfolding r rest [symmetric] by auto
    then show ?thesis
      using insert_rest_spec [OF inv nz _ n'(2-4) _ above _ srt refl] n'(1) val eq notless True that
      by (simp add: Let_def)
  next
    case False
    then have full: "ArraySize n = Array_Size" "i = ArraySize n"
      using scan(1) n(2) by (auto simp: next_ok_def)
    have low: "fst x < fst p" if "x \<in> set (ArrayStorage n)" for x
      using that scan(2) n full by (simp add: rest_entries_def next_ok_def)
    obtain n' where n': "insertIntoMap s p = s\<lparr>pNextStorage := Some n'\<rparr>" "next_ok n'"
      "0 < ArraySize n'" "pMapStorage n' \<noteq> Some []"
      and r: "set (rest_entries (insertIntoMap s p)) = Set.insert p (set (rest_entries s))"
        "sorted_keys (rest_entries (insertIntoMap s p))"
      using insertIntoMap_rest [OF n(1,2) full(1) sorted new' low] by metis
    show ?thesis
      using insert_rest_spec [OF inv nz _ n'(2-4) _ above _ r(2) refl] r(1) rest n'(1) val eq notless False that
      by (simp add: Let_def)
  qed
qed

lemma insert_mosaic_spec:
  assumes inv: "map_inv m" and nz: "fst p \<noteq> 0" and new: "fst p \<notin> fst ` set (entries m)"
  obtains m' where "insert_mosaic m p = Inr m'" and "map_inv m'"
    and "set (entries m') = Set.insert p (set (entries m))"
    and "m_optimizedMosaicId m' = m_optimizedMosaicId m"
proof (cases "empty_mosaics m")
  case True
  then have next_None: "pNextStorage (m_storage m) = None"
    using inv by (auto simp: map_inv_def split: option.splits)
  have "find_mosaic m (fst p) = None"
    using new by (simp add: find_mosaic_lookup [OF inv] lookup_def map_of_eq_None_fst)
  moreover have "entries (m\<lparr>m_storage := (m_storage m)\<lparr>Value := p\<rparr>\<rparr>) = [p]"
    using nz next_None by (simp add: entries_def empty_mosaics_def hasValue_def rest_entries_def)
  moreover have "entries m = []" using True by (simp add: entries_def)
  ultimately show ?thesis
    using True nz next_None that by (simp add: insert_mosaic_def map_inv_def)
next
  case False
  obtain n where n: "pNextStorage (insert_storage (m_storage m)) = Some n" "next_ok n" "pMapStorage n \<noteq> Some []"
    "rest_entries (insert_storage (m_storage m)) = rest_entries (m_storage m)"
    using insert_storage_props [OF inv] by metis
  show ?thesis
  proof (cases "IsLessThan (m_optimizedMosaicId m) (fst p) (fst (Value (m_storage m)))")
    case True
    show ?thesis
      using insert_front_spec [OF inv False nz n True refl]
        insert_mosaic_unfold [OF inv nz new False refl n(1)] True that
      by simp
  next
    case not_less: False
    show ?thesis
      using insert_mosaic_back [OF inv False nz new not_less] that by metis
  qed
qed

section \<open>Removal\<close>

lemma compact_spec:
  assumes n: "pNextStorage s = Some n" "length (ArrayStorage n) = Array_Size" "ArraySize n \<le> Array_Size"
  shows "rest_entries (compact s) = rest_entries s" and "Value (compact s) = Value s"
    and "pNextStorage (compact s) = Some n' \<Longrightarrow>
      next_ok n' \<and> 0 < ArraySize n' \<and> pMapStorage n' \<noteq> Some []"
    and "pNextStorage (compact s) = None \<Longrightarrow> rest_entries s = []"
proof -
  let ?c = "compact_loop (ArrayStorage n) (ArraySize n) (map_part n)"
  obtain a k mp where c: "?c = (a, k, mp)" by (cases ?c) auto
  note loop = compact_loop_spec [OF c n(3,2)]
  let ?n = "if pMapStorage n = None then n
    else n\<lparr>ArrayStorage := a, ArraySize := k, pMapStorage := (if mp = [] then None else Some mp)\<rparr>"
  have eq: "compact s = s\<lparr>pNextStorage := (if ArraySize ?n = 0 then None else Some ?n)\<rparr>"
    using n(1) c
    by (auto simp: compact_def hasArray_def hasMap_def array_of_def arraySize_def mapStorage_def
      map_part_def set_next_def Let_def)
  have rest: "rest_entries (s\<lparr>pNextStorage := Some ?n\<rparr>) = rest_entries s"
    using loop(1) n(1) by (auto simp: rest_entries_def map_part_def)
  have empty: "rest_entries s = []" if "ArraySize ?n = 0"
    using that loop n(1) by (auto simp: rest_entries_def map_part_def Array_Size_def split: if_splits)
  show "rest_entries (compact s) = rest_entries s"
    using rest empty by (auto simp: eq rest_entries_def)
  show "Value (compact s) = Value s" by (simp add: eq)
  show "next_ok n' \<and> 0 < ArraySize n' \<and> pMapStorage n' \<noteq> Some []" if "pNextStorage (compact s) = Some n'"
    using that loop n by (auto simp: eq next_ok_def split: if_splits)
  show "rest_entries s = []" if "pNextStorage (compact s) = None"
    using that empty by (auto simp: eq split: if_splits)
qed

lemma eraseFromArray_rest:
  assumes n: "pNextStorage s = Some n" "next_ok n" and i: "i < ArraySize n"
  shows "rest_entries (eraseFromArray s i) = take i (rest_entries s) @ drop (Suc i) (rest_entries s)"
    and "pNextStorage (eraseFromArray s i) =
      Some (n\<lparr>ArrayStorage := shift_left (ArrayStorage n) i (ArraySize n), ArraySize := ArraySize n - 1\<rparr>)"
    and "Value (eraseFromArray s i) = Value s"
proof -
  have "take (ArraySize n - 1) (shift_left (ArrayStorage n) i (ArraySize n)) =
      take i (take (ArraySize n) (ArrayStorage n)) @ drop (Suc i) (take (ArraySize n) (ArrayStorage n))"
    using take_shift_left [of "ArraySize n" "ArrayStorage n" i] n i by (simp add: next_ok_def min_def)
  then show "rest_entries (eraseFromArray s i) = take i (rest_entries s) @ drop (Suc i) (rest_entries s)"
    using n i by (simp add: eraseFromArray_def set_next_def rest_entries_def next_ok_def)
qed (use n in \<open>simp_all add: eraseFromArray_def set_next_def\<close>)

text \<open>
  The entries before the final \<^verbatim>\<open>compact\<close> are those of the map without the erased id, in the
  same order.
\<close>

lemma map_inv_filterI:
  assumes inv: "map_inv m" and m': "m' = m\<lparr>m_storage := compact s\<rparr>"
    and n: "pNextStorage s = Some n" "length (ArrayStorage n) = Array_Size" "ArraySize n \<le> Array_Size"
    and ent: "Value s # rest_entries s = filter P (entries m)"
  shows "map_inv m'" and "entries m' = filter P (entries m)"
proof -
  note comp = compact_spec [OF n]
  have sub: "set (filter P (entries m)) \<subseteq> set (entries m)" by auto
  have nz: "fst (Value s) \<noteq> 0" using inv sub unfolding ent [symmetric] by (auto simp: map_inv_def)
  then have not_empty: "\<not> empty_mosaics m'"
    using m' comp(2) by (simp add: empty_mosaics_def hasValue_def)
  then show ent': "entries m' = filter P (entries m)"
    using m' comp(1,2) ent by (simp add: entries_def)
  have "sorted_wrt (IsLessThan (m_optimizedMosaicId m)) (map fst (filter P (entries m)))"
    using inv by (simp add: map_inv_def sorted_wrt_map sorted_wrt_filter)
  then show "map_inv m'"
    using inv not_empty comp(3) m' unfolding map_inv_def ent'
    by (auto split: option.splits)
qed

lemma erase_value:
  assumes inv: "map_inv m" "\<not> empty_mosaics m" and loc: "find_location m mid = Some Loc_Value"
    and mid: "mid = fst (Value (m_storage m))"
  shows "map_inv (erase_mosaic m mid) \<and>
    entries (erase_mosaic m mid) = filter (\<lambda>q. fst q \<noteq> mid) (entries m)"
proof -
  let ?s = "m_storage m"
  have flt: "filter (\<lambda>q. fst q \<noteq> mid) (entries m) = rest_entries ?s"
    using filter_key_nth [OF map_inv_distinct [OF inv(1)], of 0] inv(2) mid by (simp add: entries_def)
  show ?thesis
  proof (cases "pNextStorage ?s")
    case None
    then have "erase_mosaic m mid = m\<lparr>m_storage := ?s\<lparr>Value := (0, 0)\<rparr>\<rparr>"
      using loc by (simp add: erase_mosaic_def hasArray_def compact_def)
    with None flt show ?thesis
      by (simp add: map_inv_def entries_def empty_mosaics_def hasValue_def rest_entries_def)
  next
    case (Some n)
    then have n: "next_ok n" "0 < ArraySize n" using inv by (auto simp: map_inv_def)
    let ?s' = "eraseFromArray (?s\<lparr>Value := ArrayStorage n ! 0\<rparr>) 0"
    have eq: "erase_mosaic m mid = m\<lparr>m_storage := compact ?s'\<rparr>"
      using loc Some by (simp add: erase_mosaic_def hasArray_def array_of_def)
    have er: "rest_entries ?s' = drop (Suc 0) (rest_entries ?s)" "Value ?s' = ArrayStorage n ! 0"
      "pNextStorage ?s' = Some (n\<lparr>ArrayStorage := shift_left (ArrayStorage n) 0 (ArraySize n),
        ArraySize := ArraySize n - 1\<rparr>)"
      using eraseFromArray_rest [of "?s\<lparr>Value := ArrayStorage n ! 0\<rparr>" n 0] Some n
      by (simp_all add: rest_entries_def)
    have "Value ?s' # rest_entries ?s' = rest_entries ?s"
      using er n Some
      by (cases "ArrayStorage n"; cases "ArraySize n") (auto simp: rest_entries_def next_ok_def Array_Size_def)
    then show ?thesis
      using map_inv_filterI [OF inv(1) eq er(3), of "\<lambda>q. fst q \<noteq> mid"] flt n by (auto simp: next_ok_def)
  qed
qed

lemma erase_array:
  assumes inv: "map_inv m" "\<not> empty_mosaics m" and loc: "find_location m mid = Some (Loc_Array i)"
  shows "map_inv (erase_mosaic m mid) \<and>
    entries (erase_mosaic m mid) = filter (\<lambda>q. fst q \<noteq> mid) (entries m)"
proof -
  let ?s = "m_storage m"
  have ent: "entries m = Value ?s # rest_entries ?s" using inv(2) by (simp add: entries_def)
  have i: "i < arraySize ?s" "fst (array_of ?s ! i) = mid" and hn: "hasArray ?s" and neq: "mid \<noteq> fst (Value ?s)"
    using loc
    by (auto simp: find_location_def Let_def split: if_splits option.splits dest!: find_index_Some)
  from hn inv obtain n where next_n: "pNextStorage ?s = Some n" and n: "next_ok n" "0 < ArraySize n"
    by (auto simp: hasArray_def map_inv_def)
  have i': "i < ArraySize n" using i next_n by (simp add: arraySize_def)
  note er = eraseFromArray_rest [OF next_n n(1) i']
  have eq: "erase_mosaic m mid = m\<lparr>m_storage := compact (eraseFromArray ?s i)\<rparr>"
    using loc by (simp add: erase_mosaic_def)
  have len: "i < length (rest_entries ?s)" using i' next_n n by (simp add: rest_entries_def next_ok_def)
  have "rest_entries ?s ! i = array_of ?s ! i"
    using i' next_n n by (simp add: rest_entries_def next_ok_def nth_append array_of_def)
  then have "filter (\<lambda>q. fst q \<noteq> mid) (rest_entries ?s) = rest_entries (eraseFromArray ?s i)"
    using filter_key_nth [of "rest_entries ?s" i] map_inv_distinct [OF inv(1)] len i(2) er(1) ent by simp
  then have "Value (eraseFromArray ?s i) # rest_entries (eraseFromArray ?s i) =
      filter (\<lambda>q. fst q \<noteq> mid) (entries m)"
    using ent neq er(3) by simp
  then show ?thesis
    using map_inv_filterI [OF inv(1) eq er(2)] n by (auto simp: next_ok_def)
qed

lemma erase_map:
  assumes inv: "map_inv m" "\<not> empty_mosaics m" and loc: "find_location m mid = Some Loc_Map"
  shows "map_inv (erase_mosaic m mid) \<and>
    entries (erase_mosaic m mid) = filter (\<lambda>q. fst q \<noteq> mid) (entries m)"
proof -
  let ?s = "m_storage m"
  have hm: "hasMap ?s" and neq: "mid \<noteq> fst (Value ?s)"
    and arr: "\<forall>i < arraySize ?s. mid \<noteq> fst (array_of ?s ! i)"
    using loc
    by (auto simp: find_location_def Let_def hasMap_def hasArray_def find_index_None split: if_splits option.splits)
  from hm obtain n mp where next_n: "pNextStorage ?s = Some n" "pMapStorage n = Some mp"
    by (auto simp: hasMap_def split: option.splits)
  with inv have n: "next_ok n" "0 < ArraySize n" by (auto simp: map_inv_def)
  let ?s' = "set_next (\<lambda>n. n\<lparr>pMapStorage := Some (std_map_erase mid (the (pMapStorage n)))\<rparr>) ?s"
  have eq: "erase_mosaic m mid = m\<lparr>m_storage := compact ?s'\<rparr>"
    using loc by (simp add: erase_mosaic_def)
  have next': "pNextStorage ?s' = Some (n\<lparr>pMapStorage := Some (std_map_erase mid mp)\<rparr>)"
    using next_n by (simp add: set_next_def)
  have "\<forall>q \<in> set (take (ArraySize n) (ArrayStorage n)). fst q \<noteq> mid"
    using arr next_n n by (force simp: arraySize_def array_of_def next_ok_def in_set_conv_nth)
  then have "Value ?s' # rest_entries ?s' = filter (\<lambda>q. fst q \<noteq> mid) (entries m)"
    using inv(2) neq next_n by (simp add: entries_def set_next_def rest_entries_def std_map_erase_def)
  then show ?thesis
    using map_inv_filterI [OF inv(1) eq next'] n by (auto simp: next_ok_def)
qed

lemma erase_mosaic_spec:
  assumes inv: "map_inv m"
  shows "map_inv (erase_mosaic m mid) \<and>
    entries (erase_mosaic m mid) = filter (\<lambda>q. fst q \<noteq> mid) (entries m)"
proof (cases "find_location m mid")
  case None
  with find_location_None [OF inv None] inv show ?thesis
    by (auto simp: erase_mosaic_def image_iff intro!: filter_True [symmetric])
next
  case (Some loc)
  then have ne: "\<not> empty_mosaics m" by (auto simp: find_location_def split: if_splits)
  show ?thesis
  proof (cases loc)
    case Loc_Value
    with Some have "mid = fst (Value (m_storage m))"
      by (auto simp: find_location_def Let_def split: if_splits option.splits)
    with Some Loc_Value show ?thesis using erase_value [OF inv ne] by simp
  qed (use Some erase_array [OF inv ne] erase_map [OF inv ne] in auto)
qed

lemma optimizedMosaicId_erase [simp]:
  "m_optimizedMosaicId (erase_mosaic m mid) = m_optimizedMosaicId m"
  by (auto simp: erase_mosaic_def Let_def split: option.splits)

section \<open>Assignment, optimization and iteration\<close>

lemma lookup_eqI:
  assumes "map_inv m" and "map_inv m'" and "set (entries m') = S"
    and "\<And>k a. (k, a) \<in> S \<longleftrightarrow> f k = Some a"
  shows "lookup m' = f"
proof
  fix k
  show "lookup m' k = f k"
    by (rule option_eqI) (simp add: lookup_Some_iff [OF assms(2)] assms(3,4))
qed

lemma lookup_insert_mosaic:
  assumes "map_inv m" and "fst p \<noteq> 0" and "lookup m (fst p) = None"
  obtains m' where "insert_mosaic m p = Inr m'" and "map_inv m'"
    and "lookup m' = (lookup m)(fst p \<mapsto> snd p)"
    and "m_optimizedMosaicId m' = m_optimizedMosaicId m"
proof -
  have new: "fst p \<notin> fst ` set (entries m)"
    using assms(3) by (simp add: lookup_def map_of_eq_None_fst)
  obtain m' where m': "insert_mosaic m p = Inr m'" "map_inv m'"
    "set (entries m') = Set.insert p (set (entries m))" "m_optimizedMosaicId m' = m_optimizedMosaicId m"
    using insert_mosaic_spec [OF assms(1,2) new] by metis
  have "(k, a) \<in> Set.insert p (set (entries m)) \<longleftrightarrow> ((lookup m)(fst p \<mapsto> snd p)) k = Some a" for k a
    using new lookup_Some_iff [OF assms(1), of k a] by (cases p) (auto simp: image_iff)
  then have "lookup m' = (lookup m)(fst p \<mapsto> snd p)"
    by (rule lookup_eqI [OF assms(1) m'(2,3)])
  with m' that show ?thesis by blast
qed

lemma insert_mosaic_errors:
  assumes "map_inv m"
  shows "fst p = 0 \<Longrightarrow> insert_mosaic m p = Inl (InvalidArgument ''cannot insert reserved mosaic'')"
    and "fst p \<noteq> 0 \<Longrightarrow> lookup m (fst p) = Some a \<Longrightarrow>
      insert_mosaic m p = Inl (InvalidArgument ''cannot insert mosaic already in map'')"
  using find_mosaic_lookup [OF assms] by (auto simp: insert_mosaic_def)

lemma lookup_erase_mosaic:
  assumes "map_inv m"
  shows "map_inv (erase_mosaic m mid)" and "lookup (erase_mosaic m mid) = (lookup m)(mid := None)"
proof -
  note er = erase_mosaic_spec [OF assms, of mid]
  then show "map_inv (erase_mosaic m mid)" by simp
  from er have "lookup (erase_mosaic m mid) = map_of (std_map_erase mid (entries m))"
    by (simp add: lookup_def std_map_erase_def)
  then show "lookup (erase_mosaic m mid) = (lookup m)(mid := None)"
    by (simp add: map_of_std_map_erase lookup_def)
qed

text \<open>Overwriting the amount of a stored mosaic changes neither the ids nor their places.\<close>

definition put_amount :: "mosaic_id \<Rightarrow> amount \<Rightarrow> mosaic \<Rightarrow> mosaic" where
  "put_amount mid a q = (if fst q = mid then (mid, a) else q)"

lemma fst_put_amount [simp]: "fst (put_amount mid a q) = fst q"
  by (simp add: put_amount_def)

lemma map_put_amount_other: "mid \<notin> fst ` set xs \<Longrightarrow> map (put_amount mid a) xs = xs"
  by (induction xs) (auto simp: put_amount_def)

lemma list_update_put_amount:
  assumes "distinct (map fst xs)" and "i < length xs" and "fst (xs ! i) = mid"
  shows "xs[i := (mid, a)] = map (put_amount mid a) xs"
  using assms
  by (intro nth_equalityI) (auto simp: nth_list_update put_amount_def distinct_conv_nth)

lemma std_map_put_amount:
  "sorted_keys xs \<Longrightarrow> mid \<in> fst ` set xs \<Longrightarrow> std_map_put mid a xs = map (put_amount mid a) xs"
proof (induction xs)
  case (Cons q xs)
  then show ?case
  proof (cases "fst q = mid")
    case True
    with Cons.prems have "mid \<notin> fst ` set xs" by auto
    with True show ?thesis by (simp add: map_put_amount_other) (simp add: put_amount_def)
  next
    case False
    with Cons show ?thesis by (auto simp: put_amount_def)
  qed
qed simp

lemma map_of_put_amount:
  "map_of (map (put_amount mid a) xs) = (if mid \<in> fst ` set xs then (map_of xs)(mid \<mapsto> a) else map_of xs)"
  by (induction xs) (auto simp: fun_eq_iff put_amount_def)

lemma map_inv_assignI:
  assumes inv: "map_inv m" and m': "m' = m\<lparr>m_storage := s'\<rparr>"
    and ent: "entries m' = map (put_amount mid a) (entries m)" and ne: "\<not> empty_mosaics m'"
    and n: "\<And>n'. pNextStorage s' = Some n' \<Longrightarrow> next_ok n' \<and> 0 < ArraySize n' \<and> pMapStorage n' \<noteq> Some []"
  shows "map_inv m'"
  using inv m' ne n unfolding map_inv_def ent
  by (auto simp: comp_def image_image split: option.splits)

lemma assign_value:
  assumes inv: "map_inv m" "\<not> empty_mosaics m" and loc: "find_location m mid = Some Loc_Value"
    and mid: "mid = fst (Value (m_storage m))"
  shows "map_inv (assign_mosaic m mid a) \<and>
    entries (assign_mosaic m mid a) = map (put_amount mid a) (entries m)"
proof -
  let ?s' = "(m_storage m)\<lparr>Value := (mid, a)\<rparr>"
  have eq: "assign_mosaic m mid a = m\<lparr>m_storage := ?s'\<rparr>"
    using loc by (simp add: assign_mosaic_def)
  have ne: "\<not> empty_mosaics (m\<lparr>m_storage := ?s'\<rparr>)"
    using inv(2) mid by (simp add: empty_mosaics_def hasValue_def)
  have "mid \<notin> fst ` set (rest_entries (m_storage m))"
    using map_inv_distinct [OF inv(1)] inv(2) mid by (simp add: entries_def)
  then have ent: "entries (m\<lparr>m_storage := ?s'\<rparr>) = map (put_amount mid a) (entries m)"
    using ne inv(2) mid map_put_amount_other [of mid "rest_entries (m_storage m)" a]
    by (simp add: entries_def rest_entries_def put_amount_def [of _ _ "Value _"])
  have n: "next_ok n' \<and> 0 < ArraySize n' \<and> pMapStorage n' \<noteq> Some []" if "pNextStorage ?s' = Some n'" for n'
    using inv(1) that by (simp add: map_inv_def)
  show ?thesis
    using map_inv_assignI [OF inv(1) refl ent ne n] ent eq by simp
qed

lemma assign_array:
  assumes inv: "map_inv m" "\<not> empty_mosaics m" and loc: "find_location m mid = Some (Loc_Array i)"
  shows "map_inv (assign_mosaic m mid a) \<and>
    entries (assign_mosaic m mid a) = map (put_amount mid a) (entries m)"
proof -
  let ?s = "m_storage m"
  have i: "i < arraySize ?s" "fst (array_of ?s ! i) = mid" and hn: "hasArray ?s" and neq: "mid \<noteq> fst (Value ?s)"
    using loc
    by (auto simp: find_location_def Let_def split: if_splits option.splits dest!: find_index_Some)
  from hn inv obtain n where next_n: "pNextStorage ?s = Some n"
    and n: "next_ok n" "0 < ArraySize n" "pMapStorage n \<noteq> Some []"
    by (auto simp: hasArray_def map_inv_def)
  let ?s' = "?s\<lparr>pNextStorage := Some (n\<lparr>ArrayStorage := (ArrayStorage n)[i := (mid, a)]\<rparr>)\<rparr>"
  have eq: "assign_mosaic m mid a = m\<lparr>m_storage := ?s'\<rparr>"
    using loc next_n by (simp add: assign_mosaic_def set_next_def)
  have i': "i < ArraySize n" "fst (rest_entries ?s ! i) = mid" "i < length (rest_entries ?s)"
    using i next_n n by (simp_all add: arraySize_def array_of_def rest_entries_def next_ok_def nth_append)
  have "rest_entries ?s' = (rest_entries ?s)[i := (mid, a)]"
    using next_n n i' by (simp add: rest_entries_def next_ok_def list_update_append take_update_swap)
  also have "\<dots> = map (put_amount mid a) (rest_entries ?s)"
    using map_inv_distinct [OF inv(1)] inv(2) i' by (intro list_update_put_amount) (simp_all add: entries_def)
  finally have rest: "rest_entries ?s' = map (put_amount mid a) (rest_entries ?s)" .
  have ne: "\<not> empty_mosaics (m\<lparr>m_storage := ?s'\<rparr>)"
    using inv(2) by (simp add: empty_mosaics_def hasValue_def)
  then have "entries (m\<lparr>m_storage := ?s'\<rparr>) = map (put_amount mid a) (entries m)"
    using rest inv(2) neq by (simp add: entries_def put_amount_def [of _ _ "Value _"])
  with map_inv_assignI [OF inv(1) refl this ne] n eq show ?thesis
    by (simp add: next_ok_def)
qed

lemma assign_map:
  assumes inv: "map_inv m" "\<not> empty_mosaics m" and loc: "find_location m mid = Some Loc_Map"
  shows "map_inv (assign_mosaic m mid a) \<and>
    entries (assign_mosaic m mid a) = map (put_amount mid a) (entries m)"
proof -
  let ?s = "m_storage m"
  have hm: "hasMap ?s" and neq: "mid \<noteq> fst (Value ?s)" and mp: "map_of (mapStorage ?s) mid \<noteq> None"
    using loc by (auto simp: find_location_def Let_def split: if_splits option.splits)
  from hm obtain n xs where next_n: "pNextStorage ?s = Some n" "pMapStorage n = Some xs"
    by (auto simp: hasMap_def split: option.splits)
  with inv have n: "next_ok n" "0 < ArraySize n" "xs \<noteq> []" by (auto simp: map_inv_def)
  have rest: "rest_entries ?s = take (ArraySize n) (ArrayStorage n) @ xs"
    using next_n by (simp add: rest_entries_def)
  have in_xs: "mid \<in> fst ` set xs"
    using mp next_n by (auto simp: mapStorage_def map_of_eq_None_fst)
  have notin: "mid \<notin> fst ` set (take (ArraySize n) (ArrayStorage n))"
    using map_inv_distinct [OF inv(1)] inv(2) in_xs by (auto simp: entries_def rest)
  have "sorted_keys xs" using map_inv_not_emptyD(1) [OF inv] by (simp add: rest sorted_wrt_append)
  then have put: "std_map_put mid a xs = map (put_amount mid a) xs"
    using in_xs by (rule std_map_put_amount)
  let ?s' = "?s\<lparr>pNextStorage := Some (n\<lparr>pMapStorage := Some (std_map_put mid a xs)\<rparr>)\<rparr>"
  have eq: "assign_mosaic m mid a = m\<lparr>m_storage := ?s'\<rparr>"
    using loc next_n by (simp add: assign_mosaic_def set_next_def)
  have rest': "rest_entries ?s' = map (put_amount mid a) (rest_entries ?s)"
    using map_put_amount_other [OF notin, of a] unfolding rest put by (simp add: rest_entries_def)
  have ne: "\<not> empty_mosaics (m\<lparr>m_storage := ?s'\<rparr>)"
    using inv(2) by (simp add: empty_mosaics_def hasValue_def)
  then have "entries (m\<lparr>m_storage := ?s'\<rparr>) = map (put_amount mid a) (entries m)"
    using rest' inv(2) neq by (simp add: entries_def put_amount_def [of _ _ "Value _"])
  with map_inv_assignI [OF inv(1) refl this ne] n next_n eq show ?thesis
    by (simp add: next_ok_def put)
qed

lemma assign_mosaic_entries:
  assumes inv: "map_inv m"
  shows "map_inv (assign_mosaic m mid a) \<and> entries (assign_mosaic m mid a) = map (put_amount mid a) (entries m)"
proof (cases "find_location m mid")
  case None
  with find_location_None [OF inv None] inv show ?thesis
    by (simp add: assign_mosaic_def map_put_amount_other)
next
  case (Some loc)
  then have ne: "\<not> empty_mosaics m" by (auto simp: find_location_def split: if_splits)
  show ?thesis
  proof (cases loc)
    case Loc_Value
    with Some have "mid = fst (Value (m_storage m))"
      by (auto simp: find_location_def Let_def split: if_splits option.splits)
    with Some Loc_Value show ?thesis using assign_value [OF inv ne] by simp
  qed (use Some assign_array [OF inv ne] assign_map [OF inv ne] in auto)
qed

lemma lookup_assign_mosaic:
  assumes "map_inv m" and "mid \<in> dom (lookup m)"
  shows "map_inv (assign_mosaic m mid a)" and "lookup (assign_mosaic m mid a) = (lookup m)(mid \<mapsto> a)"
  using assign_mosaic_entries [OF assms(1), of mid a] assms(2)
  by (simp_all add: lookup_def map_of_put_amount dom_map_of_conv_image_fst)

lemma optimizedMosaicId_assign [simp]:
  "m_optimizedMosaicId (assign_mosaic m mid a) = m_optimizedMosaicId m"
  by (auto simp: assign_mosaic_def split: option.splits mosaic_location.splits)

text \<open>
  \<^verbatim>\<open>optimize\<close> re-inserts the mosaic under the new order. Before the erase the entries need not
  be sorted by the new order, so the argument runs over the map that no longer holds the id.
\<close>

lemma map_inv_set_optimized:
  assumes "map_inv m" and "m_optimizedMosaicId m = 0" and "mid \<notin> dom (lookup m)"
  shows "map_inv (m\<lparr>m_optimizedMosaicId := mid\<rparr>)"
    and "lookup (m\<lparr>m_optimizedMosaicId := mid\<rparr>) = lookup m"
proof -
  have ent: "entries (m\<lparr>m_optimizedMosaicId := mid\<rparr>) = entries m"
    by (simp add: entries_def empty_mosaics_def)
  then show "lookup (m\<lparr>m_optimizedMosaicId := mid\<rparr>) = lookup m" by (simp add: lookup_def)
  have nz: "x \<noteq> 0" "x \<noteq> mid" if "x \<in> set (map fst (entries m))" for x
    using that assms by (auto simp: map_inv_def dom_lookup image_iff)
  have "sorted_wrt (IsLessThan 0) (map fst (entries m))"
    using assms(1,2) by (simp add: map_inv_def)
  then have "sorted_wrt (IsLessThan mid) (map fst (entries m))"
    by (rule sorted_wrt_mono_rel [rotated]) (use nz in \<open>simp add: IsLessThan_less\<close>)
  then show "map_inv (m\<lparr>m_optimizedMosaicId := mid\<rparr>)"
    using assms(1) unfolding map_inv_def ent by (auto simp: empty_mosaics_def split: option.splits)
qed

lemma erase_set_optimized:
  "erase_mosaic (m\<lparr>m_optimizedMosaicId := opt\<rparr>) mid = (erase_mosaic m mid)\<lparr>m_optimizedMosaicId := opt\<rparr>"
  by (auto simp: erase_mosaic_def find_location_def empty_mosaics_def Let_def split: option.splits)

lemma find_set_optimized: "find_mosaic (m\<lparr>m_optimizedMosaicId := opt\<rparr>) mid = find_mosaic m mid"
  by (simp add: find_mosaic_def find_location_def empty_mosaics_def)

lemma optimize_mosaic_spec:
  assumes inv: "map_inv m" and opt: "m_optimizedMosaicId m = 0 \<or> m_optimizedMosaicId m = mid"
  obtains m' where "optimize_mosaic m mid = Inr m'" and "map_inv m'" and "lookup m' = lookup m"
    and "m_optimizedMosaicId m' = mid"
proof (cases "m_optimizedMosaicId m = mid")
  case True
  with inv that show ?thesis by (auto simp: optimize_mosaic_def)
next
  case False
  with opt have opt0: "m_optimizedMosaicId m = 0" by simp
  show ?thesis
  proof (cases "lookup m mid")
    case None
    then show ?thesis
      using that map_inv_set_optimized [OF inv opt0, of mid] False opt0
      by (auto simp: optimize_mosaic_def find_set_optimized find_mosaic_lookup [OF inv])
  next
    case (Some a)
    let ?e = "erase_mosaic (m\<lparr>m_optimizedMosaicId := mid\<rparr>) mid"
    note er = lookup_erase_mosaic [OF inv, of mid]
    have e: "map_inv ?e" "lookup ?e = (lookup m)(mid := None)" "m_optimizedMosaicId ?e = mid"
      using map_inv_set_optimized [OF er(1), of mid] er opt0 by (auto simp: erase_set_optimized)
    have "mid \<noteq> 0"
      using inv domI [of "lookup m" mid a, OF Some] by (auto simp: map_inv_def dom_lookup)
    then obtain m' where "insert_mosaic ?e (mid, a) = Inr m'" "map_inv m'"
      "lookup m' = (lookup ?e)(mid \<mapsto> a)" "m_optimizedMosaicId m' = mid"
      using lookup_insert_mosaic [OF e(1), of "(mid, a)"] e by auto
    moreover have "(lookup ?e)(mid \<mapsto> a) = lookup m"
      using e(2) Some by (auto simp: fun_eq_iff)
    ultimately show ?thesis
      using that False opt0 Some
      by (auto simp: optimize_mosaic_def find_set_optimized find_mosaic_lookup [OF inv] Let_def)
  qed
qed

lemma optimize_mosaic_error:
  "m_optimizedMosaicId m \<noteq> 0 \<Longrightarrow> m_optimizedMosaicId m \<noteq> mid \<Longrightarrow>
   optimize_mosaic m mid = Inl (InvalidArgument ''cannot reoptimize map'')"
  by (simp add: optimize_mosaic_def)

subsection \<open>Iteration visits the entries in order\<close>

lemmas iter_simps = advance_iter_def isEnd_def setValueMosaic_def setArrayMosaic_def setMapMosaic_def
  setEnd_def Let_def

declare iterate_mosaics.simps(2) [simp del]

lemma iterate_step:
  "\<not> isEnd it \<Longrightarrow> it_current it = Some p \<Longrightarrow>
   iterate_mosaics (Suc f) s it = map_option ((#) p) (iterate_mosaics f s (advance_iter s it))"
  by (simp add: iterate_mosaics.simps(2) current_mosaic_def increment_iter_def)

lemma iterate_end: "isEnd it \<Longrightarrow> 0 < f \<Longrightarrow> iterate_mosaics f s it = Some []"
  by (cases f) (simp_all add: iterate_mosaics.simps(2))

lemma iterate_map:
  "it_stage it = Stage_Map \<Longrightarrow> it_mapIterator it = p # mp \<Longrightarrow> it_current it = Some p \<Longrightarrow>
   length mp + 1 < f \<Longrightarrow> iterate_mosaics f s it = Some (p # mp)"
proof (induction mp arbitrary: f it p)
  case Nil
  then obtain g where f: "f = Suc g" and g: "0 < g" by (cases f) auto
  have "isEnd (advance_iter s it)" using Nil by (simp add: iter_simps)
  with Nil f g show ?case by (simp add: iterate_step iterate_end isEnd_def)
next
  case (Cons q mp)
  then obtain g where f: "f = Suc g" and g: "length mp + 1 < g" by (cases f) auto
  have "iterate_mosaics g s (advance_iter s it) = Some (q # mp)"
    using Cons.prems g by (intro Cons.IH) (simp_all add: iter_simps)
  with Cons.prems f show ?case by (simp add: iterate_step isEnd_def)
qed

lemma iterate_array:
  assumes n: "pNextStorage s = Some n" and ok: "next_ok n" "pMapStorage n \<noteq> Some []"
  shows "i + Suc d = ArraySize n \<Longrightarrow> it_stage it = Stage_Array \<Longrightarrow> it_arrayIndex it = i \<Longrightarrow>
    it_current it = Some (ArrayStorage n ! i) \<Longrightarrow> Suc d + length (map_part n) < f \<Longrightarrow>
    iterate_mosaics f s it = Some (drop i (take (ArraySize n) (ArrayStorage n)) @ map_part n)"
proof (induction d arbitrary: i it f)
  case 0
  then obtain g where f: "f = Suc g" and g: "length (map_part n) < g" by (cases f) auto
  have drop: "drop i (take (ArraySize n) (ArrayStorage n)) = [ArrayStorage n ! i]"
    using 0 ok by (simp add: next_ok_def Cons_nth_drop_Suc [symmetric])
  have "iterate_mosaics g s (advance_iter s it) = Some (map_part n)"
  proof (cases "pMapStorage n")
    case None
    then have "isEnd (advance_iter s it)" using 0 n by (simp add: iter_simps hasMap_def arraySize_def)
    with None g show ?thesis by (simp add: iterate_end map_part_def)
  next
    case (Some xs)
    then obtain p mp where xs: "xs = p # mp" using ok by (cases xs) auto
    have "iterate_mosaics g s (advance_iter s it) = Some (p # mp)"
      using 0 n Some xs g
      by (intro iterate_map) (simp_all add: iter_simps hasMap_def arraySize_def mapStorage_def map_part_def)
    with Some xs show ?thesis by (simp add: map_part_def)
  qed
  with 0 f drop show ?case by (simp add: iterate_step isEnd_def)
next
  case (Suc d)
  then obtain g where f: "f = Suc g" and g: "Suc d + length (map_part n) < g" by (cases f) auto
  have drop: "drop i (take (ArraySize n) (ArrayStorage n)) =
      ArrayStorage n ! i # drop (Suc i) (take (ArraySize n) (ArrayStorage n))"
    using Suc.prems ok by (simp add: next_ok_def Cons_nth_drop_Suc [symmetric])
  have "iterate_mosaics g s (advance_iter s it) =
      Some (drop (Suc i) (take (ArraySize n) (ArrayStorage n)) @ map_part n)"
    using Suc.prems n g by (intro Suc.IH) (simp_all add: iter_simps arraySize_def array_of_def)
  with Suc.prems f drop show ?case by (simp add: iterate_step isEnd_def)
qed

lemma iterate_entries:
  assumes inv: "map_inv m" and fuel: "size_mosaics m < fuel"
  shows "iterate_mosaics fuel (m_storage m) (begin_iter m) = Some (entries m)"
proof (cases "empty_mosaics m")
  case True
  then have "isEnd (begin_iter m)"
    by (simp add: begin_iter_def make_iterator_def iter_simps empty_mosaics_def)
  with True fuel show ?thesis by (simp add: iterate_end entries_def)
next
  case False
  let ?s = "m_storage m"
  obtain g where f: "fuel = Suc g" using fuel by (cases fuel) auto
  have begin_v: "it_stage (begin_iter m) = Stage_Value" "it_current (begin_iter m) = Some (Value ?s)"
    using False by (simp_all add: begin_iter_def make_iterator_def iter_simps empty_mosaics_def)
  have "iterate_mosaics g ?s (advance_iter ?s (begin_iter m)) = Some (rest_entries ?s)"
  proof (cases "pNextStorage ?s")
    case None
    then have "isEnd (advance_iter ?s (begin_iter m))" using begin_v by (simp add: iter_simps hasArray_def)
    moreover have "0 < g" using fuel f False by (simp add: size_mosaics_def Let_def split: if_splits)
    ultimately show ?thesis using None by (simp add: iterate_end rest_entries_def)
  next
    case (Some n)
    with inv have ok: "next_ok n" "pMapStorage n \<noteq> Some []" "0 < ArraySize n" by (auto simp: map_inv_def)
    then obtain d where d: "0 + Suc d = ArraySize n" by (cases "ArraySize n") auto
    have "Suc d + length (map_part n) < g"
      using fuel f False Some d
      by (auto simp: size_mosaics_def hasArray_def hasMap_def arraySize_def mapStorage_def map_part_def
        Let_def split: option.splits if_splits)
    then show ?thesis
      using iterate_array [OF Some ok(1,2) d, of "advance_iter ?s (begin_iter m)" g] begin_v Some
      by (simp add: iter_simps hasArray_def array_of_def rest_entries_Some)
  qed
  with begin_v f False show ?thesis by (simp add: iterate_step isEnd_def entries_def)
qed

section \<open>The interface of the map\<close>

text \<open>
  What the account balances rely on: a store of non-zero mosaic ids with lookup, insertion of a
  fresh id, assignment through an iterator and removal. \<open>bal\<close> reads an absent mosaic as zero, as
  \<^verbatim>\<open>AccountBalances::get\<close> does.
\<close>

locale mosaic_store =
  fixes look :: "'m \<Rightarrow> mosaic_id \<rightharpoonup> amount"
    and inv :: "'m \<Rightarrow> bool"
    and find :: "'m \<Rightarrow> mosaic_id \<Rightarrow> mosaic option"
    and ins :: "'m \<Rightarrow> mosaic \<Rightarrow> 'm result"
    and asn :: "'m \<Rightarrow> mosaic_id \<Rightarrow> amount \<Rightarrow> 'm"
    and ers :: "'m \<Rightarrow> mosaic_id \<Rightarrow> 'm"
  assumes find_look: "inv m \<Longrightarrow> find m k = map_option (Pair k) (look m k)"
    and ins_look: "inv m \<Longrightarrow> k \<noteq> 0 \<Longrightarrow> look m k = None \<Longrightarrow>
      \<exists>m'. ins m (k, a) = Inr m' \<and> inv m' \<and> look m' = (look m)(k \<mapsto> a)"
    and asn_look: "inv m \<Longrightarrow> k \<in> dom (look m) \<Longrightarrow>
      inv (asn m k a) \<and> look (asn m k a) = (look m)(k \<mapsto> a)"
    and ers_look: "inv m \<Longrightarrow> inv (ers m k) \<and> look (ers m k) = (look m)(k := None)"
    and no_zero: "inv m \<Longrightarrow> look m 0 = None"
begin

definition bal :: "'m \<Rightarrow> mosaic_id \<Rightarrow> amount" where
  "bal m k = (case look m k of None \<Rightarrow> 0 | Some a \<Rightarrow> a)"

lemma bal_find: "inv m \<Longrightarrow> (case find m k of None \<Rightarrow> 0 | Some p \<Rightarrow> snd p) = bal m k"
  by (auto simp: find_look bal_def split: option.splits)

lemma find_Some_iff: "inv m \<Longrightarrow> find m k = Some p \<longleftrightarrow> look m k = Some (snd p) \<and> fst p = k"
  by (cases p) (auto simp: find_look)

lemma bal_insert:
  assumes "inv m" and "k \<noteq> 0" and "find m k = None"
  obtains m' where "ins m (k, a) = Inr m'" and "inv m'" and "bal m' = (bal m)(k := bal m k + a)"
proof -
  have none: "look m k = None" using assms by (simp add: find_look)
  then obtain m' where m': "ins m (k, a) = Inr m'" "inv m'" "look m' = (look m)(k \<mapsto> a)"
    using ins_look [OF assms(1,2), of a] by blast
  moreover have "bal m' = (bal m)(k := bal m k + a)"
    using m'(3) none by (auto simp: bal_def fun_eq_iff)
  ultimately show ?thesis using that by blast
qed

lemma bal_assign:
  assumes "inv m" and "find m k = Some p"
  shows "inv (asn m k a)" and "bal (asn m k a) = (bal m)(k := a)"
    and "find (asn m k a) k = Some (k, a)"
proof -
  have "k \<in> dom (look m)" using assms by (auto simp: find_look)
  note a = asn_look [OF assms(1) this, of a]
  then show "inv (asn m k a)" and "bal (asn m k a) = (bal m)(k := a)"
    by (auto simp: bal_def fun_eq_iff)
  then show "find (asn m k a) k = Some (k, a)" using a by (simp add: find_look)
qed

lemma bal_erase:
  assumes "inv m"
  shows "inv (ers m k)" and "bal (ers m k) = (bal m)(k := 0)"
  using ers_look [OF assms, of k] by (auto simp: bal_def fun_eq_iff)

lemma find_zero: "inv m \<Longrightarrow> find m 0 = None"
  by (simp add: find_look no_zero)

end

interpretation cmm: mosaic_store lookup map_inv find_mosaic insert_mosaic assign_mosaic erase_mosaic
proof
  fix m k a
  assume inv: "map_inv m"
  show "find_mosaic m k = map_option (Pair k) (lookup m k)" by (rule find_mosaic_lookup [OF inv])
  show "map_inv (erase_mosaic m k) \<and> lookup (erase_mosaic m k) = (lookup m)(k := None)"
    using lookup_erase_mosaic [OF inv] by simp
  show "lookup m 0 = None"
    using inv by (simp add: map_inv_def lookup_def map_of_eq_None_fst)
  show "map_inv (assign_mosaic m k a) \<and> lookup (assign_mosaic m k a) = (lookup m)(k \<mapsto> a)"
    if "k \<in> dom (lookup m)"
    using lookup_assign_mosaic [OF inv that] by simp
  show "\<exists>m'. insert_mosaic m (k, a) = Inr m' \<and> map_inv m' \<and> lookup m' = (lookup m)(k \<mapsto> a)"
    if "k \<noteq> 0" and "lookup m k = None"
    using lookup_insert_mosaic [OF inv, of "(k, a)"] that by (metis fst_conv snd_conv)
qed

section \<open>Refinement of a finite map\<close>

text \<open>
  The contract of the class, on a finite map and the optimized id: the same operations with the
  same exceptions, without any storage levels.
\<close>

datatype map_op = Op_Insert mosaic | Op_Assign mosaic_id amount | Op_Erase mosaic_id | Op_Optimize mosaic_id

type_synonym abstract_map = "(mosaic_id \<rightharpoonup> amount) \<times> mosaic_id"

fun spec_step :: "abstract_map \<Rightarrow> map_op \<Rightarrow> abstract_map result" where
  "spec_step (f, opt) (Op_Insert p) =
     (if fst p = 0 then Inl (InvalidArgument ''cannot insert reserved mosaic'')
      else if f (fst p) \<noteq> None then Inl (InvalidArgument ''cannot insert mosaic already in map'')
      else Inr (f(fst p \<mapsto> snd p), opt))"
| "spec_step (f, opt) (Op_Assign k a) = Inr (if f k = None then f else f(k \<mapsto> a), opt)"
| "spec_step (f, opt) (Op_Erase k) = Inr (f(k := None), opt)"
| "spec_step (f, opt) (Op_Optimize k) =
     (if opt = 0 \<or> opt = k then Inr (f, k) else Inl (InvalidArgument ''cannot reoptimize map''))"

fun map_step :: "compact_mosaic_map \<Rightarrow> map_op \<Rightarrow> compact_mosaic_map result" where
  "map_step m (Op_Insert p) = insert_mosaic m p"
| "map_step m (Op_Assign k a) = Inr (assign_mosaic m k a)"
| "map_step m (Op_Erase k) = Inr (erase_mosaic m k)"
| "map_step m (Op_Optimize k) = optimize_mosaic m k"

definition abs_map :: "compact_mosaic_map \<Rightarrow> abstract_map" where
  "abs_map m = (lookup m, m_optimizedMosaicId m)"

lemma map_step_simulates:
  assumes inv: "map_inv m"
  shows "map_sum id abs_map (map_step m x) = spec_step (abs_map m) x"
    and "map_step m x = Inr m' \<Longrightarrow> map_inv m'"
proof -
  have "map_sum id abs_map (map_step m x) = spec_step (abs_map m) x \<and>
    (\<forall>m'. map_step m x = Inr m' \<longrightarrow> map_inv m')"
  proof (cases x)
    case (Op_Insert p)
    consider (zero) "fst p = 0" | (dup) a where "fst p \<noteq> 0" "lookup m (fst p) = Some a"
      | (new) "fst p \<noteq> 0" "lookup m (fst p) = None" by fastforce
    then show ?thesis
    proof cases
      case new
      then show ?thesis using lookup_insert_mosaic [OF inv new] Op_Insert by (fastforce simp: abs_map_def)
    qed (use insert_mosaic_errors [OF inv, of p] Op_Insert in \<open>simp_all add: abs_map_def\<close>)
  next
    case (Op_Assign k a)
    show ?thesis
    proof (cases "lookup m k")
      case None
      then have "find_location m k = None"
        using find_mosaic_lookup [OF inv, of k] by (simp add: find_mosaic_def)
      with None Op_Assign inv show ?thesis by (simp add: abs_map_def assign_mosaic_def)
    next
      case (Some b)
      with Op_Assign lookup_assign_mosaic [OF inv, of k a] show ?thesis by (auto simp: abs_map_def)
    qed
  next
    case (Op_Erase k)
    with lookup_erase_mosaic [OF inv, of k] show ?thesis by (simp add: abs_map_def)
  next
    case (Op_Optimize k)
    then show ?thesis
      using optimize_mosaic_spec [OF inv, of k] optimize_mosaic_error [of m k]
      by (fastforce simp: abs_map_def)
  qed
  then show "map_sum id abs_map (map_step m x) = spec_step (abs_map m) x"
    and "map_step m x = Inr m' \<Longrightarrow> map_inv m'" by auto
qed

lemma map_inv_empty_map: "map_inv empty_map" and lookup_empty_map: "lookup empty_map = Map.empty"
  by (simp_all add: map_inv_def empty_map_def entries_def empty_mosaics_def hasValue_def lookup_def)

text \<open>
  C1. The compact mosaic map refines a finite map: any sequence of inserts, assignments, erases
  and optimizations, started on the empty map, raises the exception the finite map's contract
  asks for or ends in a well-formed storage that represents exactly the finite map the contract
  computes.
\<close>

theorem compact_map_refines_finite_map:
  "map_sum id abs_map (res_fold (\<lambda>x m. map_step m x) ops empty_map) =
     res_fold (\<lambda>x a. spec_step a x) ops (Map.empty, 0) \<and>
   (case res_fold (\<lambda>x m. map_step m x) ops empty_map of Inl e \<Rightarrow> True | Inr m \<Rightarrow> map_inv m)"
proof -
  have "map_inv m \<Longrightarrow> map_sum id abs_map (res_fold (\<lambda>x m. map_step m x) ops m) =
     res_fold (\<lambda>x a. spec_step a x) ops (abs_map m) \<and>
   (case res_fold (\<lambda>x m. map_step m x) ops m of Inl e \<Rightarrow> True | Inr m \<Rightarrow> map_inv m)" for m
  proof (induction ops arbitrary: m)
    case (Cons x ops)
    from map_step_simulates [OF Cons.prems, of x] show ?case
      using Cons.IH by (cases "map_step m x") (auto simp flip: map_step_simulates(1) [OF Cons.prems])
  qed simp
  from this [OF map_inv_empty_map] show ?thesis
    by (simp add: abs_map_def lookup_empty_map) (simp add: empty_map_def)
qed

text \<open>
  C24. Iterating a well-formed map with its begin/end iterators terminates within
  \<^verbatim>\<open>size() + 1\<close> steps and visits every stored mosaic exactly once, in the map's order: the
  optimized mosaic first, then ascending ids.
\<close>

theorem iteration_visits_every_mosaic_in_order:
  assumes "map_inv m"
  shows "\<exists>ms. iterate_mosaics (size_mosaics m + 1) (m_storage m) (begin_iter m) = Some ms \<and>
    sorted_wrt (IsLessThan (m_optimizedMosaicId m)) (map fst ms) \<and>
    length ms = size_mosaics m \<and> map_of ms = lookup m"
proof (intro exI conjI)
  show "iterate_mosaics (size_mosaics m + 1) (m_storage m) (begin_iter m) = Some (entries m)"
    by (rule iterate_entries [OF assms]) simp
  show "sorted_wrt (IsLessThan (m_optimizedMosaicId m)) (map fst (entries m))"
    using assms by (simp add: map_inv_def)
  show "length (entries m) = size_mosaics m"
    using distinct_card [OF map_inv_distinct [OF assms]] size_mosaics_card [OF assms]
    by (simp add: dom_lookup)
  show "map_of (entries m) = lookup m" by (simp add: lookup_def)
qed

theorem iteration_witness:
  "let m = \<lparr>m_storage = \<lparr>Value = (9, 1), pNextStorage =
              Some \<lparr>ArrayStorage = [(4, 2), (7, 3), (0, 0), (0, 0), (0, 0)], ArraySize = 2, pMapStorage = None\<rparr>\<rparr>,
            m_optimizedMosaicId = 9\<rparr>
   in map_inv m \<and> (\<exists>ms. iterate_mosaics (size_mosaics m + 1) (m_storage m) (begin_iter m) = Some ms \<and>
     length ms = 3 \<and> map_of ms = lookup m)"
proof -
  let ?m = "\<lparr>m_storage = \<lparr>Value = (9, 1), pNextStorage =
              Some \<lparr>ArrayStorage = [(4, 2), (7, 3), (0, 0), (0, 0), (0, 0)], ArraySize = 2, pMapStorage = None\<rparr>\<rparr>,
            m_optimizedMosaicId = 9\<rparr> :: compact_mosaic_map"
  have inv: "map_inv ?m"
    by (simp add: map_inv_def next_ok_def Array_Size_def entries_def rest_entries_def empty_mosaics_def
      hasValue_def IsLessThan_def)
  have size: "size_mosaics ?m = 3"
    by (simp add: size_mosaics_def empty_mosaics_def hasValue_def hasArray_def arraySize_def hasMap_def)
  show ?thesis
    using iteration_visits_every_mosaic_in_order [OF inv] inv size by (auto simp: Let_def)
qed

end
