(* ===== verification/Account_Balances.thy ===== *)
theory Account_Balances
  imports Compact_Mosaic_Map
begin

text \<open>
  Account balances and account state (\<^verbatim>\<open>src/catapult/state/AccountBalances\<close>,
  \<^verbatim>\<open>src/catapult/state/AccountState\<close>): the amounts an account owns, kept in a compact mosaic map,
  and the history of the tracked mosaic (the harvesting mosaic) as two lists of balance snapshots,
  the local (committed) ones and the remote (not yet committed) ones. The history decides the
  effective balance of the account, that is its importance.

  The back pointer \<^verbatim>\<open>m_accountState\<close> is only read for the \<^verbatim>\<open>AddressHeight\<close> of the owner; it is modelled
  by that height, \<open>None\<close> standing for the null pointer. \<^verbatim>\<open>CATAPULT_THROW_RUNTIME_ERROR\<close> becomes an
  \<open>Inl\<close> result; the amounts and heights the messages print are left out of the strings.
\<close>

section \<open>The state and the operations\<close>

record balance_snapshot =
  Amount :: amount
  BalanceHeight :: height

record account_balances =
  m_localSnapshots :: "balance_snapshot list"
  m_remoteSnapshots :: "balance_snapshot list"
  m_accountState :: "height option"
  m_balances :: compact_mosaic_map
  m_optimizedId :: mosaic_id
  m_trackedMosaicId :: mosaic_id

definition AccountBalances :: "height option \<Rightarrow> account_balances" where
  "AccountBalances owner = \<lparr>m_localSnapshots = [], m_remoteSnapshots = [], m_accountState = owner,
     m_balances = empty_map, m_optimizedId = 0, m_trackedMosaicId = 0\<rparr>"

definition IsZero :: "amount \<Rightarrow> bool" where
  "IsZero a \<longleftrightarrow> 0 = a"

text \<open>
  \<^verbatim>\<open>std::min_element\<close> scans the range once and replaces the smallest element found so far whenever
  the comparison of the next element with it holds. (The comparison of \<^verbatim>\<open>minSnapshot\<close> is not an
  order, so the scan is written out.)
\<close>

definition min_element :: "('a \<Rightarrow> 'a \<Rightarrow> bool) \<Rightarrow> 'a list \<Rightarrow> 'a" where
  "min_element cmp xs = foldl (\<lambda>smallest it. if cmp it smallest then it else smallest) (hd xs) (tl xs)"

definition effective_height :: "height \<Rightarrow> u64 \<Rightarrow> height" where
  "effective_height h importanceGrouping =
     (if h > importanceGrouping then h - importanceGrouping else 0)"

definition minSnapshot :: "balance_snapshot list \<Rightarrow> height \<Rightarrow> u64 \<Rightarrow> balance_snapshot" where
  "minSnapshot snapshots h importanceGrouping =
     (let effectiveHeight = effective_height h importanceGrouping
      in min_element (\<lambda>l r. BalanceHeight l \<le> effectiveHeight \<or> Amount l < Amount r) snapshots)"

definition get_balance :: "account_balances \<Rightarrow> mosaic_id \<Rightarrow> amount" where
  "get_balance b mid = (case find_mosaic (m_balances b) mid of None \<Rightarrow> 0 | Some p \<Rightarrow> snd p)"

definition pushSnapshot ::
  "account_balances \<Rightarrow> balance_snapshot \<Rightarrow> bool \<Rightarrow> account_balances result" where
  "pushSnapshot b snapshot committed =
     (case m_accountState b of
        None \<Rightarrow> Inl (RuntimeError ''each balance must have own account'')
      | Some addressHeight \<Rightarrow>
          if BalanceHeight snapshot + 1 < addressHeight
          then Inl (RuntimeError ''height of snapshot can't be lower than height of account'')
          else if committed
          then Inr (b\<lparr>m_localSnapshots := m_localSnapshots b @ [snapshot]\<rparr>)
          else Inr (b\<lparr>m_remoteSnapshots := m_remoteSnapshots b @ [snapshot]\<rparr>))"

text \<open>A loop that pops the last element of a \<^verbatim>\<open>std::list\<close> while a condition holds of it.\<close>

definition pop_back_while :: "('a \<Rightarrow> bool) \<Rightarrow> 'a list \<Rightarrow> 'a list" where
  "pop_back_while P xs = rev (dropWhile P (rev xs))"

definition maybePushSnapshot ::
  "account_balances \<Rightarrow> mosaic_id \<Rightarrow> amount \<Rightarrow> height \<Rightarrow> account_balances result" where
  "maybePushSnapshot b mid amt h =
     (if mid \<noteq> m_trackedMosaicId b \<or> h = 0 \<or> h = - 1 then Inr b
      else if m_remoteSnapshots b = [] then pushSnapshot b \<lparr>Amount = amt, BalanceHeight = h\<rparr> False
      else if h \<le> BalanceHeight (last (m_remoteSnapshots b)) then
        pushSnapshot (b\<lparr>m_remoteSnapshots :=
            pop_back_while (\<lambda>s. BalanceHeight s \<ge> h) (m_remoteSnapshots b)\<rparr>)
          \<lparr>Amount = amt, BalanceHeight = h\<rparr> False
      else if h > BalanceHeight (last (m_remoteSnapshots b)) then
        pushSnapshot b \<lparr>Amount = amt, BalanceHeight = h\<rparr> False
      else Inr b)"

definition internalCredit ::
  "account_balances \<Rightarrow> mosaic_id \<Rightarrow> amount \<Rightarrow> height \<Rightarrow> account_balances result" where
  "internalCredit b mid amt h =
     (if IsZero amt then Inr b
      else case find_mosaic (m_balances b) mid of
        None \<Rightarrow>
          res_bind (if m_remoteSnapshots b = [] \<and> m_localSnapshots b = []
                    then maybePushSnapshot b mid 0 (h - 1) else Inr b) (\<lambda>b1.
          res_bind (insert_mosaic (m_balances b1) (mid, amt)) (\<lambda>m.
          maybePushSnapshot (b1\<lparr>m_balances := m\<rparr>) mid amt h))
      | Some p \<Rightarrow>
          res_bind (if m_remoteSnapshots b = [] \<and> m_localSnapshots b = []
                    then maybePushSnapshot b mid (snd p) (h - 1) else Inr b) (\<lambda>b1.
          maybePushSnapshot (b1\<lparr>m_balances := assign_mosaic (m_balances b1) mid (snd p + amt)\<rparr>)
            mid (snd p + amt) h))"

definition internalDebit ::
  "account_balances \<Rightarrow> mosaic_id \<Rightarrow> amount \<Rightarrow> height \<Rightarrow> account_balances result" where
  "internalDebit b mid amt h =
     (if IsZero amt then Inr b
      else case find_mosaic (m_balances b) mid of
        None \<Rightarrow> Inl (RuntimeError ''debit amount is greater than current balance'')
      | Some p \<Rightarrow>
          if amt > snd p then Inl (RuntimeError ''debit amount is greater than current balance'')
          else
            res_bind (maybePushSnapshot
                (b\<lparr>m_balances := assign_mosaic (m_balances b) mid (snd p - amt)\<rparr>) mid (snd p - amt) h)
              (\<lambda>b1. if IsZero (snd p - amt)
                    then Inr (b1\<lparr>m_balances := erase_mosaic (m_balances b1) mid\<rparr>) else Inr b1))"

text \<open>The overloads without a height do not track, those with a height refuse height zero.\<close>

definition credit_untracked ::
  "account_balances \<Rightarrow> mosaic_id \<Rightarrow> amount \<Rightarrow> account_balances result" where
  "credit_untracked b mid amt = internalCredit b mid amt 0"

definition debit_untracked ::
  "account_balances \<Rightarrow> mosaic_id \<Rightarrow> amount \<Rightarrow> account_balances result" where
  "debit_untracked b mid amt = internalDebit b mid amt 0"

definition credit ::
  "account_balances \<Rightarrow> mosaic_id \<Rightarrow> amount \<Rightarrow> height \<Rightarrow> account_balances result" where
  "credit b mid amt h =
     (if h = 0 then Inl (RuntimeError ''height during credit can't be zero'')
      else internalCredit b mid amt h)"

definition debit ::
  "account_balances \<Rightarrow> mosaic_id \<Rightarrow> amount \<Rightarrow> height \<Rightarrow> account_balances result" where
  "debit b mid amt h =
     (if h = 0 then Inl (RuntimeError ''height during debit can't be zero'')
      else internalDebit b mid amt h)"

definition optimize :: "account_balances \<Rightarrow> mosaic_id \<Rightarrow> account_balances result" where
  "optimize b mid = res_bind (optimize_mosaic (m_balances b) mid) (\<lambda>m.
     Inr (b\<lparr>m_balances := m, m_optimizedId := mid\<rparr>))"

definition track :: "account_balances \<Rightarrow> mosaic_id \<Rightarrow> account_balances result" where
  "track b mid =
     (if m_trackedMosaicId b \<noteq> mid \<and> (m_localSnapshots b \<noteq> [] \<or> m_remoteSnapshots b \<noteq> [])
      then Inl (RuntimeError ''can't track another id, if history for previous id is not empty'')
      else Inr (b\<lparr>m_trackedMosaicId := mid\<rparr>))"

definition commitSnapshots :: "account_balances \<Rightarrow> account_balances" where
  "commitSnapshots b =
     (case m_remoteSnapshots b of
        [] \<Rightarrow> b
      | front # _ \<Rightarrow>
          let local = pop_back_while (\<lambda>s. BalanceHeight s \<ge> BalanceHeight front) (m_localSnapshots b);
              remote = (if local = [] then m_remoteSnapshots b
                        else dropWhile (\<lambda>s. Amount (last local) = Amount s) (m_remoteSnapshots b))
          in b\<lparr>m_localSnapshots := local @ remote, m_remoteSnapshots := []\<rparr>)"

definition cleanUpSnaphots :: "account_balances \<Rightarrow> account_balances" where
  "cleanUpSnaphots b = b\<lparr>m_remoteSnapshots := [], m_localSnapshots := []\<rparr>"

definition maybeCleanUpSnapshots ::
  "account_balances \<Rightarrow> height \<Rightarrow> u64 \<Rightarrow> u64 \<Rightarrow> account_balances" where
  "maybeCleanUpSnapshots b h importanceGrouping maxRollbackBlocks =
     (let unstableHeight = importanceGrouping + maxRollbackBlocks
      in if h \<le> unstableHeight then b
         else b\<lparr>m_localSnapshots :=
           dropWhile (\<lambda>s. BalanceHeight s \<le> h - unstableHeight) (m_localSnapshots b)\<rparr>)"

definition getEffectiveBalance :: "account_balances \<Rightarrow> height \<Rightarrow> u64 \<Rightarrow> amount" where
  "getEffectiveBalance b h importanceGrouping =
     (if m_localSnapshots b = [] \<and> m_remoteSnapshots b = [] then
        (case find_mosaic (m_balances b) (m_trackedMosaicId b) of None \<Rightarrow> 0 | Some p \<Rightarrow> snd p)
      else if m_remoteSnapshots b = [] then
        Amount (minSnapshot (m_localSnapshots b) h importanceGrouping)
      else if m_localSnapshots b = [] then
        Amount (minSnapshot (m_remoteSnapshots b) h importanceGrouping)
      else min (Amount (minSnapshot (m_localSnapshots b) h importanceGrouping))
               (Amount (minSnapshot (m_remoteSnapshots b) h importanceGrouping)))"

definition addSnapshot :: "account_balances \<Rightarrow> balance_snapshot \<Rightarrow> account_balances result" where
  "addSnapshot b snapshot = pushSnapshot b snapshot True"

definition size_balances :: "account_balances \<Rightarrow> nat" where
  "size_balances b = size_mosaics (m_balances b)"

text \<open>The iteration of another map's mosaics, as the range-for of the copy assignment.\<close>

definition mosaics_of :: "account_balances \<Rightarrow> mosaic list result" where
  "mosaics_of b =
     (case iterate_mosaics (size_balances b + 1) (m_storage (m_balances b)) (begin_iter (m_balances b)) of
        None \<Rightarrow> Inl (OutOfRange ''iterator'') | Some ms \<Rightarrow> Inr ms)"

text \<open>
  The copy assignment optimizes the target, inserts the mosaics of the source one by one and
  pushes its snapshots; the target is not emptied first.
\<close>

definition assign_balances ::
  "account_balances \<Rightarrow> account_balances \<Rightarrow> account_balances result" where
  "assign_balances dst src =
     res_bind (optimize_mosaic (m_balances dst) (m_optimizedId src)) (\<lambda>m0.
     res_bind (mosaics_of src) (\<lambda>ms.
     res_bind (res_fold (\<lambda>p m. insert_mosaic m p) ms m0) (\<lambda>m1.
     res_bind (res_fold (\<lambda>s b. pushSnapshot b s True) (m_localSnapshots src)
       (dst\<lparr>m_optimizedId := m_optimizedId src, m_trackedMosaicId := m_trackedMosaicId src,
          m_accountState := (case m_accountState dst of None \<Rightarrow> m_accountState src | Some ah \<Rightarrow> Some ah),
          m_balances := m1\<rparr>))
     (res_fold (\<lambda>s b. pushSnapshot b s False) (m_remoteSnapshots src)))))"

definition copy_balances :: "account_balances \<Rightarrow> account_balances result" where
  "copy_balances src = assign_balances (AccountBalances None) src"

section \<open>Account state\<close>

datatype account_type = Unlinked | Main | Remote | Remote_Unlinked

record ('address, 'key) account_state =
  Address :: 'address
  AddressHeight :: height
  PublicKey :: 'key
  PublicKeyHeight :: height
  AccountType :: account_type
  LinkedAccountKey :: 'key
  Balances :: account_balances

text \<open>\<open>zero_key\<close> is the value-initialised \<^verbatim>\<open>Key()\<close>.\<close>

definition AccountState :: "'key \<Rightarrow> 'address \<Rightarrow> height \<Rightarrow> ('address, 'key) account_state" where
  "AccountState zero_key address addressHeight = \<lparr>Address = address, AddressHeight = addressHeight,
     PublicKey = zero_key, PublicKeyHeight = 0, AccountType = Unlinked, LinkedAccountKey = zero_key,
     Balances = AccountBalances (Some addressHeight)\<rparr>"

text \<open>
  The copy constructor points the new balances at the new account and then assigns member by
  member, the heights and keys before the balances.
\<close>

definition copy_account_state ::
  "('address, 'key) account_state \<Rightarrow> ('address, 'key) account_state result" where
  "copy_account_state a =
     res_bind (assign_balances (AccountBalances (Some (AddressHeight a))) (Balances a)) (\<lambda>b.
     Inr (a\<lparr>Balances := b\<rparr>))"

fun IsRemote :: "account_type \<Rightarrow> bool" where
  "IsRemote Remote = True"
| "IsRemote Remote_Unlinked = True"
| "IsRemote _ = False"

definition RequireAccountType ::
  "('address, 'key) account_state \<Rightarrow> account_type \<Rightarrow> unit result" where
  "RequireAccountType a requiredAccountType =
     (if requiredAccountType = AccountType a then Inr ()
      else Inl (RuntimeError ''expected account type''))"

definition AreLinked ::
  "('address, 'key) account_state \<Rightarrow> ('address, 'key) account_state \<Rightarrow> bool" where
  "AreLinked lhs rhs \<longleftrightarrow>
     LinkedAccountKey lhs = PublicKey rhs \<and> LinkedAccountKey rhs = PublicKey lhs"

definition RequireLinkedRemoteAndMainAccounts ::
  "('address, 'key) account_state \<Rightarrow> ('address, 'key) account_state \<Rightarrow> unit result" where
  "RequireLinkedRemoteAndMainAccounts remote main =
     res_bind (RequireAccountType remote Remote) (\<lambda>_.
     res_bind (RequireAccountType main Main) (\<lambda>_.
     if AreLinked main remote then Inr ()
     else Inl (RuntimeError ''remote link to main is improper'')))"

section \<open>The snapshot history\<close>

definition snapshots_ok :: "height option \<Rightarrow> balance_snapshot list \<Rightarrow> bool" where
  "snapshots_ok owner xs \<longleftrightarrow> sorted_wrt (<) (map BalanceHeight xs) \<and>
     (\<forall>s \<in> set xs. \<exists>ah. owner = Some ah \<and> \<not> BalanceHeight s + 1 < ah)"

definition bal_inv :: "account_balances \<Rightarrow> bool" where
  "bal_inv b \<longleftrightarrow> map_inv (m_balances b) \<and> m_optimizedMosaicId (m_balances b) = m_optimizedId b \<and>
     snapshots_ok (m_accountState b) (m_localSnapshots b) \<and>
     snapshots_ok (m_accountState b) (m_remoteSnapshots b)"

text \<open>
  The heights at which the owner accepts snapshots: not before the block in which its address
  became known.
\<close>

definition accepts :: "account_balances \<Rightarrow> height \<Rightarrow> bool" where
  "accepts b h \<longleftrightarrow> (\<exists>ah. m_accountState b = Some ah \<and> ah \<le> h)"

lemma word_Suc_greater: "(h :: u64) \<noteq> - 1 \<Longrightarrow> h < h + 1"
proof -
  assume "h \<noteq> - 1"
  then have "1 + h \<noteq> 0" by (simp add: add.commute eq_neg_iff_add_eq_0)
  then show "h < h + 1" using unatSuc [of h] by (simp add: word_less_nat_alt add.commute)
qed

lemma accepts_push:
  assumes "accepts b h" and "h \<noteq> - 1"
  shows "pushSnapshot b \<lparr>Amount = a, BalanceHeight = h\<rparr> False =
    Inr (b\<lparr>m_remoteSnapshots := m_remoteSnapshots b @ [\<lparr>Amount = a, BalanceHeight = h\<rparr>]\<rparr>)"
proof -
  from assms(1) obtain ah where ah: "m_accountState b = Some ah" "ah \<le> h" by (auto simp: accepts_def)
  have "\<not> h + 1 < ah" using ah(2) word_Suc_greater [OF assms(2)] by simp
  with ah show ?thesis by (simp add: pushSnapshot_def)
qed

lemma pop_back_while_sorted:
  "sorted_wrt (<) (map BalanceHeight xs) \<Longrightarrow>
   pop_back_while (\<lambda>s. h \<le> BalanceHeight s) xs = filter (\<lambda>s. BalanceHeight s < h) xs"
proof (induction xs rule: rev_induct)
  case (snoc x xs)
  then have less: "\<forall>y \<in> set xs. BalanceHeight y < BalanceHeight x" by (auto simp: sorted_wrt_append)
  show ?case
  proof (cases "h \<le> BalanceHeight x")
    case False
    with less have "filter (\<lambda>s. BalanceHeight s < h) xs = xs" by (fastforce simp: filter_id_conv)
    with False show ?thesis by (simp add: pop_back_while_def)
  qed (use snoc in \<open>auto simp: pop_back_while_def sorted_wrt_append\<close>)
qed (simp add: pop_back_while_def)

definition put_snapshot :: "account_balances \<Rightarrow> amount \<Rightarrow> height \<Rightarrow> account_balances" where
  "put_snapshot b a h = b\<lparr>m_remoteSnapshots :=
     filter (\<lambda>s. BalanceHeight s < h) (m_remoteSnapshots b) @ [\<lparr>Amount = a, BalanceHeight = h\<rparr>]\<rparr>"

lemma put_snapshot_sel [simp]:
  "m_balances (put_snapshot b a h) = m_balances b"
  "m_localSnapshots (put_snapshot b a h) = m_localSnapshots b"
  "m_accountState (put_snapshot b a h) = m_accountState b"
  "m_optimizedId (put_snapshot b a h) = m_optimizedId b"
  "m_trackedMosaicId (put_snapshot b a h) = m_trackedMosaicId b"
  "m_remoteSnapshots (put_snapshot b a h) =
     filter (\<lambda>s. BalanceHeight s < h) (m_remoteSnapshots b) @ [\<lparr>Amount = a, BalanceHeight = h\<rparr>]"
  by (simp_all add: put_snapshot_def)

lemma snapshots_ok_put:
  assumes "snapshots_ok owner xs" and "owner = Some ah" and "\<not> h + 1 < ah"
  shows "snapshots_ok owner (filter (\<lambda>s. BalanceHeight s < h) xs @ [\<lparr>Amount = a, BalanceHeight = h\<rparr>])"
  using assms sorted_wrt_filter [of "\<lambda>s t. BalanceHeight s < BalanceHeight t" xs]
  by (auto simp: snapshots_ok_def sorted_wrt_append sorted_wrt_map)

definition tracks :: "account_balances \<Rightarrow> mosaic_id \<Rightarrow> height \<Rightarrow> bool" where
  "tracks b mid h \<longleftrightarrow> mid = m_trackedMosaicId b \<and> h \<noteq> 0 \<and> h \<noteq> - 1"

text \<open>
  What tracking a balance does: the snapshots at or above the height are replaced by the new one.
\<close>

lemma maybePushSnapshot_spec:
  assumes ok: "snapshots_ok (m_accountState b) (m_remoteSnapshots b)"
    and push: "tracks b mid h \<Longrightarrow> \<exists>ah. m_accountState b = Some ah \<and> \<not> h + 1 < ah"
  shows "maybePushSnapshot b mid a h = Inr (if tracks b mid h then put_snapshot b a h else b)"
proof (cases "tracks b mid h")
  case True
  with push obtain ah where ah: "m_accountState b = Some ah" "\<not> h + 1 < ah" by blast
  have sorted: "sorted_wrt (<) (map BalanceHeight (m_remoteSnapshots b))"
    using ok by (simp add: snapshots_ok_def)
  have all: "filter (\<lambda>s. BalanceHeight s < h) (m_remoteSnapshots b) = m_remoteSnapshots b"
    if "m_remoteSnapshots b \<noteq> []" "BalanceHeight (last (m_remoteSnapshots b)) < h"
  proof -
    obtain xs x where xs: "m_remoteSnapshots b = xs @ [x]" using \<open>m_remoteSnapshots b \<noteq> []\<close>
      by (metis append_butlast_last_id)
    show ?thesis using that(2) sorted unfolding xs filter_id_conv
      by (auto simp: sorted_wrt_append dest: less_trans)
  qed
  then show ?thesis
    using True ah pop_back_while_sorted [OF sorted, of h]
    by (auto simp: maybePushSnapshot_def tracks_def pushSnapshot_def put_snapshot_def not_le)
qed (auto simp: maybePushSnapshot_def tracks_def)

section \<open>The ledger the balances implement\<close>

lemma get_balance_bal: "bal_inv b \<Longrightarrow> get_balance b k = cmm.bal (m_balances b) k"
  by (simp add: get_balance_def bal_inv_def cmm.bal_find)

lemma get_balance_fun: "bal_inv b \<Longrightarrow> get_balance b = cmm.bal (m_balances b)"
  by (simp add: fun_eq_iff get_balance_bal)

lemma accepts_minus_one: "accepts b h \<Longrightarrow> \<exists>ah. m_accountState b = Some ah \<and> \<not> (h - 1) + 1 < ah"
  by (auto simp: accepts_def)

lemma accepts_not_max: "accepts b h \<Longrightarrow> h \<noteq> - 1 \<Longrightarrow> \<exists>ah. m_accountState b = Some ah \<and> \<not> h + 1 < ah"
  using word_Suc_greater [of h] by (auto simp: accepts_def)

text \<open>The first snapshot of a history is the balance before the change, one block earlier.\<close>

definition first_snapshot :: "account_balances \<Rightarrow> mosaic_id \<Rightarrow> amount \<Rightarrow> height \<Rightarrow> account_balances" where
  "first_snapshot b mid a h =
     (if m_remoteSnapshots b = [] \<and> m_localSnapshots b = [] \<and> tracks b mid (h - 1)
      then put_snapshot b a (h - 1) else b)"

lemma first_snapshot_spec:
  assumes inv: "bal_inv b" and acc: "mid = m_trackedMosaicId b \<Longrightarrow> accepts b h"
  shows "(if m_remoteSnapshots b = [] \<and> m_localSnapshots b = []
      then maybePushSnapshot b mid a (h - 1) else Inr b) = Inr (first_snapshot b mid a h)"
    and "bal_inv (first_snapshot b mid a h)"
    and "m_balances (first_snapshot b mid a h) = m_balances b"
    and "m_trackedMosaicId (first_snapshot b mid a h) = m_trackedMosaicId b"
    and "m_accountState (first_snapshot b mid a h) = m_accountState b"
    and "m_localSnapshots (first_snapshot b mid a h) = m_localSnapshots b"
proof -
  have ok: "snapshots_ok (m_accountState b) (m_remoteSnapshots b)" using inv by (simp add: bal_inv_def)
  have push: "tracks b mid (h - 1) \<Longrightarrow> \<exists>ah. m_accountState b = Some ah \<and> \<not> (h - 1) + 1 < ah"
    using acc accepts_minus_one by (auto simp: tracks_def)
  show "(if m_remoteSnapshots b = [] \<and> m_localSnapshots b = []
      then maybePushSnapshot b mid a (h - 1) else Inr b) = Inr (first_snapshot b mid a h)"
    using maybePushSnapshot_spec [OF ok push] by (simp add: first_snapshot_def)
  show "bal_inv (first_snapshot b mid a h)"
    using inv snapshots_ok_put [OF ok] push by (auto simp: first_snapshot_def bal_inv_def)
qed (simp_all add: first_snapshot_def)

text \<open>Storing a new balance and tracking it.\<close>

definition store_balance ::
  "account_balances \<Rightarrow> mosaic_id \<Rightarrow> amount \<Rightarrow> height \<Rightarrow> compact_mosaic_map \<Rightarrow> account_balances" where
  "store_balance b mid a h m =
     (if tracks b mid h then put_snapshot (b\<lparr>m_balances := m\<rparr>) a h else b\<lparr>m_balances := m\<rparr>)"

lemma store_balance_sel [simp]:
  "m_balances (store_balance b mid a h m) = m"
  "m_localSnapshots (store_balance b mid a h m) = m_localSnapshots b"
  "m_accountState (store_balance b mid a h m) = m_accountState b"
  "m_optimizedId (store_balance b mid a h m) = m_optimizedId b"
  "m_trackedMosaicId (store_balance b mid a h m) = m_trackedMosaicId b"
  "m_remoteSnapshots (store_balance b mid a h m) =
     (if tracks b mid h then m_remoteSnapshots (put_snapshot b a h) else m_remoteSnapshots b)"
  by (simp_all add: store_balance_def)

lemma store_balance_spec:
  assumes inv: "bal_inv b" and acc: "mid = m_trackedMosaicId b \<Longrightarrow> accepts b h"
    and m: "map_inv m" "m_optimizedMosaicId m = m_optimizedId b"
  shows "maybePushSnapshot (b\<lparr>m_balances := m\<rparr>) mid a h = Inr (store_balance b mid a h m)"
    and "bal_inv (store_balance b mid a h m)"
proof -
  have ok: "snapshots_ok (m_accountState b) (m_remoteSnapshots b)" using inv by (simp add: bal_inv_def)
  have push: "tracks b mid h \<Longrightarrow> \<exists>ah. m_accountState b = Some ah \<and> \<not> h + 1 < ah"
    using acc accepts_not_max by (auto simp: tracks_def)
  have "tracks (b\<lparr>m_balances := m\<rparr>) mid h = tracks b mid h" by (simp add: tracks_def)
  then show "maybePushSnapshot (b\<lparr>m_balances := m\<rparr>) mid a h = Inr (store_balance b mid a h m)"
    using maybePushSnapshot_spec [of "b\<lparr>m_balances := m\<rparr>" mid h a] ok push
    by (simp add: store_balance_def)
  show "bal_inv (store_balance b mid a h m)"
    using inv m snapshots_ok_put [OF ok] push by (auto simp: bal_inv_def)
qed

text \<open>The relation between the balances before and after one operation on a mosaic.\<close>

definition balance_step :: "account_balances \<Rightarrow> mosaic_id \<Rightarrow> amount \<Rightarrow> height \<Rightarrow> account_balances \<Rightarrow> bool" where
  "balance_step b mid a h b' \<longleftrightarrow> bal_inv b' \<and> get_balance b' = (get_balance b)(mid := a) \<and>
     m_trackedMosaicId b' = m_trackedMosaicId b \<and> m_accountState b' = m_accountState b \<and>
     m_localSnapshots b' = m_localSnapshots b \<and> m_optimizedId b' = m_optimizedId b \<and>
     (tracks b mid h \<longrightarrow> (\<exists>xs. m_remoteSnapshots b' = xs @ [\<lparr>Amount = a, BalanceHeight = h\<rparr>])) \<and>
     (mid \<noteq> m_trackedMosaicId b \<longrightarrow> m_remoteSnapshots b' = m_remoteSnapshots b)"

lemma balance_stepI:
  assumes inv: "bal_inv b" and acc: "mid = m_trackedMosaicId b \<Longrightarrow> accepts b h"
    and m: "map_inv m" "m_optimizedMosaicId m = m_optimizedId b"
    and bal: "cmm.bal m = (cmm.bal (m_balances b))(mid := a)"
  shows "balance_step b mid a h (store_balance (first_snapshot b mid a' h) mid a h m)"
proof -
  note fs = first_snapshot_spec [of b mid h a', OF inv acc]
  let ?b = "first_snapshot b mid a' h"
  have acc': "mid = m_trackedMosaicId ?b \<Longrightarrow> accepts ?b h" using acc fs(4,5) by (simp add: accepts_def)
  have opt: "m_optimizedId ?b = m_optimizedId b" by (simp add: first_snapshot_def)
  have inv': "bal_inv (store_balance ?b mid a h m)"
    using store_balance_spec(2) [of ?b mid h m a, OF fs(2) acc' m(1)] m(2) opt by simp
  have "get_balance (store_balance ?b mid a h m) = (get_balance b)(mid := a)"
    using bal by (simp add: get_balance_fun [OF inv'] get_balance_fun [OF inv])
  moreover have "tracks ?b mid h \<longleftrightarrow> tracks b mid h" using fs(4) by (simp add: tracks_def)
  moreover have "mid \<noteq> m_trackedMosaicId b \<Longrightarrow> m_remoteSnapshots ?b = m_remoteSnapshots b"
    by (simp add: first_snapshot_def tracks_def)
  ultimately show ?thesis using inv' fs(4,5,6) opt by (auto simp: balance_step_def tracks_def)
qed

lemma internalCredit_spec:
  assumes inv: "bal_inv b" and mid: "mid \<noteq> 0" and acc: "mid = m_trackedMosaicId b \<Longrightarrow> accepts b h"
    and amt: "amt \<noteq> 0"
  obtains b' where "internalCredit b mid amt h = Inr b'"
    and "balance_step b mid (get_balance b mid + amt) h b'"
proof -
  note fs = first_snapshot_spec [of b mid h, OF inv acc]
  have m: "map_inv (m_balances b)" "m_optimizedMosaicId (m_balances b) = m_optimizedId b"
    using inv by (auto simp: bal_inv_def)
  have acc': "mid = m_trackedMosaicId (first_snapshot b mid a' h) \<Longrightarrow> accepts (first_snapshot b mid a' h) h" for a'
    using acc fs(4,5) by (simp add: accepts_def)
  have opt: "m_optimizedId (first_snapshot b mid a' h) = m_optimizedId b" for a'
    by (simp add: first_snapshot_def)
  have store: "maybePushSnapshot (first_snapshot b mid a' h\<lparr>m_balances := m\<rparr>) mid a h =
      Inr (store_balance (first_snapshot b mid a' h) mid a h m)"
    if "map_inv m" "m_optimizedMosaicId m = m_optimizedId b" for m a a'
    using store_balance_spec(1) [of "first_snapshot b mid a' h" mid h m a, OF fs(2) acc' that(1)] that(2) opt by simp
  show ?thesis
  proof (cases "find_mosaic (m_balances b) mid")
    case None
    then have zero: "get_balance b mid = 0" by (simp add: get_balance_def)
    have "lookup (m_balances b) mid = None" using None find_mosaic_lookup [OF m(1)] by simp
    then obtain m' where m': "insert_mosaic (m_balances b) (mid, amt) = Inr m'" "map_inv m'"
        "lookup m' = (lookup (m_balances b))(mid \<mapsto> amt)" "m_optimizedMosaicId m' = m_optimizedId b"
      using lookup_insert_mosaic [OF m(1), of "(mid, amt)"] mid m(2) by (metis fst_conv snd_conv)
    have "cmm.bal m' = (cmm.bal (m_balances b))(mid := amt)"
      using m'(3) by (auto simp: cmm.bal_def fun_eq_iff)
    from balance_stepI [of b mid h, OF inv acc m'(2,4) this] show ?thesis
      using that [of "store_balance (first_snapshot b mid 0 h) mid amt h m'"] None amt m' fs(1,3) zero store
      by (simp add: internalCredit_def IsZero_def)
  next
    case (Some p)
    then have val: "get_balance b mid = snd p" by (simp add: get_balance_def)
    let ?m = "assign_mosaic (m_balances b) mid (snd p + amt)"
    note asn = cmm.bal_assign [OF m(1) Some, of "snd p + amt"]
    have opt': "m_optimizedMosaicId ?m = m_optimizedId b" using m(2) by simp
    from balance_stepI [of b mid h, OF inv acc asn(1) opt' asn(2)] show ?thesis
      using that [of "store_balance (first_snapshot b mid (snd p) h) mid (snd p + amt) h ?m"] Some amt
        fs(1,3) val store [OF asn(1) opt'] by (simp add: internalCredit_def IsZero_def)
  qed
qed

lemma internalDebit_insufficient:
  assumes "bal_inv b" and "get_balance b mid < amt"
  shows "internalDebit b mid amt h = Inl (RuntimeError ''debit amount is greater than current balance'')"
  using assms(2) by (auto simp: internalDebit_def IsZero_def get_balance_def split: option.splits)

lemma balance_step_erase:
  assumes "balance_step b mid 0 h b'"
  shows "balance_step b mid 0 h (b'\<lparr>m_balances := erase_mosaic (m_balances b') mid\<rparr>)"
proof -
  have inv': "bal_inv b'" and get: "get_balance b' = (get_balance b)(mid := 0)"
    using assms by (auto simp: balance_step_def)
  have m': "map_inv (m_balances b')" using inv' by (simp add: bal_inv_def)
  let ?b = "b'\<lparr>m_balances := erase_mosaic (m_balances b') mid\<rparr>"
  have inv2: "bal_inv ?b" using inv' cmm.bal_erase(1) [OF m'] by (simp add: bal_inv_def)
  have "get_balance ?b = (get_balance b)(mid := 0)"
    using cmm.bal_erase(2) [OF m', of mid] get by (simp add: get_balance_fun [OF inv2] get_balance_fun [OF inv'])
  with assms inv2 show ?thesis by (simp add: balance_step_def)
qed

lemma internalDebit_spec:
  assumes inv: "bal_inv b" and acc: "mid = m_trackedMosaicId b \<Longrightarrow> accepts b h"
    and amt: "amt \<noteq> 0" "amt \<le> get_balance b mid"
  obtains b' where "internalDebit b mid amt h = Inr b'"
    and "balance_step b mid (get_balance b mid - amt) h b'"
proof -
  have m: "map_inv (m_balances b)" "m_optimizedMosaicId (m_balances b) = m_optimizedId b"
    using inv by (auto simp: bal_inv_def)
  from amt obtain p where p: "find_mosaic (m_balances b) mid = Some p"
    by (cases "find_mosaic (m_balances b) mid") (auto simp: get_balance_def)
  then have val: "get_balance b mid = snd p" by (simp add: get_balance_def)
  let ?m = "assign_mosaic (m_balances b) mid (snd p - amt)"
  let ?b = "store_balance b mid (snd p - amt) h ?m"
  note asn = cmm.bal_assign [OF m(1) p, of "snd p - amt"]
  have opt': "m_optimizedMosaicId ?m = m_optimizedId b" using m(2) by simp
  note st = store_balance_spec [of b mid h ?m "snd p - amt", OF inv acc asn(1) opt']
  have gb: "get_balance ?b = (get_balance b)(mid := snd p - amt)"
    using asn(2) by (simp add: get_balance_fun [OF st(2)] get_balance_fun [OF inv])
  have step: "balance_step b mid (snd p - amt) h ?b"
    using st(2) gb by (simp add: balance_step_def tracks_def)
  show ?thesis
  proof (cases "snd p - amt = 0")
    case True
    then show ?thesis
      using that [of "?b\<lparr>m_balances := erase_mosaic (m_balances ?b) mid\<rparr>"] balance_step_erase [of b mid h ?b]
        step p st(1) amt val by (simp add: internalDebit_def IsZero_def)
  next
    case False
    then show ?thesis using that [of ?b] step p st(1) amt val by (simp add: internalDebit_def IsZero_def)
  qed
qed

section \<open>Committing and cleaning up the history\<close>

lemma snapshots_ok_filter: "snapshots_ok owner xs \<Longrightarrow> snapshots_ok owner (filter P xs)"
  by (auto simp: snapshots_ok_def sorted_wrt_map intro: sorted_wrt_filter)

lemma snapshots_ok_dropWhile: "snapshots_ok owner xs \<Longrightarrow> snapshots_ok owner (dropWhile P xs)"
  by (auto simp: snapshots_ok_def sorted_wrt_map dropWhile_eq_drop sorted_wrt_drop dest: in_set_dropD)

lemma snapshots_ok_append:
  "snapshots_ok owner (xs @ ys) \<longleftrightarrow> snapshots_ok owner xs \<and> snapshots_ok owner ys \<and>
     (\<forall>x \<in> set xs. \<forall>y \<in> set ys. BalanceHeight x < BalanceHeight y)"
  by (auto simp: snapshots_ok_def sorted_wrt_append)

lemma snapshots_ok_front: "snapshots_ok owner (f # r) \<Longrightarrow> s \<in> set (f # r) \<Longrightarrow> BalanceHeight f \<le> BalanceHeight s"
  by (auto simp: snapshots_ok_def)

lemma commitSnapshots_eq:
  assumes "snapshots_ok (m_accountState b) (m_localSnapshots b)" and "m_remoteSnapshots b = f # r"
  shows "commitSnapshots b =
    (let local = filter (\<lambda>s. BalanceHeight s < BalanceHeight f) (m_localSnapshots b)
     in b\<lparr>m_localSnapshots := local @ dropWhile (\<lambda>s. local \<noteq> [] \<and> Amount (last local) = Amount s) (f # r),
          m_remoteSnapshots := []\<rparr>)"
  using assms pop_back_while_sorted [of "m_localSnapshots b" "BalanceHeight f"]
  by (auto simp: commitSnapshots_def snapshots_ok_def Let_def)

lemma commitSnapshots_inv:
  assumes inv: "bal_inv b"
  shows "bal_inv (commitSnapshots b)"
proof (cases "m_remoteSnapshots b")
  case (Cons f r)
  have ok: "snapshots_ok (m_accountState b) (m_localSnapshots b)"
    "snapshots_ok (m_accountState b) (f # r)" using inv Cons by (auto simp: bal_inv_def)
  let ?local = "filter (\<lambda>s. BalanceHeight s < BalanceHeight f) (m_localSnapshots b)"
  let ?P = "\<lambda>s. ?local \<noteq> [] \<and> Amount (last ?local) = Amount s"
  have "BalanceHeight x < BalanceHeight y" if "x \<in> set ?local" "y \<in> set (dropWhile ?P (f # r))" for x y
    using that snapshots_ok_front [OF ok(2), of y] set_dropWhileD [OF that(2)] by force
  then have "snapshots_ok (m_accountState b) (?local @ dropWhile ?P (f # r))"
    using snapshots_ok_filter [OF ok(1)] snapshots_ok_dropWhile [OF ok(2)]
    unfolding snapshots_ok_append by blast
  then show ?thesis
    using inv unfolding commitSnapshots_eq [OF ok(1) Cons] Let_def by (simp add: bal_inv_def snapshots_ok_def)
qed (use inv in \<open>simp add: commitSnapshots_def\<close>)

lemma commitSnapshots_sel [simp]:
  "m_balances (commitSnapshots b) = m_balances b"
  "m_accountState (commitSnapshots b) = m_accountState b"
  "m_trackedMosaicId (commitSnapshots b) = m_trackedMosaicId b"
  "m_remoteSnapshots (commitSnapshots b) = []"
  by (simp_all add: commitSnapshots_def Let_def split: list.split)

lemma maybeCleanUpSnapshots_sel [simp]:
  "m_balances (maybeCleanUpSnapshots b h ig mr) = m_balances b"
  "m_accountState (maybeCleanUpSnapshots b h ig mr) = m_accountState b"
  "m_trackedMosaicId (maybeCleanUpSnapshots b h ig mr) = m_trackedMosaicId b"
  "m_remoteSnapshots (maybeCleanUpSnapshots b h ig mr) = m_remoteSnapshots b"
  by (simp_all add: maybeCleanUpSnapshots_def Let_def)

lemma maybeCleanUpSnapshots_inv: "bal_inv b \<Longrightarrow> bal_inv (maybeCleanUpSnapshots b h ig mr)"
  by (auto simp: maybeCleanUpSnapshots_def Let_def bal_inv_def snapshots_ok_dropWhile)

lemma get_balance_cong: "m_balances b' = m_balances b \<Longrightarrow> get_balance b' = get_balance b"
  by (simp add: get_balance_def fun_eq_iff)

section \<open>Sequences of operations\<close>

datatype balance_op =
    Op_Credit mosaic_id amount height
  | Op_Debit mosaic_id amount height
  | Op_Commit
  | Op_CleanUp height u64 u64

fun balance_run :: "account_balances \<Rightarrow> balance_op \<Rightarrow> account_balances result" where
  "balance_run b (Op_Credit mid amt h) = credit b mid amt h"
| "balance_run b (Op_Debit mid amt h) = debit b mid amt h"
| "balance_run b Op_Commit = Inr (commitSnapshots b)"
| "balance_run b (Op_CleanUp h ig mr) = Inr (maybeCleanUpSnapshots b h ig mr)"

text \<open>The contract: a ledger of amounts, where a debit that is not covered is refused.\<close>

fun ledger_run :: "(mosaic_id \<Rightarrow> amount) \<Rightarrow> balance_op \<Rightarrow> (mosaic_id \<Rightarrow> amount) result" where
  "ledger_run f (Op_Credit mid amt h) =
     (if h = 0 then Inl (RuntimeError ''height during credit can't be zero'')
      else Inr (f(mid := f mid + amt)))"
| "ledger_run f (Op_Debit mid amt h) =
     (if h = 0 then Inl (RuntimeError ''height during debit can't be zero'')
      else if f mid < amt then Inl (RuntimeError ''debit amount is greater than current balance'')
      else Inr (f(mid := f mid - amt)))"
| "ledger_run f Op_Commit = Inr f"
| "ledger_run f (Op_CleanUp _ _ _) = Inr f"

text \<open>
  What the callers guarantee: no credit of the reserved id \<open>0\<close>, no change of an account before
  the block in which it became known, and block heights below the largest one.
\<close>

fun op_ok :: "height \<Rightarrow> balance_op \<Rightarrow> bool" where
  "op_ok ah (Op_Credit mid amt h) \<longleftrightarrow> mid \<noteq> 0 \<and> ah \<le> h \<and> h \<noteq> - 1"
| "op_ok ah (Op_Debit mid amt h) \<longleftrightarrow> ah \<le> h \<and> h \<noteq> - 1"
| "op_ok ah _ \<longleftrightarrow> True"

definition newest :: "account_balances \<Rightarrow> balance_snapshot option" where
  "newest b = (if m_remoteSnapshots b \<noteq> [] then Some (last (m_remoteSnapshots b))
     else if m_localSnapshots b \<noteq> [] then Some (last (m_localSnapshots b)) else None)"

definition history_current :: "account_balances \<Rightarrow> bool" where
  "history_current b \<longleftrightarrow>
     (case newest b of None \<Rightarrow> True | Some s \<Rightarrow> Amount s = get_balance b (m_trackedMosaicId b))"

lemma history_current_step:
  assumes "history_current b" and "balance_step b mid a h b'" and "h \<noteq> 0" and "h \<noteq> - 1"
  shows "history_current b'"
proof (cases "tracks b mid h")
  case True
  with assms(2) obtain xs where "m_remoteSnapshots b' = xs @ [\<lparr>Amount = a, BalanceHeight = h\<rparr>]"
    and "get_balance b' mid = a" and "m_trackedMosaicId b' = mid"
    by (auto simp: balance_step_def tracks_def)
  then show ?thesis by (simp add: history_current_def newest_def)
next
  case False
  with assms show ?thesis by (auto simp: history_current_def newest_def balance_step_def tracks_def)
qed

lemma last_dropWhile_all:
  "xs \<noteq> [] \<Longrightarrow> if dropWhile P xs = [] then P (last xs) else last (dropWhile P xs) = last xs"
  by (induction xs) auto

lemma history_current_commit:
  assumes inv: "bal_inv b" and cur: "history_current b"
  shows "history_current (commitSnapshots b)"
proof (cases "m_remoteSnapshots b")
  case (Cons f r)
  have ok: "snapshots_ok (m_accountState b) (m_localSnapshots b)" using inv by (simp add: bal_inv_def)
  let ?local = "filter (\<lambda>s. BalanceHeight s < BalanceHeight f) (m_localSnapshots b)"
  let ?P = "\<lambda>s. ?local \<noteq> [] \<and> Amount (last ?local) = Amount s"
  have last: "Amount (last (f # r)) = get_balance b (m_trackedMosaicId b)"
    using cur Cons by (simp add: history_current_def newest_def)
  have "?local @ dropWhile ?P (f # r) \<noteq> [] \<and> Amount (last (?local @ dropWhile ?P (f # r))) = Amount (last (f # r))"
    using last_dropWhile_all [of "f # r" ?P] by (cases "dropWhile ?P (f # r) = []") (auto split: if_splits)
  with last show ?thesis
    unfolding commitSnapshots_eq [OF ok Cons] Let_def
    by (simp add: history_current_def newest_def get_balance_def)
qed (use cur in \<open>simp add: commitSnapshots_def\<close>)

lemma history_current_cleanup:
  "history_current b \<Longrightarrow> history_current (maybeCleanUpSnapshots b h ig mr)"
  using last_dropWhile_all [of "m_localSnapshots b" "\<lambda>s. BalanceHeight s \<le> h - (ig + mr)"]
  by (auto simp: history_current_def newest_def maybeCleanUpSnapshots_def Let_def get_balance_def
      split: if_splits option.splits)

definition run_ok :: "account_balances \<Rightarrow> balance_op \<Rightarrow> bool" where
  "run_ok b x \<longleftrightarrow> map_sum id get_balance (balance_run b x) = ledger_run (get_balance b) x \<and>
    (\<forall>b'. balance_run b x = Inr b' \<longrightarrow> bal_inv b' \<and> m_accountState b' = m_accountState b \<and>
      m_trackedMosaicId b' = m_trackedMosaicId b \<and> (history_current b \<longrightarrow> history_current b'))"

lemma run_ok_stepI:
  assumes "balance_run b x = Inr b'" and "ledger_run (get_balance b) x = Inr ((get_balance b)(mid := a))"
    and "balance_step b mid a h b'" and "h \<noteq> 0" and "h \<noteq> - 1"
  shows "run_ok b x"
proof -
  have "history_current b \<longrightarrow> history_current b'" using history_current_step assms(3-5) by blast
  with assms(1-3) show ?thesis by (simp add: run_ok_def balance_step_def)
qed

lemma run_ok_sameI:
  assumes "balance_run b x = Inr b" and "ledger_run (get_balance b) x = Inr (get_balance b)" and "bal_inv b"
  shows "run_ok b x"
  using assms by (simp add: run_ok_def)

lemma run_ok_errorI: "balance_run b x = Inl e \<Longrightarrow> ledger_run (get_balance b) x = Inl e \<Longrightarrow> run_ok b x"
  by (simp add: run_ok_def)

lemma credit_run_ok:
  assumes inv: "bal_inv b" and own: "m_accountState b = Some ah" and ok: "op_ok ah (Op_Credit mid amt h)"
  shows "run_ok b (Op_Credit mid amt h)"
proof -
  have acc: "accepts b h" and mid: "mid \<noteq> 0" and h: "h \<noteq> - 1" using ok own by (simp_all add: accepts_def)
  consider "h = 0" | "h \<noteq> 0" "amt = 0" | "h \<noteq> 0" "amt \<noteq> 0" by blast
  then show ?thesis
  proof cases
    case 1
    then show ?thesis by (intro run_ok_errorI) (auto simp: credit_def)
  next
    case 2
    then show ?thesis using inv by (intro run_ok_sameI) (auto simp: credit_def internalCredit_def IsZero_def)
  next
    case 3
    then obtain b' where b': "internalCredit b mid amt h = Inr b'"
      "balance_step b mid (get_balance b mid + amt) h b'"
      using internalCredit_spec [of b mid h amt] inv acc mid by metis
    show ?thesis by (rule run_ok_stepI [OF _ _ b'(2)]) (use 3 h b'(1) in \<open>simp_all add: credit_def\<close>)
  qed
qed

lemma debit_run_ok:
  assumes inv: "bal_inv b" and own: "m_accountState b = Some ah" and ok: "op_ok ah (Op_Debit mid amt h)"
  shows "run_ok b (Op_Debit mid amt h)"
proof -
  have acc: "accepts b h" and h: "h \<noteq> - 1" using ok own by (simp_all add: accepts_def)
  consider "h = 0" | "h \<noteq> 0" "amt = 0" | "h \<noteq> 0" "get_balance b mid < amt"
    | "h \<noteq> 0" "amt \<noteq> 0" "amt \<le> get_balance b mid" by fastforce
  then show ?thesis
  proof cases
    case 1
    then show ?thesis by (intro run_ok_errorI) (auto simp: debit_def)
  next
    case 2
    then show ?thesis using inv by (intro run_ok_sameI) (auto simp: debit_def internalDebit_def IsZero_def)
  next
    case 3
    then show ?thesis
      using internalDebit_insufficient [OF inv] by (intro run_ok_errorI) (simp_all add: debit_def)
  next
    case 4
    then obtain b' where b': "internalDebit b mid amt h = Inr b'"
      "balance_step b mid (get_balance b mid - amt) h b'"
      using internalDebit_spec [of b mid h amt] inv acc by metis
    show ?thesis by (rule run_ok_stepI [OF _ _ b'(2)]) (use 4 h b'(1) in \<open>simp_all add: debit_def not_less\<close>)
  qed
qed

lemma balance_run_ok:
  assumes "bal_inv b" and "m_accountState b = Some ah" and "op_ok ah x"
  shows "run_ok b x"
proof (cases x)
  case Op_Commit
  then show ?thesis using assms(1)
    by (simp add: run_ok_def commitSnapshots_inv history_current_commit
      get_balance_cong [OF commitSnapshots_sel(1)])
next
  case Op_CleanUp
  then show ?thesis using assms(1)
    by (simp add: run_ok_def maybeCleanUpSnapshots_inv history_current_cleanup
      get_balance_cong [OF maybeCleanUpSnapshots_sel(1)])
qed (use assms credit_run_ok debit_run_ok in blast)+

text \<open>A run of a whole sequence of operations.\<close>

definition balance_runs :: "balance_op list \<Rightarrow> account_balances \<Rightarrow> account_balances result" where
  "balance_runs ops = res_fold (\<lambda>x b. balance_run b x) ops"

lemma balance_runs_simulates:
  assumes "bal_inv b" and "m_accountState b = Some ah" and "\<forall>x \<in> set ops. op_ok ah x"
  shows "map_sum id get_balance (balance_runs ops b) = res_fold (\<lambda>x f. ledger_run f x) ops (get_balance b) \<and>
    (\<forall>b'. balance_runs ops b = Inr b' \<longrightarrow> bal_inv b' \<and> m_accountState b' = m_accountState b \<and>
      m_trackedMosaicId b' = m_trackedMosaicId b \<and> (history_current b \<longrightarrow> history_current b'))"
  using assms
proof (induction ops arbitrary: b)
  case (Cons x ops)
  have ok: "run_ok b x" using balance_run_ok Cons.prems by simp
  show ?case
  proof (cases "balance_run b x")
    case (Inl e)
    with ok have "Inl e = ledger_run (get_balance b) x" by (simp add: run_ok_def)
    from this [symmetric] Inl show ?thesis by (simp add: balance_runs_def)
  next
    case (Inr b1)
    with ok have b1: "bal_inv b1" "m_accountState b1 = Some ah" "m_trackedMosaicId b1 = m_trackedMosaicId b"
        "history_current b \<longrightarrow> history_current b1" and led: "ledger_run (get_balance b) x = Inr (get_balance b1)"
      using Cons.prems(2) by (auto simp: run_ok_def)
    show ?thesis using Cons.IH [OF b1(1,2)] Cons.prems(2,3) Inr b1 led by (simp add: balance_runs_def)
  qed
qed (simp add: balance_runs_def)

section \<open>The effective balance\<close>

text \<open>
  The snapshots that count at an effective height: the last one at or below it (the balance at
  the start of the window) and every later one; all of them when the history starts later.
\<close>

definition window :: "height \<Rightarrow> balance_snapshot list \<Rightarrow> balance_snapshot list" where
  "window eff xs =
     (let old = filter (\<lambda>s. BalanceHeight s \<le> eff) xs; new = filter (\<lambda>s. \<not> BalanceHeight s \<le> eff) xs
      in if old = [] then new else last old # new)"

abbreviation min_scan :: "height \<Rightarrow> balance_snapshot \<Rightarrow> balance_snapshot list \<Rightarrow> balance_snapshot" where
  "min_scan eff \<equiv> foldl (\<lambda>smallest it. if BalanceHeight it \<le> eff \<or> Amount it < Amount smallest
     then it else smallest)"

lemma min_scan_old: "\<forall>x \<in> set ys. BalanceHeight x \<le> eff \<Longrightarrow> min_scan eff s ys = last (s # ys)"
  by (induction ys arbitrary: s) auto

lemma min_scan_new:
  assumes "\<forall>x \<in> set ys. \<not> BalanceHeight x \<le> eff"
  shows "Amount (min_scan eff s ys) = Min (Amount ` set (s # ys))"
proof -
  have "min_scan eff s ys \<in> set (s # ys) \<and> (\<forall>x \<in> set (s # ys). Amount (min_scan eff s ys) \<le> Amount x)"
    using assms
  proof (induction ys arbitrary: s)
    case (Cons y ys)
    have IH: "min_scan eff t ys \<in> set (t # ys) \<and> (\<forall>x \<in> set (t # ys). Amount (min_scan eff t ys) \<le> Amount x)" for t
      using Cons by simp
    have "Amount (min_scan eff y ys) \<le> Amount s" if "Amount y < Amount s"
      using IH [of y] that order_trans [OF _ less_imp_le [OF that]] by simp
    moreover have "Amount (min_scan eff s ys) \<le> Amount y" if "\<not> Amount y < Amount s"
      using IH [of s] that order_trans [of _ "Amount s" "Amount y"] by (simp add: not_less)
    ultimately show ?case using IH [of y] IH [of s] Cons.prems by (cases "Amount y < Amount s") auto
  qed simp
  then show ?thesis by (intro Min_eqI [symmetric]) auto
qed

lemma sorted_snapshots_split:
  "sorted_wrt (<) (map BalanceHeight xs) \<Longrightarrow>
   xs = filter (\<lambda>s. BalanceHeight s \<le> eff) xs @ filter (\<lambda>s. \<not> BalanceHeight s \<le> eff) xs"
proof (induction xs)
  case (Cons x xs)
  have "filter (\<lambda>s. BalanceHeight s \<le> eff) xs = []" if "\<not> BalanceHeight x \<le> eff"
    using that Cons.prems by (force simp: filter_empty_conv)
  moreover have "filter (\<lambda>s. \<not> BalanceHeight s \<le> eff) xs = xs" if "\<not> BalanceHeight x \<le> eff"
    using that Cons.prems by (force simp: filter_id_conv)
  ultimately show ?case using Cons by auto
qed simp

lemma minSnapshot_window:
  assumes sorted: "sorted_wrt (<) (map BalanceHeight xs)" and ne: "xs \<noteq> []"
  shows "Amount (minSnapshot xs h ig) = Min (Amount ` set (window (effective_height h ig) xs))"
proof -
  let ?eff = "effective_height h ig"
  let ?old = "filter (\<lambda>s. BalanceHeight s \<le> ?eff) xs" and ?new = "filter (\<lambda>s. \<not> BalanceHeight s \<le> ?eff) xs"
  note split = sorted_snapshots_split [OF sorted, of ?eff]
  have eq: "minSnapshot xs h ig = min_scan ?eff (hd xs) (tl xs)"
    by (simp add: minSnapshot_def min_element_def Let_def)
  show ?thesis
  proof (cases ?old)
    case Nil
    then have new: "?new = xs" using split by simp
    then have "\<forall>x \<in> set (tl xs). \<not> BalanceHeight x \<le> ?eff"
      using Nil list.set_sel(2) [OF ne] by (auto simp: filter_empty_conv)
    then have "Amount (minSnapshot xs h ig) = Min (Amount ` set (hd xs # tl xs))"
      unfolding eq by (rule min_scan_new)
    with Nil new ne show ?thesis by (simp add: window_def del: set_simps)
  next
    case (Cons o1 os)
    have xs: "xs = o1 # (os @ ?new)" using split unfolding Cons by simp
    have "min_scan ?eff (hd xs) (tl xs) = min_scan ?eff (hd xs) (os @ ?new)"
      using arg_cong [OF xs, of tl] by simp
    also have "\<dots> = min_scan ?eff (min_scan ?eff o1 os) ?new"
      using arg_cong [OF xs, of hd] by simp
    also have "min_scan ?eff o1 os = last ?old"
    proof -
      have "\<forall>x \<in> set os. BalanceHeight x \<le> ?eff"
        using arg_cong [OF Cons, of set] by auto
      then show ?thesis unfolding Cons by (rule min_scan_old)
    qed
    finally have "minSnapshot xs h ig = min_scan ?eff (last ?old) ?new" using eq by simp
    moreover have "Amount (min_scan ?eff (last ?old) ?new) = Min (Amount ` set (last ?old # ?new))"
      by (rule min_scan_new) simp
    moreover have "window ?eff xs = last ?old # ?new" using Cons by (simp add: window_def Let_def)
    ultimately show ?thesis by simp
  qed
qed

lemma window_Nil [simp]: "window eff [] = []"
  by (simp add: window_def)

lemma window_not_Nil: "xs \<noteq> [] \<Longrightarrow> window eff xs \<noteq> []"
  by (auto simp: window_def Let_def filter_empty_conv)

lemma last_in_window:
  assumes "sorted_wrt (<) (map BalanceHeight xs)" and "xs \<noteq> []"
  shows "last xs \<in> set (window eff xs)"
proof -
  let ?old = "filter (\<lambda>s. BalanceHeight s \<le> eff) xs" and ?new = "filter (\<lambda>s. \<not> BalanceHeight s \<le> eff) xs"
  have "last xs = (if ?new = [] then last ?old else last ?new)"
    using sorted_snapshots_split [OF assms(1), of eff] by (metis append_Nil2 last_appendR)
  moreover have "?old \<noteq> []" if "?new = []"
    using that sorted_snapshots_split [OF assms(1), of eff] assms(2) by (metis append.right_neutral)
  ultimately show ?thesis
    using last_in_set [of ?new] by (cases "?new = []") (simp_all add: window_def Let_def del: set_filter)
qed

lemma getEffectiveBalance_window:
  assumes inv: "bal_inv b" and hist: "m_localSnapshots b @ m_remoteSnapshots b \<noteq> []"
  shows "getEffectiveBalance b h ig =
    Min (Amount ` set (window (effective_height h ig) (m_localSnapshots b) @
                       window (effective_height h ig) (m_remoteSnapshots b)))"
proof -
  have sorted: "sorted_wrt (<) (map BalanceHeight (m_localSnapshots b))"
    "sorted_wrt (<) (map BalanceHeight (m_remoteSnapshots b))"
    using inv by (auto simp: bal_inv_def snapshots_ok_def)
  show ?thesis
    using hist minSnapshot_window [OF sorted(1)] minSnapshot_window [OF sorted(2)] window_not_Nil
    by (auto simp: getEffectiveBalance_def image_Un Min.union)
qed

lemma filter_last_kept:
  assumes "sorted_wrt (<) (map BalanceHeight xs)" and "s \<in> set xs" and "st < BalanceHeight s"
  shows "filter (\<lambda>x. st < BalanceHeight x) xs \<noteq> []"
    and "last (filter (\<lambda>x. st < BalanceHeight x) xs) = last xs"
proof -
  show "filter (\<lambda>x. st < BalanceHeight x) xs \<noteq> []" using assms(2,3) by (auto simp: filter_empty_conv)
  obtain ys y where xs: "xs = ys @ [y]" using assms(2) by (metis empty_iff list.set(1) rev_exhaust)
  then have "BalanceHeight s \<le> BalanceHeight y" using assms(1,2) by (auto simp: sorted_wrt_append)
  with assms(3) xs show "last (filter (\<lambda>x. st < BalanceHeight x) xs) = last xs" by simp
qed

lemma dropWhile_sorted:
  "sorted_wrt (<) (map BalanceHeight xs) \<Longrightarrow>
   dropWhile (\<lambda>s. BalanceHeight s \<le> st) xs = filter (\<lambda>s. st < BalanceHeight s) xs"
proof (induction xs)
  case (Cons x xs)
  have "filter (\<lambda>s. st < BalanceHeight s) xs = xs" if "st < BalanceHeight x"
    using that Cons.prems by (force simp: filter_id_conv)
  with Cons show ?case by (auto simp: not_le)
qed simp

lemma window_cleanup:
  assumes sorted: "sorted_wrt (<) (map BalanceHeight xs)"
    and s: "s \<in> set xs" "st < BalanceHeight s" "BalanceHeight s \<le> eff"
  shows "window eff (dropWhile (\<lambda>s. BalanceHeight s \<le> st) xs) = window eff xs"
proof -
  let ?old = "filter (\<lambda>s. BalanceHeight s \<le> eff) xs"
  have old: "sorted_wrt (<) (map BalanceHeight ?old)" "s \<in> set ?old"
    using sorted s by (auto simp: sorted_wrt_map intro: sorted_wrt_filter)
  have "filter (\<lambda>x. BalanceHeight x \<le> eff) (filter (\<lambda>x. st < BalanceHeight x) xs) =
      filter (\<lambda>x. st < BalanceHeight x) ?old" by (simp add: conj_commute)
  moreover have "filter (\<lambda>x. \<not> BalanceHeight x \<le> eff) (filter (\<lambda>x. st < BalanceHeight x) xs) =
      filter (\<lambda>x. \<not> BalanceHeight x \<le> eff) xs" using s by (auto simp: intro!: filter_cong)
  moreover have "?old \<noteq> []" using old(2) by force
  ultimately show ?thesis
    using filter_last_kept [OF old s(2)] unfolding dropWhile_sorted [OF sorted] window_def Let_def by simp
qed

section \<open>Copying balances\<close>

lemma fold_insert_spec:
  assumes "map_inv m" and "distinct (map fst ms)" and "\<forall>p \<in> set ms. fst p \<noteq> 0 \<and> lookup m (fst p) = None"
  shows "\<exists>m'. res_fold (\<lambda>p m. insert_mosaic m p) ms m = Inr m' \<and> map_inv m' \<and>
    lookup m' = lookup m ++ map_of ms \<and> m_optimizedMosaicId m' = m_optimizedMosaicId m"
  using assms
proof (induction ms arbitrary: m)
  case (Cons p ms)
  obtain m1 where m1: "insert_mosaic m p = Inr m1" "map_inv m1" "lookup m1 = (lookup m)(fst p \<mapsto> snd p)"
      "m_optimizedMosaicId m1 = m_optimizedMosaicId m"
    by (rule lookup_insert_mosaic [OF Cons.prems(1), of p]) (use Cons.prems(3) in simp_all)
  have p: "fst p \<notin> fst ` set ms" "distinct (map fst ms)" using Cons.prems(2) by simp_all
  have new: "\<forall>q \<in> set ms. fst q \<noteq> 0 \<and> lookup m1 (fst q) = None"
  proof
    fix q assume q: "q \<in> set ms"
    then have "fst q \<noteq> fst p" using p(1) by (metis imageI)
    with q Cons.prems(3) show "fst q \<noteq> 0 \<and> lookup m1 (fst q) = None" by (simp add: m1(3))
  qed
  have "lookup m1 ++ map_of ms = lookup m ++ map_of (p # ms)"
    unfolding m1(3) using p(1) by (cases p) (simp add: map_add_upd_left dom_map_of_conv_image_fst)
  with Cons.IH [OF m1(2) p(2) new] m1(1,4) show ?case by (simp only: res_fold.simps res_bind_simps)
qed simp

lemma fold_push_spec:
  assumes "snapshots_ok (Some ah) xs" and "m_accountState b = Some ah"
  shows "res_fold (\<lambda>s b. pushSnapshot b s c) xs b =
    Inr (if c then b\<lparr>m_localSnapshots := m_localSnapshots b @ xs\<rparr>
         else b\<lparr>m_remoteSnapshots := m_remoteSnapshots b @ xs\<rparr>)"
  using assms
proof (induction xs arbitrary: b)
  case (Cons s xs)
  then have "snapshots_ok (Some ah) xs" and "\<not> BalanceHeight s + 1 < ah" by (auto simp: snapshots_ok_def)
  with Cons.IH Cons.prems(2) show ?case by (simp add: pushSnapshot_def)
qed simp

lemma assign_fresh_spec:
  assumes inv: "bal_inv src" and own: "m_accountState src = Some ah"
  shows "\<exists>b. assign_balances (AccountBalances (Some ah)) src = Inr b \<and> bal_inv b \<and>
    lookup (m_balances b) = lookup (m_balances src) \<and>
    b\<lparr>m_balances := m_balances src\<rparr> = src"
proof -
  let ?fresh = "AccountBalances (Some ah)"
  have m: "map_inv (m_balances src)" using inv by (simp add: bal_inv_def)
  have fresh: "m_balances ?fresh = empty_map" by (simp add: AccountBalances_def)
  obtain m0 where m0: "optimize_mosaic empty_map (m_optimizedId src) = Inr m0" "map_inv m0"
      "lookup m0 = lookup empty_map" "m_optimizedMosaicId m0 = m_optimizedId src"
    by (rule optimize_mosaic_spec [OF map_inv_empty_map, of "m_optimizedId src"]) (simp_all add: empty_map_def)
  have ms: "mosaics_of src = Inr (entries (m_balances src))"
    using iterate_entries [OF m, of "size_balances src + 1"] by (simp add: mosaics_of_def size_balances_def)
  have zero: "0 \<notin> fst ` set (entries (m_balances src))"
    using cmm.no_zero [OF m] by (simp add: lookup_def map_of_eq_None_fst)
  have new: "\<forall>p \<in> set (entries (m_balances src)). fst p \<noteq> 0 \<and> lookup m0 (fst p) = None"
    unfolding m0(3) lookup_empty_map using zero by (metis imageI)
  have all: "lookup m0 ++ map_of (entries (m_balances src)) = lookup (m_balances src)"
    unfolding m0(3) lookup_empty_map by (simp add: lookup_def)
  obtain m1 where m1: "res_fold (\<lambda>p m. insert_mosaic m p) (entries (m_balances src)) m0 = Inr m1" "map_inv m1"
      "lookup m1 = lookup (m_balances src)" "m_optimizedMosaicId m1 = m_optimizedId src"
    using fold_insert_spec [OF m0(2) map_inv_distinct [OF m] new, unfolded all m0(4)]
    by (elim exE conjE) (rule that)
  have ok: "snapshots_ok (Some ah) (m_localSnapshots src)" "snapshots_ok (Some ah) (m_remoteSnapshots src)"
    using inv own by (auto simp: bal_inv_def)
  let ?b = "src\<lparr>m_balances := m1\<rparr>"
  have "assign_balances ?fresh src = Inr ?b"
    unfolding assign_balances_def fresh m0(1) ms res_bind_simps m1(1)
    using own by (simp add: fold_push_spec [OF ok(1)] fold_push_spec [OF ok(2)] AccountBalances_def)
  moreover have "bal_inv ?b" using inv m1 by (simp add: bal_inv_def)
  ultimately show ?thesis using m1(3) by simp
qed

section \<open>Properties\<close>


definition example_account :: account_balances where
  "example_account = (AccountBalances (Some 1))\<lparr>m_trackedMosaicId := 5\<rparr>"

lemma example_account_inv: "bal_inv example_account"
  by (simp add: example_account_def AccountBalances_def bal_inv_def snapshots_ok_def map_inv_empty_map)
    (simp add: empty_map_def)

lemma example_account_owner: "m_accountState example_account = Some 1"
  by (simp add: example_account_def AccountBalances_def)

lemma example_account_balance: "get_balance example_account = (\<lambda>_. 0)"
  using get_balance_fun [OF example_account_inv]
  by (simp add: example_account_def AccountBalances_def cmm.bal_def lookup_empty_map fun_eq_iff)


text \<open>
  C5. The effective balance, which decides an account's importance, is the smallest balance of the
  account in the window: with a non-empty history, \<^verbatim>\<open>getEffectiveBalance\<close> returns the minimum of
  the snapshots of the local and of the remote history that count at the effective height (the
  last one at or below it and all later ones), although the comparison it hands to
  \<^verbatim>\<open>std::min_element\<close> is not an order.
\<close>

theorem effective_balance_is_window_minimum:
  assumes "bal_inv b" and "m_localSnapshots b @ m_remoteSnapshots b \<noteq> []"
  shows "getEffectiveBalance b h ig =
    Min (Amount ` set (window (effective_height h ig) (m_localSnapshots b) @
                       window (effective_height h ig) (m_remoteSnapshots b)))"
  by (rule getEffectiveBalance_window [OF assms])

definition example_history :: account_balances where
  "example_history = example_account\<lparr>m_localSnapshots :=
     [\<lparr>Amount = 3, BalanceHeight = 1\<rparr>, \<lparr>Amount = 50, BalanceHeight = 4\<rparr>, \<lparr>Amount = 100, BalanceHeight = 20\<rparr>]\<rparr>"

lemma example_history_inv: "bal_inv example_history"
  using example_account_inv example_account_owner
  by (simp add: example_history_def bal_inv_def snapshots_ok_def)

lemma example_history_remote: "m_remoteSnapshots example_history = []"
  by (simp add: example_history_def example_account_def AccountBalances_def)

theorem effective_balance_witness: "getEffectiveBalance example_history 25 10 = 50"
  using effective_balance_is_window_minimum [OF example_history_inv, of 25 10] example_history_remote
  by (simp add: example_history_def effective_height_def window_def)



text \<open>
  C29. Committing the remote snapshots does not change the effective balance, as long as none of
  them has left the window: at every height whose effective height lies below the first remote
  snapshot, the merged history gives the value the two separate histories gave once the local
  snapshots of rolled back blocks are gone.
\<close>

theorem commit_keeps_effective_balance:
  assumes inv: "bal_inv b" and remote: "m_remoteSnapshots b = f # r"
    and new: "effective_height h ig < BalanceHeight f"
  shows "getEffectiveBalance (commitSnapshots b) h ig =
    getEffectiveBalance (b\<lparr>m_localSnapshots :=
      filter (\<lambda>s. BalanceHeight s < BalanceHeight f) (m_localSnapshots b)\<rparr>) h ig"
proof -
  let ?eff = "effective_height h ig"
  let ?local = "filter (\<lambda>s. BalanceHeight s < BalanceHeight f) (m_localSnapshots b)"
  let ?P = "\<lambda>s. ?local \<noteq> [] \<and> Amount (last ?local) = Amount s"
  let ?b = "b\<lparr>m_localSnapshots := ?local\<rparr>"
  have ok: "snapshots_ok (m_accountState b) (m_localSnapshots b)" "snapshots_ok (m_accountState b) (f # r)"
    using inv remote by (auto simp: bal_inv_def)
  have okl: "snapshots_ok (m_accountState b) ?local" by (rule snapshots_ok_filter [OF ok(1)])
  have b: "bal_inv ?b" using inv okl by (simp add: bal_inv_def)
  have late: "\<forall>s \<in> set (f # r). \<not> BalanceHeight s \<le> ?eff"
    using snapshots_ok_front [OF ok(2)] new by (meson not_le order_less_le_trans)
  then have late': "\<forall>s \<in> set (dropWhile ?P (f # r)). \<not> BalanceHeight s \<le> ?eff"
    by (meson set_dropWhileD)
  have win: "window ?eff (xs @ ys) = window ?eff xs @ ys" if "\<forall>s \<in> set ys. \<not> BalanceHeight s \<le> ?eff" for xs ys
    using that by (auto simp: window_def Let_def filter_empty_conv filter_id_conv)
  have "Amount ` set (window ?eff ?local @ dropWhile ?P (f # r)) = Amount ` set (window ?eff ?local @ (f # r))"
  proof (cases "?local = []")
    case False
    then have "last ?local \<in> set (window ?eff ?local)"
      using last_in_window okl by (simp add: snapshots_ok_def)
    moreover have "Amount ` set (takeWhile ?P (f # r)) \<subseteq> {Amount (last ?local)}"
      by (auto dest: set_takeWhileD)
    moreover have "set (f # r) = set (takeWhile ?P (f # r)) \<union> set (dropWhile ?P (f # r))"
      by (metis set_append takeWhile_dropWhile_id)
    ultimately show ?thesis by (simp only: set_append image_Un) blast
  qed simp
  then show ?thesis
    using getEffectiveBalance_window [OF commitSnapshots_inv [OF inv], of h ig]
      getEffectiveBalance_window [OF b, of h ig] win [OF late'] win [OF late, of "[]"] remote
    by (simp add: commitSnapshots_eq [OF ok(1) remote] Let_def del: set_append dropWhile.simps)
qed

theorem commit_witness:
  "let b = example_history\<lparr>m_remoteSnapshots := [\<lparr>Amount = 100, BalanceHeight = 22\<rparr>, \<lparr>Amount = 40, BalanceHeight = 23\<rparr>]\<rparr>
   in getEffectiveBalance (commitSnapshots b) 25 10 = getEffectiveBalance b 25 10 \<and>
      length (m_localSnapshots (commitSnapshots b)) = 4"
proof -
  let ?b = "example_history\<lparr>m_remoteSnapshots := [\<lparr>Amount = 100, BalanceHeight = 22\<rparr>, \<lparr>Amount = 40, BalanceHeight = 23\<rparr>]\<rparr>"
  have inv: "bal_inv ?b"
    using example_history_inv example_account_owner
    by (simp add: bal_inv_def snapshots_ok_def example_history_def)
  have "getEffectiveBalance (commitSnapshots ?b) 25 10 = getEffectiveBalance ?b 25 10"
    using commit_keeps_effective_balance [OF inv, of "\<lparr>Amount = 100, BalanceHeight = 22\<rparr>"
        "[\<lparr>Amount = 40, BalanceHeight = 23\<rparr>]" 25 10]
    by (simp add: effective_height_def example_history_def example_account_def AccountBalances_def)
  then show ?thesis
    by (simp add: Let_def) (simp add: commitSnapshots_def example_history_def pop_back_while_def)
qed

text \<open>
  C30. Cleaning up old snapshots at a block leaves the effective balance unchanged at every height whose window still starts at a local snapshot that survives the
  clean-up (one above the stable height and at or below the effective height).
\<close>

theorem cleanup_keeps_effective_balance:
  assumes inv: "bal_inv b" and unst: "ig + mr < h"
    and s: "s \<in> set (m_localSnapshots b)" "h - (ig + mr) < BalanceHeight s"
      "BalanceHeight s \<le> effective_height h' ig"
  shows "getEffectiveBalance (maybeCleanUpSnapshots b h ig mr) h' ig = getEffectiveBalance b h' ig"
proof -
  let ?l = "dropWhile (\<lambda>s. BalanceHeight s \<le> h - (ig + mr)) (m_localSnapshots b)"
  have eq: "maybeCleanUpSnapshots b h ig mr = b\<lparr>m_localSnapshots := ?l\<rparr>"
    using unst by (simp add: maybeCleanUpSnapshots_def Let_def)
  have sorted: "sorted_wrt (<) (map BalanceHeight (m_localSnapshots b))"
    using inv by (simp add: bal_inv_def snapshots_ok_def)
  note win = window_cleanup [OF sorted s]
  have "?l \<noteq> []" using s(1,2) by (auto simp: dropWhile_eq_Nil_conv not_le)
  then have ne: "m_localSnapshots (b\<lparr>m_localSnapshots := ?l\<rparr>) @ m_remoteSnapshots (b\<lparr>m_localSnapshots := ?l\<rparr>) \<noteq> []"
    by simp
  have ne': "m_localSnapshots b @ m_remoteSnapshots b \<noteq> []" using s(1) by auto
  show ?thesis
    using getEffectiveBalance_window [OF maybeCleanUpSnapshots_inv [OF inv, of h ig mr, unfolded eq] ne, of h' ig]
      getEffectiveBalance_window [OF inv ne', of h' ig] win eq by simp
qed

theorem cleanup_witness:
  "getEffectiveBalance (maybeCleanUpSnapshots example_history 15 10 2) 25 10 = 50 \<and>
   length (m_localSnapshots (maybeCleanUpSnapshots example_history 15 10 2)) = 2"
proof -
  have "getEffectiveBalance (maybeCleanUpSnapshots example_history 15 10 2) 25 10 = getEffectiveBalance example_history 25 10"
    by (rule cleanup_keeps_effective_balance [OF example_history_inv, where s = "\<lparr>Amount = 50, BalanceHeight = 4\<rparr>"])
      (simp_all add: example_history_def effective_height_def)
  moreover have "getEffectiveBalance example_history 25 10 = 50"
    using getEffectiveBalance_window [OF example_history_inv, of 25 10] example_history_remote
    by (simp add: example_history_def effective_height_def window_def)
  ultimately show ?thesis by (simp add: maybeCleanUpSnapshots_def example_history_def)
qed


text \<open>
  C32. Copying an account is a deep copy: for a well-formed account whose balances point back to it,
  the copy succeeds, has the same balance of every mosaic, the same histories and the same optimized
  and tracked ids (only the layout of the mosaic storage is rebuilt), and is well formed.
\<close>

theorem copy_account_state_is_faithful:
  assumes inv: "bal_inv (Balances a)" and own: "m_accountState (Balances a) = Some (AddressHeight a)"
  shows "\<exists>c. copy_account_state a = Inr c \<and> bal_inv (Balances c) \<and>
    get_balance (Balances c) = get_balance (Balances a) \<and>
    m_localSnapshots (Balances c) = m_localSnapshots (Balances a) \<and>
    m_remoteSnapshots (Balances c) = m_remoteSnapshots (Balances a) \<and>
    m_trackedMosaicId (Balances c) = m_trackedMosaicId (Balances a) \<and>
    m_optimizedId (Balances c) = m_optimizedId (Balances a) \<and>
    c\<lparr>Balances := Balances a\<rparr> = a"
proof -
  obtain b where b: "assign_balances (AccountBalances (Some (AddressHeight a))) (Balances a) = Inr b"
      "bal_inv b" "lookup (m_balances b) = lookup (m_balances (Balances a))"
      "b\<lparr>m_balances := m_balances (Balances a)\<rparr> = Balances a"
    using assign_fresh_spec [OF inv own] by (elim exE conjE) (rule that)
  have "get_balance b = get_balance (Balances a)"
    using b(3) by (simp add: get_balance_fun [OF b(2)] get_balance_fun [OF inv] cmm.bal_def fun_eq_iff)
  moreover have "m_localSnapshots b = m_localSnapshots (Balances a)" "m_remoteSnapshots b = m_remoteSnapshots (Balances a)"
    "m_trackedMosaicId b = m_trackedMosaicId (Balances a)" "m_optimizedId b = m_optimizedId (Balances a)"
    using arg_cong [OF b(4), of m_localSnapshots] arg_cong [OF b(4), of m_remoteSnapshots]
      arg_cong [OF b(4), of m_trackedMosaicId] arg_cong [OF b(4), of m_optimizedId] by simp_all
  ultimately show ?thesis using b(1,2) by (simp add: copy_account_state_def)
qed

theorem copy_account_state_witness:
  "let a = (AccountState (0 :: nat) (7 :: nat) 1)\<lparr>Balances := example_history\<rparr> in
   \<exists>c. copy_account_state a = Inr c \<and> m_localSnapshots (Balances c) = m_localSnapshots example_history \<and> Address c = 7"
proof -
  let ?a = "(AccountState (0 :: nat) (7 :: nat) 1)\<lparr>Balances := example_history\<rparr>"
  have "bal_inv (Balances ?a)" "m_accountState (Balances ?a) = Some (AddressHeight ?a)"
    using example_history_inv example_account_owner by (simp_all add: AccountState_def example_history_def)
  from copy_account_state_is_faithful [OF this]
  obtain c where c: "copy_account_state ?a = Inr c" "m_localSnapshots (Balances c) = m_localSnapshots (Balances ?a)"
      "c\<lparr>Balances := Balances ?a\<rparr> = ?a"
    by (elim exE conjE) (rule that)
  have "Address c = 7" using arg_cong [OF c(3), of Address] by (simp add: AccountState_def)
  with c(1,2) show ?thesis by (simp add: Let_def)
qed

end
