(* ===== verification/Delta_Set.thy ===== *)
theory Delta_Set
  imports Catapult_Prelude
begin

text \<open>
  Base sets and their deltas (\<^verbatim>\<open>src/catapult/deltaset\<close>), the containers behind every cache of the
  chain state. A base set holds the committed elements; a delta records the changes of the blocks
  that are being processed in three containers (added, removed, copied) next to the original
  elements, remembers the generation in which each key was last touched, and can be backed up and
  restored. A commit folds the three containers into the base set.

  An element is a pair of its key and its value (\<^verbatim>\<open>TSetTraits::ToKey\<close>, \<^verbatim>\<open>ToValue\<close>); for the plain
  sets of the code the value is trivial. The memory containers (\<^verbatim>\<open>std::map\<close>,
  \<^verbatim>\<open>std::unordered_map\<close>, \<^verbatim>\<open>std::set\<close>) are association lists with distinct keys in iteration order.
\<close>

section \<open>Containers\<close>

type_synonym ('k, 'v) container = "('k \<times> 'v) list"

definition Contains :: "('k, 'v) container \<Rightarrow> 'k \<Rightarrow> bool" where
  "Contains c k \<longleftrightarrow> map_of c k \<noteq> None"

definition cont_insert :: "'k \<times> 'v \<Rightarrow> ('k, 'v) container \<Rightarrow> ('k, 'v) container" where
  "cont_insert p c = (if Contains c (fst p) then c else c @ [p])"

definition cont_erase :: "'k \<Rightarrow> ('k, 'v) container \<Rightarrow> ('k, 'v) container" where
  "cont_erase k c = filter (\<lambda>p. fst p \<noteq> k) c"

definition cont_put :: "'k \<Rightarrow> 'v \<Rightarrow> ('k, 'v) container \<Rightarrow> ('k, 'v) container" where
  "cont_put k v c = cont_insert (k, v) (cont_erase k c)"

declare map_of_eq_Some_iff [simp del] Some_eq_map_of_iff [simp del]

lemma Contains_iff: "Contains c k \<longleftrightarrow> k \<in> fst ` set c"
  by (simp add: Contains_def map_of_eq_None_fst)

lemma map_of_cont_insert: "map_of (cont_insert p c) = (if Contains c (fst p) then map_of c else (map_of c)(fst p \<mapsto> snd p))"
  by (auto simp: cont_insert_def Contains_def fun_eq_iff map_add_def split: option.split)

lemma map_of_cont_erase [simp]: "map_of (cont_erase k c) = (map_of c)(k := None)"
  by (induction c) (auto simp: cont_erase_def fun_eq_iff)

lemma map_of_cont_put [simp]: "map_of (cont_put k v c) = (map_of c)(k \<mapsto> v)"
  by (simp add: cont_put_def map_of_cont_insert Contains_def)

lemma distinct_cont_insert [simp]: "distinct (map fst (cont_insert p c)) \<longleftrightarrow> distinct (map fst c)"
  by (auto simp: cont_insert_def Contains_iff)

lemma distinct_cont_erase [simp]: "distinct (map fst c) \<Longrightarrow> distinct (map fst (cont_erase k c))"
  by (simp add: cont_erase_def distinct_map_filter)

lemma distinct_cont_put [simp]: "distinct (map fst c) \<Longrightarrow> distinct (map fst (cont_put k v c))"
  by (simp add: cont_put_def)

lemma Contains_cont_insert [simp]: "Contains (cont_insert p c) k \<longleftrightarrow> k = fst p \<or> Contains c k"
  by (auto simp: Contains_def map_of_cont_insert)

lemma Contains_cont_erase [simp]: "Contains (cont_erase k c) j \<longleftrightarrow> j \<noteq> k \<and> Contains c j"
  by (auto simp: Contains_def)

lemma Contains_cont_put [simp]: "Contains (cont_put k v c) j \<longleftrightarrow> j = k \<or> Contains c j"
  by (auto simp: Contains_def)

lemma Contains_Nil [simp]: "\<not> Contains [] k"
  by (simp add: Contains_def)

section \<open>The delta\<close>

text \<open>\<^verbatim>\<open>MutableTypeTag\<close> and \<^verbatim>\<open>ImmutableTypeTag\<close> select the overloads.\<close>

datatype mutability_tag = MutableTypeTag | ImmutableTypeTag

datatype insert_result = Unremoved | Updated | InsertRedundant | Inserted

datatype remove_result = RemoveNone | Unmodified_And_Removed | Uninserted | RemoveRedundant | Removed

record ('k, 'v) base_set_delta =
  m_addedElements :: "('k, 'v) container"
  m_removedElements :: "('k, 'v) container"
  m_copiedElements :: "('k, 'v) container"
  m_generationId :: u32
  m_keyGenerationIdMap :: "('k, u32) container"
  m_addedElementsBackup :: "('k, 'v) container list"
  m_removedElementsBackup :: "('k, 'v) container list"
  m_copiedElementsBackup :: "('k, 'v) container list"
  m_keyGenerationIdMapBackup :: "('k, u32) container list"

text \<open>The reference \<^verbatim>\<open>m_originalElements\<close> of the code is the argument \<open>orig\<close> of the operations.\<close>

definition BaseSetDelta :: "('k, 'v) base_set_delta" where
  "BaseSetDelta = \<lparr>m_addedElements = [], m_removedElements = [], m_copiedElements = [],
     m_generationId = 1, m_keyGenerationIdMap = [], m_addedElementsBackup = [],
     m_removedElementsBackup = [], m_copiedElementsBackup = [], m_keyGenerationIdMapBackup = []\<rparr>"

text \<open>
  \<^verbatim>\<open>size_t\<close> arithmetic: the subtraction comes first and may wrap, since an element that was added
  and removed again is in both containers.
\<close>

definition size_delta :: "('k, 'v) container \<Rightarrow> ('k, 'v) base_set_delta \<Rightarrow> u64" where
  "size_delta orig d =
     of_nat (length orig) - of_nat (length (m_removedElements d)) + of_nat (length (m_addedElements d))"

definition empty_delta :: "('k, 'v) container \<Rightarrow> ('k, 'v) base_set_delta \<Rightarrow> bool" where
  "empty_delta orig d \<longleftrightarrow> 0 = size_delta orig d"

definition markKey :: "'k \<Rightarrow> ('k, 'v) base_set_delta \<Rightarrow> ('k, 'v) base_set_delta" where
  "markKey k d = d\<lparr>m_keyGenerationIdMap := cont_put k (m_generationId d) (m_keyGenerationIdMap d)\<rparr>"

definition clearKey :: "'k \<Rightarrow> ('k, 'v) base_set_delta \<Rightarrow> ('k, 'v) base_set_delta" where
  "clearKey k d = d\<lparr>m_keyGenerationIdMap := cont_erase k (m_keyGenerationIdMap d)\<rparr>"

definition key_generationId :: "('k, 'v) base_set_delta \<Rightarrow> 'k \<Rightarrow> u32" where
  "key_generationId d k = (case map_of (m_keyGenerationIdMap d) k of None \<Rightarrow> 0 | Some g \<Rightarrow> g)"

definition incrementGenerationId :: "('k, 'v) base_set_delta \<Rightarrow> ('k, 'v) base_set_delta" where
  "incrementGenerationId d = d\<lparr>m_generationId := m_generationId d + 1\<rparr>"

text \<open>The const overload of \<^verbatim>\<open>find\<close>.\<close>

definition find_const_tag ::
  "mutability_tag \<Rightarrow> ('k, 'v) container \<Rightarrow> ('k, 'v) base_set_delta \<Rightarrow> 'k \<Rightarrow> 'v option" where
  "find_const_tag tag orig d k =
     (case tag of
        ImmutableTypeTag \<Rightarrow> map_of orig k
      | MutableTypeTag \<Rightarrow> (case map_of (m_copiedElements d) k of Some v \<Rightarrow> Some v | None \<Rightarrow> map_of orig k))"

definition find_const ::
  "mutability_tag \<Rightarrow> ('k, 'v) container \<Rightarrow> ('k, 'v) base_set_delta \<Rightarrow> 'k \<Rightarrow> 'v option" where
  "find_const tag orig d k =
     (if Contains (m_removedElements d) k then None
      else case find_const_tag tag orig d k of
        Some v \<Rightarrow> Some v | None \<Rightarrow> map_of (m_addedElements d) k)"

text \<open>
  The non-const overload copies an original element before it hands out an iterator to it (the
  caller may modify the copy) and marks the key when the elements are mutable.
\<close>

definition find_tag ::
  "mutability_tag \<Rightarrow> ('k, 'v) container \<Rightarrow> 'k \<Rightarrow> ('k, 'v) base_set_delta \<Rightarrow> 'v option \<times> ('k, 'v) base_set_delta" where
  "find_tag tag orig k d =
     (case tag of
        ImmutableTypeTag \<Rightarrow> (map_of orig k, d)
      | MutableTypeTag \<Rightarrow>
         (case map_of (m_copiedElements d) k of
            Some v \<Rightarrow> (Some v, d)
          | None \<Rightarrow>
             (case map_of orig k of
                None \<Rightarrow> (None, d)
              | Some v \<Rightarrow> (Some v, d\<lparr>m_copiedElements := cont_insert (k, v) (m_copiedElements d)\<rparr>))))"

definition find_delta ::
  "mutability_tag \<Rightarrow> ('k, 'v) container \<Rightarrow> 'k \<Rightarrow> ('k, 'v) base_set_delta \<Rightarrow> 'v option \<times> ('k, 'v) base_set_delta" where
  "find_delta tag orig k d =
     (if Contains (m_removedElements d) k then (None, d)
      else
        let (found, d1) = find_tag tag orig k d;
            res = (case found of Some v \<Rightarrow> Some v | None \<Rightarrow> map_of (m_addedElements d1) k)
        in (res, if res \<noteq> None \<and> tag = MutableTypeTag then markKey k d1 else d1))"

text \<open>A write through the iterator that the non-const \<^verbatim>\<open>find\<close> of a mutable set returned.\<close>

definition write_found :: "'k \<Rightarrow> 'v \<Rightarrow> ('k, 'v) base_set_delta \<Rightarrow> ('k, 'v) base_set_delta" where
  "write_found k v d =
     (if Contains (m_copiedElements d) k then d\<lparr>m_copiedElements := cont_put k v (m_copiedElements d)\<rparr>
      else d\<lparr>m_addedElements := cont_put k v (m_addedElements d)\<rparr>)"

definition contains_delta :: "('k, 'v) container \<Rightarrow> ('k, 'v) base_set_delta \<Rightarrow> 'k \<Rightarrow> bool" where
  "contains_delta orig d k \<longleftrightarrow>
     \<not> Contains (m_removedElements d) k \<and> (Contains (m_addedElements d) k \<or> Contains orig k)"

definition insert_mutable ::
  "('k, 'v) container \<Rightarrow> 'k \<times> 'v \<Rightarrow> ('k, 'v) base_set_delta \<Rightarrow> insert_result \<times> ('k, 'v) base_set_delta" where
  "insert_mutable orig p d =
     (let k = fst p; v = snd p; d1 = markKey k d
      in if Contains (m_removedElements d1) k then
           let d2 = d1\<lparr>m_removedElements := cont_erase k (m_removedElements d1)\<rparr>
           in (Unremoved,
               if Contains (m_addedElements d2) k
               then d2\<lparr>m_addedElements := cont_put k v (m_addedElements d2)\<rparr>
               else d2\<lparr>m_copiedElements := cont_put k v (m_copiedElements d2)\<rparr>)
         else if Contains orig k then
           (Updated, d1\<lparr>m_copiedElements := cont_put k v (m_copiedElements d1)\<rparr>)
         else
           (if Contains (m_addedElements d1) k then Updated else Inserted,
            d1\<lparr>m_addedElements := cont_put k v (m_addedElements d1)\<rparr>))"

definition insert_immutable ::
  "('k, 'v) container \<Rightarrow> 'k \<times> 'v \<Rightarrow> ('k, 'v) base_set_delta \<Rightarrow> insert_result \<times> ('k, 'v) base_set_delta" where
  "insert_immutable orig p d =
     (let k = fst p
      in if Contains (m_removedElements d) k then
           let d1 = (if Contains (m_addedElements d) k then markKey k d else clearKey k d)
           in (Unremoved, d1\<lparr>m_removedElements := cont_erase k (m_removedElements d1)\<rparr>)
         else if Contains orig k \<or> Contains (m_addedElements d) k then (InsertRedundant, d)
         else
           let d1 = markKey k d
           in (Inserted, d1\<lparr>m_addedElements := cont_insert p (m_addedElements d1)\<rparr>))"

definition insert_delta ::
  "mutability_tag \<Rightarrow> ('k, 'v) container \<Rightarrow> 'k \<times> 'v \<Rightarrow> ('k, 'v) base_set_delta \<Rightarrow>
   insert_result \<times> ('k, 'v) base_set_delta" where
  "insert_delta tag orig p d =
     (case tag of MutableTypeTag \<Rightarrow> insert_mutable orig p d | ImmutableTypeTag \<Rightarrow> insert_immutable orig p d)"

definition remove_immutable ::
  "('k, 'v) container \<Rightarrow> 'k \<Rightarrow> ('k, 'v) base_set_delta \<Rightarrow> remove_result \<times> ('k, 'v) base_set_delta" where
  "remove_immutable orig k d =
     (case map_of (m_addedElements d) k of
        Some v \<Rightarrow>
          let d1 = markKey k d
          in (Uninserted, d1\<lparr>m_removedElements := cont_insert (k, v) (m_removedElements d1)\<rparr>)
      | None \<Rightarrow>
         (case map_of orig k of
            Some v \<Rightarrow>
              let d1 = markKey k d
              in (Removed, d1\<lparr>m_removedElements := cont_insert (k, v) (m_removedElements d1)\<rparr>)
          | None \<Rightarrow> (RemoveNone, d)))"

definition remove_mutable ::
  "('k, 'v) container \<Rightarrow> 'k \<Rightarrow> ('k, 'v) base_set_delta \<Rightarrow> remove_result \<times> ('k, 'v) base_set_delta" where
  "remove_mutable orig k d =
     (case map_of (m_copiedElements d) k of
        Some v \<Rightarrow>
          let d1 = markKey k d
          in (Unmodified_And_Removed,
              d1\<lparr>m_removedElements := cont_insert (k, v) (m_removedElements d1),
                 m_copiedElements := cont_erase k (m_copiedElements d1)\<rparr>)
      | None \<Rightarrow> remove_immutable orig k d)"

definition remove_delta ::
  "mutability_tag \<Rightarrow> ('k, 'v) container \<Rightarrow> 'k \<Rightarrow> ('k, 'v) base_set_delta \<Rightarrow>
   remove_result \<times> ('k, 'v) base_set_delta" where
  "remove_delta tag orig k d =
     (if Contains (m_removedElements d) k then (RemoveRedundant, d)
      else case tag of
        MutableTypeTag \<Rightarrow> remove_mutable orig k d | ImmutableTypeTag \<Rightarrow> remove_immutable orig k d)"

subsection \<open>Backup, restore and reset\<close>

definition backupChanges :: "bool \<Rightarrow> ('k, 'v) base_set_delta \<Rightarrow> ('k, 'v) base_set_delta" where
  "backupChanges replace d =
     (let d1 = (if replace then
          d\<lparr>m_addedElementsBackup := [], m_removedElementsBackup := [], m_copiedElementsBackup := [],
             m_keyGenerationIdMapBackup := []\<rparr> else d)
      in d1\<lparr>m_addedElementsBackup := m_addedElementsBackup d1 @ [m_addedElements d1],
            m_removedElementsBackup := m_removedElementsBackup d1 @ [m_removedElements d1],
            m_copiedElementsBackup := m_copiedElementsBackup d1 @ [m_copiedElements d1],
            m_keyGenerationIdMapBackup := m_keyGenerationIdMapBackup d1 @ [m_keyGenerationIdMap d1]\<rparr>)"

definition RestoreElements :: "'a list list \<Rightarrow> 'a list \<times> 'a list list" where
  "RestoreElements backup = (if backup = [] then ([], backup) else (last backup, butlast backup))"

definition restoreChanges :: "('k, 'v) base_set_delta \<Rightarrow> ('k, 'v) base_set_delta" where
  "restoreChanges d =
     (let (a, ab) = RestoreElements (m_addedElementsBackup d);
          (r, rb) = RestoreElements (m_removedElementsBackup d);
          (c, cb) = RestoreElements (m_copiedElementsBackup d);
          (g, gb) = RestoreElements (m_keyGenerationIdMapBackup d)
      in d\<lparr>m_addedElements := a, m_addedElementsBackup := ab, m_removedElements := r,
           m_removedElementsBackup := rb, m_copiedElements := c, m_copiedElementsBackup := cb,
           m_keyGenerationIdMap := g, m_keyGenerationIdMapBackup := gb\<rparr>)"

definition reset_delta :: "('k, 'v) base_set_delta \<Rightarrow> ('k, 'v) base_set_delta" where
  "reset_delta d = d\<lparr>m_addedElements := [], m_removedElements := [], m_copiedElements := [],
     m_generationId := 1, m_keyGenerationIdMap := [], m_addedElementsBackup := [],
     m_removedElementsBackup := [], m_copiedElementsBackup := [], m_keyGenerationIdMapBackup := []\<rparr>"

subsection \<open>The changes and their commit\<close>

record ('k, 'v) delta_elements =
  Added :: "('k, 'v) container"
  RemovedElems :: "('k, 'v) container"
  Copied :: "('k, 'v) container"

definition deltas :: "('k, 'v) base_set_delta \<Rightarrow> ('k, 'v) delta_elements" where
  "deltas d = \<lparr>Added = m_addedElements d, RemovedElems = m_removedElements d, Copied = m_copiedElements d\<rparr>"

definition HasChanges :: "('k, 'v) delta_elements \<Rightarrow> bool" where
  "HasChanges e \<longleftrightarrow> \<not> (Added e = [] \<and> Copied e = [] \<and> RemovedElems e = [])"

definition update_copied :: "'k \<times> 'v \<Rightarrow> ('k, 'v) container \<Rightarrow> ('k, 'v) container result" where
  "update_copied element elements =
     (if \<not> Contains elements (fst element)
      then Inl (InvalidArgument ''element not found, cannot update'')
      else Inr (cont_insert element (cont_erase (fst element) elements)))"

definition UpdateSet ::
  "('k, 'v) container \<Rightarrow> ('k, 'v) delta_elements \<Rightarrow> ('k, 'v) container result" where
  "UpdateSet elements e =
     res_bind (res_fold update_copied (Copied e) (fold cont_insert (Added e) elements)) (\<lambda>els.
     Inr (fold (\<lambda>element. cont_erase (fst element)) (RemovedElems e) els))"

text \<open>\<^verbatim>\<open>PruneBaseSet\<close> of an ordered set: everything below the boundary goes.\<close>

definition PruneBaseSet :: "('k::linorder, 'v) container \<Rightarrow> 'k \<Rightarrow> ('k, 'v) container" where
  "PruneBaseSet elements boundary = filter (\<lambda>p. \<not> fst p < boundary) elements"

definition OrderedSet_Update ::
  "('k::linorder, 'v) container \<Rightarrow> ('k, 'v) delta_elements \<Rightarrow> 'k option \<Rightarrow> ('k, 'v) container result" where
  "OrderedSet_Update elements e pruningBoundary =
     res_bind (UpdateSet elements e) (\<lambda>els.
     Inr (case pruningBoundary of None \<Rightarrow> els | Some b \<Rightarrow> PruneBaseSet els b))"

text \<open>
  The base set with its attached delta; the weak pointer is live exactly while the delta exists.
\<close>

record ('k, 'v) base_set =
  m_elements :: "('k, 'v) container"
  m_pWeakDelta :: "('k, 'v) base_set_delta option"

definition rebase :: "('k, 'v) base_set \<Rightarrow> ('k, 'v) base_set result" where
  "rebase s =
     (case m_pWeakDelta s of
        Some _ \<Rightarrow> Inl (RuntimeError ''only a single attached delta is allowed at a time'')
      | None \<Rightarrow> Inr (s\<lparr>m_pWeakDelta := Some BaseSetDelta\<rparr>))"

definition rebaseDetached :: "('k, 'v) base_set \<Rightarrow> ('k, 'v) base_set_delta" where
  "rebaseDetached s = BaseSetDelta"

definition commit :: "('k, 'v) base_set \<Rightarrow> ('k, 'v) base_set result" where
  "commit s =
     (case m_pWeakDelta s of
        None \<Rightarrow> Inl (RuntimeError ''attempting to commit changes to a set without any outstanding attached deltas'')
      | Some d \<Rightarrow>
          res_bind (UpdateSet (m_elements s) (deltas d)) (\<lambda>els.
          Inr \<lparr>m_elements = els, m_pWeakDelta = Some (reset_delta d)\<rparr>))"

subsection \<open>Iterating a delta\<close>

datatype iteration_stage = Original | AddedStage

text \<open>
  An iterator is a position in the container it walks: the containers' iterators are the suffixes
  that are still to be visited. \<open>m_iter\<close> holds the current element first.
\<close>

record ('k, 'v) delta_iterator =
  m_position :: u64
  m_size :: u64
  m_stage :: iteration_stage
  m_iter :: "('k, 'v) container"
  m_originalIter :: "('k, 'v) container"

fun handleOriginalStage ::
  "('k, 'v) delta_elements \<Rightarrow> ('k, 'v) container \<Rightarrow> (('k \<times> 'v) \<times> ('k, 'v) container) option" where
  "handleOriginalStage e [] = None"
| "handleOriginalStage e (p # rest) =
     (if Contains (RemovedElems e) (fst p) then handleOriginalStage e rest
      else Some (case map_of (Copied e) (fst p) of None \<Rightarrow> p | Some v \<Rightarrow> (fst p, v), p # rest))"

fun handleAddedStage :: "('k, 'v) delta_elements \<Rightarrow> ('k, 'v) container \<Rightarrow> ('k, 'v) container" where
  "handleAddedStage e [] = []"
| "handleAddedStage e (p # rest) =
     (if \<not> Contains (RemovedElems e) (fst p) then p # rest else handleAddedStage e rest)"

definition moveToValidElement ::
  "('k, 'v) delta_elements \<Rightarrow> ('k, 'v) delta_iterator \<Rightarrow> ('k, 'v) delta_iterator" where
  "moveToValidElement e it =
     (if m_stage it = Original then
        (case handleOriginalStage e (m_originalIter it) of
           Some (p, rest) \<Rightarrow> it\<lparr>m_iter := [p], m_originalIter := rest\<rparr>
         | None \<Rightarrow> it\<lparr>m_originalIter := [], m_stage := AddedStage, m_iter := handleAddedStage e (Added e)\<rparr>)
      else it\<lparr>m_iter := handleAddedStage e (m_iter it)\<rparr>)"

definition incrementIterator :: "('k, 'v) delta_iterator \<Rightarrow> ('k, 'v) delta_iterator" where
  "incrementIterator it =
     (if m_stage it = Original then it\<lparr>m_originalIter := tl (m_originalIter it)\<rparr>
      else it\<lparr>m_iter := tl (m_iter it)\<rparr>)"

definition make_delta_iterator ::
  "('k, 'v) container \<Rightarrow> ('k, 'v) delta_elements \<Rightarrow> u64 \<Rightarrow> u64 \<Rightarrow> ('k, 'v) delta_iterator" where
  "make_delta_iterator orig e position sz =
     (let it = \<lparr>m_position = position, m_size = sz, m_stage = Original, m_iter = orig, m_originalIter = orig\<rparr>
      in if position = sz then it\<lparr>m_iter := []\<rparr> else moveToValidElement e it)"

definition advance_delta ::
  "('k, 'v) delta_elements \<Rightarrow> ('k, 'v) delta_iterator \<Rightarrow> ('k, 'v) delta_iterator result" where
  "advance_delta e it =
     (if m_position it = m_size it then Inl (OutOfRange ''cannot advance iterator beyond end'')
      else Inr (moveToValidElement e (incrementIterator (it\<lparr>m_position := m_position it + 1\<rparr>))))"

definition deref_delta :: "('k, 'v) delta_iterator \<Rightarrow> ('k \<times> 'v) result" where
  "deref_delta it =
     (if m_position it = m_size it then Inl (OutOfRange ''cannot dereference at end'')
      else case m_iter it of [] \<Rightarrow> Inl (OutOfRange ''end of container'') | p # _ \<Rightarrow> Inr p)"

text \<open>A range-for over the view, with fuel for the number of steps.\<close>

fun iterate_delta ::
  "nat \<Rightarrow> ('k, 'v) delta_elements \<Rightarrow> ('k, 'v) delta_iterator \<Rightarrow> ('k \<times> 'v) list result option" where
  "iterate_delta 0 e it = None"
| "iterate_delta (Suc n) e it =
     (if m_position it = m_size it then Some (Inr [])
      else case deref_delta it of
        Inl err \<Rightarrow> Some (Inl err)
      | Inr p \<Rightarrow>
         (case advance_delta e it of
            Inl err \<Rightarrow> Some (Inl err)
          | Inr it' \<Rightarrow> map_option (map_sum id ((#) p)) (iterate_delta n e it')))"

section \<open>Invariant and view\<close>

text \<open>How the three containers and the original elements relate, key by key.\<close>

definition key_ok :: "'v option \<Rightarrow> 'v option \<Rightarrow> 'v option \<Rightarrow> 'v option \<Rightarrow> bool" where
  "key_ok orig added removed copied \<longleftrightarrow>
     (added \<noteq> None \<longrightarrow> orig = None) \<and> (copied \<noteq> None \<longrightarrow> orig \<noteq> None \<and> removed = None) \<and>
     (removed \<noteq> None \<longrightarrow> orig \<noteq> None \<or> added \<noteq> None)"

definition delta_distinct :: "('k, 'v) container \<Rightarrow> ('k, 'v) base_set_delta \<Rightarrow> bool" where
  "delta_distinct orig d \<longleftrightarrow> distinct (map fst orig) \<and> distinct (map fst (m_addedElements d)) \<and>
     distinct (map fst (m_removedElements d)) \<and> distinct (map fst (m_copiedElements d))"

definition delta_inv :: "mutability_tag \<Rightarrow> ('k, 'v) container \<Rightarrow> ('k, 'v) base_set_delta \<Rightarrow> bool" where
  "delta_inv tag orig d \<longleftrightarrow> delta_distinct orig d \<and>
     (\<forall>k. key_ok (map_of orig k) (map_of (m_addedElements d) k) (map_of (m_removedElements d) k)
        (map_of (m_copiedElements d) k)) \<and>
     (tag = ImmutableTypeTag \<longrightarrow> m_copiedElements d = [])"

text \<open>The finite map a delta stands for.\<close>

definition key_view :: "'v option \<Rightarrow> 'v option \<Rightarrow> 'v option \<Rightarrow> 'v option \<Rightarrow> 'v option" where
  "key_view orig added removed copied =
     (if removed \<noteq> None then None
      else case copied of Some v \<Rightarrow> Some v | None \<Rightarrow> (case orig of Some v \<Rightarrow> Some v | None \<Rightarrow> added))"

definition view :: "('k, 'v) container \<Rightarrow> ('k, 'v) base_set_delta \<Rightarrow> 'k \<rightharpoonup> 'v" where
  "view orig d k = key_view (map_of orig k) (map_of (m_addedElements d) k) (map_of (m_removedElements d) k)
     (map_of (m_copiedElements d) k)"

lemma markKey_sel [simp]:
  "m_addedElements (markKey k d) = m_addedElements d" "m_removedElements (markKey k d) = m_removedElements d"
  "m_copiedElements (markKey k d) = m_copiedElements d" "m_generationId (markKey k d) = m_generationId d"
  by (simp_all add: markKey_def)

lemma clearKey_sel [simp]:
  "m_addedElements (clearKey k d) = m_addedElements d" "m_removedElements (clearKey k d) = m_removedElements d"
  "m_copiedElements (clearKey k d) = m_copiedElements d" "m_generationId (clearKey k d) = m_generationId d"
  by (simp_all add: clearKey_def)

lemma delta_inv_fresh: "distinct (map fst orig) \<Longrightarrow> delta_inv tag orig BaseSetDelta"
  by (simp add: delta_inv_def delta_distinct_def key_ok_def BaseSetDelta_def)

lemma view_fresh [simp]: "view orig BaseSetDelta = map_of orig"
  by (simp add: view_def key_view_def BaseSetDelta_def fun_eq_iff split: option.split)

lemma delta_inv_key:
  "delta_inv tag orig d \<Longrightarrow> key_ok (map_of orig k) (map_of (m_addedElements d) k) (map_of (m_removedElements d) k)
     (map_of (m_copiedElements d) k)"
  by (simp add: delta_inv_def)

text \<open>
  Every operation changes the containers at one key only: the invariant and the view have to be
  looked at there.
\<close>

definition same_but :: "'k \<Rightarrow> ('k, 'v) base_set_delta \<Rightarrow> ('k, 'v) base_set_delta \<Rightarrow> bool" where
  "same_but k d d' \<longleftrightarrow> (\<forall>j. j \<noteq> k \<longrightarrow> map_of (m_addedElements d') j = map_of (m_addedElements d) j \<and>
     map_of (m_removedElements d') j = map_of (m_removedElements d) j \<and>
     map_of (m_copiedElements d') j = map_of (m_copiedElements d) j)"

lemma step_at_key:
  assumes inv: "delta_inv tag orig d" and same: "same_but k d d'" and dist: "delta_distinct orig d'"
    and ok: "key_ok (map_of orig k) (map_of (m_addedElements d') k) (map_of (m_removedElements d') k)
      (map_of (m_copiedElements d') k)"
    and imm: "tag = ImmutableTypeTag \<Longrightarrow> m_copiedElements d' = []"
    and val: "key_view (map_of orig k) (map_of (m_addedElements d') k) (map_of (m_removedElements d') k)
      (map_of (m_copiedElements d') k) = v"
  shows "view orig d' = (view orig d)(k := v) \<and> delta_inv tag orig d'"
proof
  have "view orig d' j = ((view orig d)(k := v)) j" for j
    using same val by (cases "j = k") (simp_all add: view_def same_but_def)
  then show "view orig d' = (view orig d)(k := v)" by (simp add: fun_eq_iff)
  have "key_ok (map_of orig j) (map_of (m_addedElements d') j) (map_of (m_removedElements d') j)
      (map_of (m_copiedElements d') j)" for j
    using same ok delta_inv_key [OF inv, of j] by (cases "j = k") (simp_all add: same_but_def)
  with dist imm show "delta_inv tag orig d'" by (simp add: delta_inv_def)
qed

lemma find_const_view:
  assumes "delta_inv tag orig d"
  shows "find_const tag orig d k = view orig d k"
  using assms by (cases tag) (auto simp: find_const_def find_const_tag_def view_def key_view_def delta_inv_def
      Contains_def split: option.splits)

lemma contains_delta_view:
  assumes "delta_inv tag orig d"
  shows "contains_delta orig d k \<longleftrightarrow> view orig d k \<noteq> None"
  using delta_inv_key [OF assms, of k]
  by (auto simp: contains_delta_def view_def key_view_def key_ok_def Contains_def split: option.splits)

lemma delta_distinct_of_inv: "delta_inv tag orig d \<Longrightarrow> delta_distinct orig d"
  by (simp add: delta_inv_def)

lemma view_upd_same: "view orig d k = v \<Longrightarrow> (view orig d)(k := v) = view orig d"
  by auto

lemmas delta_unfold = key_view_def key_ok_def Contains_def same_but_def map_of_cont_insert

lemma find_delta_cases:
  assumes inv: "delta_inv tag orig d"
  shows "fst (find_delta tag orig k d) = view orig d k \<and>
    view orig (snd (find_delta tag orig k d)) = (view orig d)(k := view orig d k) \<and>
    delta_inv tag orig (snd (find_delta tag orig k d))"
proof
  note ok = delta_inv_key [OF inv, of k]
  have imm: "tag = ImmutableTypeTag \<Longrightarrow> map_of (m_copiedElements d) k = None"
    using inv by (simp add: delta_inv_def)
  show "fst (find_delta tag orig k d) = view orig d k"
    using ok imm by (cases tag) (auto simp: find_delta_def find_tag_def view_def delta_unfold Let_def split: option.splits)
  show "view orig (snd (find_delta tag orig k d)) = (view orig d)(k := view orig d k) \<and>
      delta_inv tag orig (snd (find_delta tag orig k d))"
  proof (rule step_at_key [OF inv])
    show "delta_distinct orig (snd (find_delta tag orig k d))"
      using delta_distinct_of_inv [OF inv]
      by (cases tag) (auto simp: find_delta_def find_tag_def delta_distinct_def Let_def split: option.splits)
    show "same_but k d (snd (find_delta tag orig k d))"
      by (cases tag) (auto simp: find_delta_def find_tag_def delta_unfold Let_def split: option.splits)
    show "tag = ImmutableTypeTag \<Longrightarrow> m_copiedElements (snd (find_delta tag orig k d)) = []"
      using inv by (auto simp: find_delta_def find_tag_def Let_def delta_inv_def)
  qed (use ok in \<open>cases tag; auto simp: find_delta_def find_tag_def view_def delta_unfold Let_def split: option.splits\<close>)+
qed

lemma find_delta_spec:
  assumes inv: "delta_inv tag orig d"
  shows "fst (find_delta tag orig k d) = view orig d k"
    and "view orig (snd (find_delta tag orig k d)) = view orig d"
    and "delta_inv tag orig (snd (find_delta tag orig k d))"
  using find_delta_cases [OF inv, of k] by auto

text \<open>After a successful \<^verbatim>\<open>find\<close> of a mutable set the element lives in the copied or the added container.\<close>

definition writable :: "('k, 'v) container \<Rightarrow> ('k, 'v) base_set_delta \<Rightarrow> 'k \<Rightarrow> bool" where
  "writable orig d k \<longleftrightarrow> \<not> Contains (m_removedElements d) k \<and>
     (Contains (m_copiedElements d) k \<or> \<not> Contains orig k \<and> Contains (m_addedElements d) k)"

lemma find_delta_writable:
  assumes inv: "delta_inv MutableTypeTag orig d" and found: "view orig d k \<noteq> None"
  shows "writable orig (snd (find_delta MutableTypeTag orig k d)) k"
  using delta_inv_key [OF inv, of k] found
  by (auto simp: find_delta_def find_tag_def view_def writable_def delta_unfold Let_def
      split: option.splits if_splits)

lemma write_found_spec:
  assumes inv: "delta_inv MutableTypeTag orig d" and w: "writable orig d k"
  shows "view orig (write_found k v d) = (view orig d)(k \<mapsto> v) \<and>
    delta_inv MutableTypeTag orig (write_found k v d)"
proof (rule step_at_key [OF inv])
  show "delta_distinct orig (write_found k v d)"
    using delta_distinct_of_inv [OF inv] by (simp add: write_found_def delta_distinct_def)
qed (use delta_inv_key [OF inv, of k] w in
      \<open>auto simp: write_found_def writable_def delta_unfold split: option.splits\<close>)

lemma insert_mutable_spec:
  assumes inv: "delta_inv MutableTypeTag orig d"
  shows "view orig (snd (insert_mutable orig (k, v) d)) = (view orig d)(k \<mapsto> v) \<and>
    delta_inv MutableTypeTag orig (snd (insert_mutable orig (k, v) d))"
proof (rule step_at_key [OF inv])
  show "delta_distinct orig (snd (insert_mutable orig (k, v) d))"
    using delta_distinct_of_inv [OF inv] by (simp add: insert_mutable_def Let_def delta_distinct_def)
qed (use delta_inv_key [OF inv, of k] in
      \<open>auto simp: insert_mutable_def Let_def delta_unfold split: option.splits\<close>)

text \<open>An immutable element that comes back after its removal is the first seen one.\<close>

definition first_seen :: "('k, 'v) container \<Rightarrow> ('k, 'v) base_set_delta \<Rightarrow> 'k \<Rightarrow> 'v \<Rightarrow> 'v" where
  "first_seen orig d k v =
     (case map_of orig k of Some w \<Rightarrow> w | None \<Rightarrow> (case map_of (m_addedElements d) k of Some w \<Rightarrow> w | None \<Rightarrow> v))"

lemma insert_immutable_spec:
  assumes inv: "delta_inv ImmutableTypeTag orig d"
  shows "view orig (snd (insert_immutable orig (k, v) d)) = (view orig d)(k \<mapsto> first_seen orig d k v) \<and>
    delta_inv ImmutableTypeTag orig (snd (insert_immutable orig (k, v) d))"
proof (rule step_at_key [OF inv])
  have imm: "m_copiedElements d = []" using inv by (simp add: delta_inv_def)
  show "delta_distinct orig (snd (insert_immutable orig (k, v) d))"
    using delta_distinct_of_inv [OF inv] by (simp add: insert_immutable_def Let_def delta_distinct_def)
  show "ImmutableTypeTag = ImmutableTypeTag \<Longrightarrow> m_copiedElements (snd (insert_immutable orig (k, v) d)) = []"
    using imm by (simp add: insert_immutable_def Let_def)
  show "key_view (map_of orig k) (map_of (m_addedElements (snd (insert_immutable orig (k, v) d))) k)
     (map_of (m_removedElements (snd (insert_immutable orig (k, v) d))) k)
     (map_of (m_copiedElements (snd (insert_immutable orig (k, v) d))) k) = Some (first_seen orig d k v)"
    using delta_inv_key [OF inv, of k] imm
    by (auto simp: insert_immutable_def Let_def delta_unfold first_seen_def split: option.splits)
qed (use delta_inv_key [OF inv, of k] in
      \<open>auto simp: insert_immutable_def Let_def delta_unfold split: option.splits\<close>)

lemma remove_delta_spec:
  assumes inv: "delta_inv tag orig d"
  shows "view orig (snd (remove_delta tag orig k d)) = (view orig d)(k := None) \<and>
    delta_inv tag orig (snd (remove_delta tag orig k d))"
proof (rule step_at_key [OF inv])
  note defs = remove_delta_def remove_mutable_def remove_immutable_def Let_def
  show "delta_distinct orig (snd (remove_delta tag orig k d))"
    using delta_distinct_of_inv [OF inv]
    by (cases tag) (simp_all add: defs delta_distinct_def split: option.splits)
  show "tag = ImmutableTypeTag \<Longrightarrow> m_copiedElements (snd (remove_delta tag orig k d)) = []"
    using inv by (simp add: defs delta_inv_def split: option.splits)
  show "same_but k d (snd (remove_delta tag orig k d))"
    by (cases tag) (simp_all add: defs delta_unfold split: option.splits)
  have imm: "tag = ImmutableTypeTag \<Longrightarrow> map_of (m_copiedElements d) k = None"
    using inv by (simp add: delta_inv_def)
  show "key_ok (map_of orig k) (map_of (m_addedElements (snd (remove_delta tag orig k d))) k)
     (map_of (m_removedElements (snd (remove_delta tag orig k d))) k)
     (map_of (m_copiedElements (snd (remove_delta tag orig k d))) k)"
    using delta_inv_key [OF inv, of k] imm by (cases tag) (auto simp: defs delta_unfold split: option.splits)
  show "key_view (map_of orig k) (map_of (m_addedElements (snd (remove_delta tag orig k d))) k)
     (map_of (m_removedElements (snd (remove_delta tag orig k d))) k)
     (map_of (m_copiedElements (snd (remove_delta tag orig k d))) k) = None"
    using delta_inv_key [OF inv, of k] imm by (cases tag) (auto simp: defs delta_unfold split: option.splits)
qed

section \<open>Commit\<close>

lemma fold_cont_insert:
  "map_of (fold cont_insert xs c) k = (case map_of c k of Some v \<Rightarrow> Some v | None \<Rightarrow> map_of xs k)"
proof (induction xs arbitrary: c)
  case (Cons p xs)
  then show ?case by (cases p) (auto simp: map_of_cont_insert Contains_def split: option.split)
qed (simp split: option.split)

lemma distinct_fold_cont_insert: "distinct (map fst c) \<Longrightarrow> distinct (map fst (fold cont_insert xs c))"
  by (induction xs arbitrary: c) simp_all

lemma fold_update_copied:
  assumes "\<forall>p \<in> set xs. Contains c (fst p)" and "distinct (map fst xs)"
  shows "\<exists>c'. res_fold update_copied xs c = Inr c' \<and>
    (\<forall>k. map_of c' k = (case map_of xs k of Some v \<Rightarrow> Some v | None \<Rightarrow> map_of c k)) \<and>
    (distinct (map fst c) \<longrightarrow> distinct (map fst c'))"
  using assms
proof (induction xs arbitrary: c)
  case (Cons p xs)
  let ?c = "cont_put (fst p) (snd p) c"
  have step: "update_copied p c = Inr ?c" using Cons.prems(1) by (simp add: update_copied_def cont_put_def)
  have "\<forall>q \<in> set xs. Contains ?c (fst q)" using Cons.prems(1) by simp
  with Cons.IH [of ?c] Cons.prems(2) obtain c' where c': "res_fold update_copied xs ?c = Inr c'"
      "\<forall>k. map_of c' k = (case map_of xs k of Some v \<Rightarrow> Some v | None \<Rightarrow> map_of ?c k)"
      "distinct (map fst ?c) \<longrightarrow> distinct (map fst c')" by auto
  have "map_of xs (fst p) = None" using Cons.prems(2) by (simp add: map_of_eq_None_iff)
  then have "map_of c' k = (case map_of (p # xs) k of Some v \<Rightarrow> Some v | None \<Rightarrow> map_of c k)" for k
    using c'(2) by (cases p) (auto split: option.split)
  with step c'(1,3) show ?case by simp
qed simp

lemma fold_cont_erase:
  "map_of (fold (\<lambda>p. cont_erase (fst p)) xs c) k = (if Contains xs k then None else map_of c k)"
  by (induction xs arbitrary: c) (auto simp: Contains_iff)

lemma distinct_fold_cont_erase:
  "distinct (map fst c) \<Longrightarrow> distinct (map fst (fold (\<lambda>p. cont_erase (fst p)) xs c))"
  by (induction xs arbitrary: c) simp_all

lemma UpdateSet_spec:
  assumes inv: "delta_inv tag orig d"
  shows "\<exists>els. UpdateSet orig (deltas d) = Inr els \<and> map_of els = view orig d \<and> distinct (map fst els)"
proof -
  have dist: "distinct (map fst orig)" "distinct (map fst (m_copiedElements d))"
    using delta_distinct_of_inv [OF inv] by (simp_all add: delta_distinct_def)
  let ?c = "fold cont_insert (m_addedElements d) orig"
  have "Contains ?c (fst p)" if "p \<in> set (m_copiedElements d)" for p
  proof -
    have "Contains (m_copiedElements d) (fst p)" using that by (simp add: Contains_iff)
    then have "map_of orig (fst p) \<noteq> None" using delta_inv_key [OF inv, of "fst p"] by (simp add: key_ok_def Contains_def)
    then show ?thesis by (auto simp: Contains_def fold_cont_insert)
  qed
  then obtain c' where c': "res_fold update_copied (m_copiedElements d) ?c = Inr c'" "distinct (map fst c')"
      "\<And>k. map_of c' k = (case map_of (m_copiedElements d) k of Some v \<Rightarrow> Some v | None \<Rightarrow> map_of ?c k)"
    using fold_update_copied [OF _ dist(2), of ?c] distinct_fold_cont_insert [OF dist(1)] by blast
  let ?els = "fold (\<lambda>p. cont_erase (fst p)) (m_removedElements d) c'"
  have "map_of ?els = view orig d"
    by (auto simp: fun_eq_iff fold_cont_erase c'(3) fold_cont_insert view_def key_view_def Contains_def
        split: option.split)
  with c'(1) distinct_fold_cont_erase [OF c'(2)] show ?thesis by (simp add: UpdateSet_def deltas_def)
qed

lemma length_card: "distinct (map fst c) \<Longrightarrow> length c = card (dom (map_of c))"
  using distinct_card [of "map fst c"] by (simp add: dom_map_of_conv_image_fst)

lemma view_dom:
  assumes "delta_inv tag orig d"
  shows "dom (view orig d) = (dom (map_of orig) \<union> dom (map_of (m_addedElements d))) - dom (map_of (m_removedElements d))"
proof -
  have "view orig d k \<noteq> None \<longleftrightarrow> (map_of orig k \<noteq> None \<or> map_of (m_addedElements d) k \<noteq> None) \<and>
      map_of (m_removedElements d) k = None" for k
    using delta_inv_key [OF assms, of k] by (auto simp: view_def key_view_def key_ok_def split: option.splits)
  then show ?thesis by (auto simp: dom_def simp del: not_None_eq)
qed

lemma size_delta_spec:
  assumes inv: "delta_inv tag orig d"
  shows "size_delta orig d = of_nat (card (dom (view orig d)))"
proof -
  have key: "\<And>k. key_ok (map_of orig k) (map_of (m_addedElements d) k) (map_of (m_removedElements d) k)
     (map_of (m_copiedElements d) k)" by (rule delta_inv_key [OF inv])
  let ?o = "dom (map_of orig)" and ?a = "dom (map_of (m_addedElements d))" and ?r = "dom (map_of (m_removedElements d))"
  have dis: "?o \<inter> ?a = {}" and sub: "?r \<subseteq> ?o \<union> ?a"
    using key by (auto simp: key_ok_def dom_def)
  have fin: "finite ?o" "finite ?a" "finite ?r" by (simp_all add: finite_dom_map_of)
  have len: "length orig = card ?o" "length (m_addedElements d) = card ?a" "length (m_removedElements d) = card ?r"
    using delta_distinct_of_inv [OF inv] by (simp_all add: delta_distinct_def length_card)
  have "card (dom (view orig d)) = card ?o + card ?a - card ?r"
    using card_Diff_subset [OF fin(3) sub] card_Un_disjoint [OF fin(1,2) dis] view_dom [OF inv] by simp
  moreover have "card ?r \<le> card ?o + card ?a"
    using card_mono [OF _ sub] fin card_Un_disjoint [OF fin(1,2) dis] by simp
  ultimately show ?thesis by (simp add: size_delta_def len of_nat_diff)
qed

section \<open>Iteration\<close>

declare iterate_delta.simps(2) [simp del]

abbreviation kept :: "('k, 'v) delta_elements \<Rightarrow> 'k \<times> 'v \<Rightarrow> bool" where
  "kept e p \<equiv> \<not> Contains (RemovedElems e) (fst p)"

definition current_of :: "('k, 'v) delta_elements \<Rightarrow> 'k \<times> 'v \<Rightarrow> 'k \<times> 'v" where
  "current_of e p = (case map_of (Copied e) (fst p) of None \<Rightarrow> p | Some v \<Rightarrow> (fst p, v))"

text \<open>The elements of the view in the documented order: unremoved original elements, then added ones.\<close>

definition visible :: "('k, 'v) delta_elements \<Rightarrow> ('k, 'v) container \<Rightarrow> ('k, 'v) container" where
  "visible e orig = map (current_of e) (filter (kept e) orig) @ filter (kept e) (Added e)"

lemma handleOriginalStage_eq:
  "handleOriginalStage e xs =
     (case dropWhile (\<lambda>p. Contains (RemovedElems e) (fst p)) xs of [] \<Rightarrow> None | q # r \<Rightarrow> Some (current_of e q, q # r))"
  by (induction xs) (auto simp: current_of_def)

lemma handleAddedStage_eq: "handleAddedStage e xs = dropWhile (\<lambda>p. Contains (RemovedElems e) (fst p)) xs"
  by (induction xs) auto

lemma filter_dropWhile_not: "filter (\<lambda>x. \<not> P x) (dropWhile P xs) = filter (\<lambda>x. \<not> P x) xs"
  by (induction xs) auto

definition it_ok :: "('k, 'v) delta_elements \<Rightarrow> ('k, 'v) delta_iterator \<Rightarrow> ('k, 'v) container \<Rightarrow> bool" where
  "it_ok e it ps \<longleftrightarrow>
     (case m_stage it of
        Original \<Rightarrow> (\<exists>q r. m_originalIter it = q # r \<and> m_iter it = [current_of e q] \<and>
          ps = current_of e q # visible e r)
      | AddedStage \<Rightarrow> ps = filter (kept e) (m_iter it) \<and> (m_iter it = [] \<or> kept e (hd (m_iter it))))"

lemma hd_dropWhile_kept: "dropWhile (\<lambda>p. Contains (RemovedElems e) (fst p)) xs = [] \<or> kept e (hd (dropWhile (\<lambda>p. Contains (RemovedElems e) (fst p)) xs))"
  using hd_dropWhile [of "\<lambda>p. Contains (RemovedElems e) (fst p)" xs] by auto

lemma moveToValidElement_ok:
  "it_ok e (moveToValidElement e it)
     (if m_stage it = Original then visible e (m_originalIter it) else filter (kept e) (m_iter it))"
proof (cases "m_stage it")
  case Original
  show ?thesis
  proof (cases "dropWhile (\<lambda>p. Contains (RemovedElems e) (fst p)) (m_originalIter it)")
    case Nil
    then have "filter (kept e) (m_originalIter it) = []" by (simp add: dropWhile_eq_Nil_conv filter_empty_conv)
    moreover have "handleOriginalStage e (m_originalIter it) = None"
      by (simp only: handleOriginalStage_eq Nil list.case)
    ultimately show ?thesis using Original hd_dropWhile_kept [of e "Added e"]
      by (simp add: moveToValidElement_def it_ok_def visible_def handleAddedStage_eq filter_dropWhile_not)
  next
    case (Cons q r)
    have "filter (kept e) (m_originalIter it) = filter (kept e) (q # r)"
      by (metis Cons filter_dropWhile_not)
    moreover have "kept e q" using hd_dropWhile_kept [of e "m_originalIter it"] Cons by simp
    ultimately show ?thesis using Cons Original
      by (simp add: moveToValidElement_def handleOriginalStage_eq it_ok_def visible_def)
  qed
next
  case AddedStage
  then show ?thesis
    using hd_dropWhile_kept [of e "m_iter it"]
    by (simp add: moveToValidElement_def handleAddedStage_eq it_ok_def filter_dropWhile_not)
qed

lemma moveToValidElement_pos [simp]:
  "m_position (moveToValidElement e it) = m_position it" "m_size (moveToValidElement e it) = m_size it"
  by (simp_all add: moveToValidElement_def split: option.split)

lemma incrementIterator_pos [simp]:
  "m_position (incrementIterator it) = m_position it" "m_size (incrementIterator it) = m_size it"
  "m_stage (incrementIterator it) = m_stage it"
  by (simp_all add: incrementIterator_def)

lemma advance_delta_step:
  assumes ok: "it_ok e it (p # ps)" and pos: "m_position it \<noteq> m_size it"
  shows "\<exists>it'. advance_delta e it = Inr it' \<and> it_ok e it' ps \<and>
    m_position it' = m_position it + 1 \<and> m_size it' = m_size it"
    and "deref_delta it = Inr p"
proof -
  let ?it = "incrementIterator (it\<lparr>m_position := m_position it + 1\<rparr>)"
  have "(if m_stage ?it = Original then visible e (m_originalIter ?it) else filter (kept e) (m_iter ?it)) = ps"
  proof (cases "m_stage it")
    case AddedStage
    then obtain r where "m_iter it = p # r" "ps = filter (kept e) r"
      using ok by (cases "m_iter it") (auto simp: it_ok_def)
    with AddedStage show ?thesis by (simp add: incrementIterator_def)
  qed (use ok in \<open>auto simp: it_ok_def incrementIterator_def\<close>)
  then have "it_ok e (moveToValidElement e ?it) ps" using moveToValidElement_ok [of e ?it] by simp
  then show "\<exists>it'. advance_delta e it = Inr it' \<and> it_ok e it' ps \<and>
      m_position it' = m_position it + 1 \<and> m_size it' = m_size it"
    using pos by (simp add: advance_delta_def)
  show "deref_delta it = Inr p"
    using ok pos by (cases "m_stage it"; cases "m_iter it") (auto simp: deref_delta_def it_ok_def)
qed

lemma iterate_delta_ok:
  assumes "it_ok e it ps \<or> ps = []" and "m_size it - m_position it = of_nat (length ps)"
    and "length ps < 2 ^ 64" and "length ps < n"
  shows "iterate_delta n e it = Some (Inr ps)"
  using assms
proof (induction ps arbitrary: it n)
  case Nil
  then obtain n' where "n = Suc n'" by (cases n) auto
  with Nil show ?case by (simp add: iterate_delta.simps(2))
next
  case (Cons p ps)
  then obtain n' where n: "n = Suc n'" by (cases n) auto
  have "unat (of_nat (length (p # ps)) :: u64) = length (p # ps)"
    by (rule unat_of_nat_u64) (use Cons.prems(3) in simp)
  then have "m_size it - m_position it \<noteq> 0" unfolding Cons.prems(2) by auto
  then have pos: "m_position it \<noteq> m_size it" by auto
  from advance_delta_step [OF _ this] Cons.prems(1) obtain it' where it': "advance_delta e it = Inr it'"
      "it_ok e it' ps" "m_position it' = m_position it + 1" "m_size it' = m_size it" and d: "deref_delta it = Inr p"
    by blast
  have "m_size it' - m_position it' = of_nat (length ps)" using Cons.prems(2) it'(3,4) by (simp add: algebra_simps)
  with Cons.IH [of it' n'] Cons.prems it' n have "iterate_delta n' e it' = Some (Inr ps)" by simp
  with n pos d it'(1) show ?case by (simp add: iterate_delta.simps(2))
qed

lemma map_of_visible:
  assumes inv: "delta_inv tag orig d"
  shows "map_of (visible (deltas d) orig) = view orig d"
proof
  fix k
  have filt: "map_of (filter (kept (deltas d)) c) k = (if Contains (m_removedElements d) k then None else map_of c k)"
    for c :: "('a, 'b) container" by (induction c) (auto simp: deltas_def)
  have cur: "map_of (map (current_of (deltas d)) c) k =
      (case map_of c k of None \<Rightarrow> None | Some v \<Rightarrow>
        Some (case map_of (m_copiedElements d) k of None \<Rightarrow> v | Some w \<Rightarrow> w))" for c :: "('a, 'b) container"
    by (induction c) (auto simp: current_of_def deltas_def split: option.splits)
  have "Added (deltas d) = m_addedElements d" by (simp add: deltas_def)
  then have "map_of (visible (deltas d) orig) k =
      (if Contains (m_removedElements d) k then None
       else case map_of orig k of None \<Rightarrow> map_of (m_addedElements d) k
            | Some v \<Rightarrow> Some (case map_of (m_copiedElements d) k of None \<Rightarrow> v | Some w \<Rightarrow> w))"
    by (simp add: visible_def map_add_def cur filt split: option.split)
  with delta_inv_key [OF inv, of k] show "map_of (visible (deltas d) orig) k = view orig d k"
    by (auto simp: view_def key_view_def key_ok_def Contains_def split: option.splits)
qed

lemma fst_current_of [simp]: "fst (current_of e p) = fst p"
  by (simp add: current_of_def split: option.split)

lemma distinct_visible:
  assumes inv: "delta_inv tag orig d"
  shows "distinct (map fst (visible (deltas d) orig))"
proof -
  have "k \<notin> fst ` set (m_addedElements d)" if "k \<in> fst ` set orig" for k
    using delta_inv_key [OF inv, of k] that by (auto simp: key_ok_def map_of_eq_None_fst)
  then have "fst ` set (filter P orig) \<inter> fst ` set (filter Q (m_addedElements d)) = {}" for P Q by fastforce
  then show ?thesis
    using delta_distinct_of_inv [OF inv]
    by (simp add: visible_def delta_distinct_def deltas_def distinct_map_filter comp_def)
qed

section \<open>The interface of a delta\<close>

text \<open>
  What the caches rely on: \<^verbatim>\<open>find\<close> returns the element of the view and leaves the view alone, a
  write through the iterator it returned and \<^verbatim>\<open>insert\<close> replace the element, \<^verbatim>\<open>remove\<close> deletes it.
\<close>

locale key_value_delta =
  fixes look :: "'d \<Rightarrow> 'k \<rightharpoonup> 'v"
    and inv :: "'d \<Rightarrow> bool"
    and find :: "'k \<Rightarrow> 'd \<Rightarrow> 'v option \<times> 'd"
    and writ :: "'k \<Rightarrow> 'v \<Rightarrow> 'd \<Rightarrow> 'd"
    and ins :: "'k \<times> 'v \<Rightarrow> 'd \<Rightarrow> 'd"
    and del :: "'k \<Rightarrow> 'd \<Rightarrow> 'd"
  assumes find_look: "inv d \<Longrightarrow> fst (find k d) = look d k"
    and find_frame: "inv d \<Longrightarrow> look (snd (find k d)) = look d \<and> inv (snd (find k d))"
    and writ_look: "inv d \<Longrightarrow> look d k \<noteq> None \<Longrightarrow>
      look (writ k v (snd (find k d))) = (look d)(k \<mapsto> v) \<and> inv (writ k v (snd (find k d)))"
    and ins_look: "inv d \<Longrightarrow> look (ins (k, v) d) = (look d)(k \<mapsto> v) \<and> inv (ins (k, v) d)"
    and del_look: "inv d \<Longrightarrow> look (del k d) = (look d)(k := None) \<and> inv (del k d)"
begin

text \<open>Finding an element and modifying it in place.\<close>

definition modify :: "'k \<Rightarrow> ('v \<Rightarrow> 'v) \<Rightarrow> 'd \<Rightarrow> 'd" where
  "modify k f d = (case find k d of (None, d') \<Rightarrow> d' | (Some v, d') \<Rightarrow> writ k (f v) d')"

lemma modify_look:
  assumes "inv d"
  shows "look (modify k f d) = (look d)(k := map_option f (look d k)) \<and> inv (modify k f d)"
proof (cases "look d k")
  case None
  then have "find k d = (None, snd (find k d))" using find_look [OF assms, of k] by (simp add: prod_eq_iff)
  then have "modify k f d = snd (find k d)" by (metis (mono_tags, lifting) case_prod_conv modify_def option.case(1))
  with None find_frame [OF assms, of k] show ?thesis by (auto simp: fun_upd_idem)
next
  case (Some v)
  then have "find k d = (Some v, snd (find k d))" using find_look [OF assms, of k] by (simp add: prod_eq_iff)
  then have "modify k f d = writ k (f v) (snd (find k d))"
    by (metis (mono_tags, lifting) case_prod_conv modify_def option.case(2))
  with Some writ_look [OF assms, of k "f v"] show ?thesis by simp
qed

text \<open>A find followed by a write of the old element changes nothing.\<close>

lemma modify_id: "inv d \<Longrightarrow> look (modify k id d) = look d"
  using modify_look [of d k id] by (simp add: option.map_id fun_upd_idem)

end

interpretation mdelta: key_value_delta "view orig" "delta_inv MutableTypeTag orig"
  "find_delta MutableTypeTag orig" write_found "\<lambda>p d. snd (insert_delta MutableTypeTag orig p d)"
  "\<lambda>k d. snd (remove_delta MutableTypeTag orig k d)" for orig
proof
  fix d :: "('a, 'b) base_set_delta" and k v
  assume inv: "delta_inv MutableTypeTag orig d"
  note f = find_delta_spec [OF inv, of k]
  show "fst (find_delta MutableTypeTag orig k d) = view orig d k" by (rule f(1))
  show "view orig (snd (find_delta MutableTypeTag orig k d)) = view orig d \<and>
      delta_inv MutableTypeTag orig (snd (find_delta MutableTypeTag orig k d))" using f by simp
  show "view orig (snd (insert_delta MutableTypeTag orig (k, v) d)) = (view orig d)(k \<mapsto> v) \<and>
      delta_inv MutableTypeTag orig (snd (insert_delta MutableTypeTag orig (k, v) d))"
    using insert_mutable_spec [OF inv] by (simp add: insert_delta_def)
  show "view orig (snd (remove_delta MutableTypeTag orig k d)) = (view orig d)(k := None) \<and>
      delta_inv MutableTypeTag orig (snd (remove_delta MutableTypeTag orig k d))"
    by (rule remove_delta_spec [OF inv])
  assume "view orig d k \<noteq> None"
  then show "view orig (write_found k v (snd (find_delta MutableTypeTag orig k d))) = (view orig d)(k \<mapsto> v) \<and>
      delta_inv MutableTypeTag orig (write_found k v (snd (find_delta MutableTypeTag orig k d)))"
    using write_found_spec [OF f(3) find_delta_writable [OF inv]] f(2) by simp
qed

section \<open>Sequences of operations\<close>

datatype ('k, 'v) delta_op = Op_InsertElement 'k 'v | Op_RemoveElement 'k | Op_FindElement 'k | Op_ModifyElement 'k 'v

text \<open>A modification is a \<^verbatim>\<open>find\<close> and, when the element exists, a write through its iterator.\<close>

fun delta_run :: "('k, 'v) container \<Rightarrow> ('k, 'v) delta_op \<Rightarrow> ('k, 'v) base_set_delta \<Rightarrow> ('k, 'v) base_set_delta" where
  "delta_run orig (Op_InsertElement k v) d = snd (insert_delta MutableTypeTag orig (k, v) d)"
| "delta_run orig (Op_RemoveElement k) d = snd (remove_delta MutableTypeTag orig k d)"
| "delta_run orig (Op_FindElement k) d = snd (find_delta MutableTypeTag orig k d)"
| "delta_run orig (Op_ModifyElement k v) d =
     (case find_delta MutableTypeTag orig k d of
        (None, d') \<Rightarrow> d' | (Some _, d') \<Rightarrow> write_found k v d')"

fun map_run :: "('k, 'v) delta_op \<Rightarrow> ('k \<rightharpoonup> 'v) \<Rightarrow> ('k \<rightharpoonup> 'v)" where
  "map_run (Op_InsertElement k v) m = m(k \<mapsto> v)"
| "map_run (Op_RemoveElement k) m = m(k := None)"
| "map_run (Op_FindElement k) m = m"
| "map_run (Op_ModifyElement k v) m = (if m k = None then m else m(k \<mapsto> v))"

lemma delta_run_step:
  assumes inv: "delta_inv MutableTypeTag orig d"
  shows "view orig (delta_run orig x d) = map_run x (view orig d) \<and> delta_inv MutableTypeTag orig (delta_run orig x d)"
proof (cases x)
  case (Op_ModifyElement k v)
  have eq: "delta_run orig (Op_ModifyElement k v) d = mdelta.modify orig k (\<lambda>_. v) d"
    by (simp add: mdelta.modify_def)
  show ?thesis
    using mdelta.modify_look [OF inv, of k "\<lambda>_. v"] Op_ModifyElement eq
    by (auto simp: fun_upd_idem split: if_splits)
qed (use mdelta.ins_look [OF inv] mdelta.del_look [OF inv] mdelta.find_frame [OF inv] in auto)

lemma delta_runs:
  assumes "delta_inv MutableTypeTag orig d"
  shows "view orig (fold (delta_run orig) xs d) = fold map_run xs (view orig d) \<and>
    delta_inv MutableTypeTag orig (fold (delta_run orig) xs d)"
  using assms
proof (induction xs arbitrary: d)
  case (Cons x xs)
  with delta_run_step [OF Cons.prems, of x] show ?case by simp
qed simp

text \<open>The operations leave the backups alone.\<close>

definition backups :: "('k, 'v) base_set_delta \<Rightarrow>
    ('k, 'v) container list \<times> ('k, 'v) container list \<times> ('k, 'v) container list \<times> ('k, u32) container list" where
  "backups d = (m_addedElementsBackup d, m_removedElementsBackup d, m_copiedElementsBackup d, m_keyGenerationIdMapBackup d)"

lemma backups_markKey [simp]: "backups (markKey k d) = backups d"
  by (simp add: backups_def markKey_def)

lemma backups_upd [simp]:
  "backups (d\<lparr>m_addedElements := a\<rparr>) = backups d" "backups (d\<lparr>m_removedElements := r\<rparr>) = backups d"
  "backups (d\<lparr>m_copiedElements := c\<rparr>) = backups d"
  by (simp_all add: backups_def)

lemma delta_run_backups: "backups (delta_run orig x d) = backups d"
proof (cases x)
  case Op_InsertElement
  then show ?thesis by (simp add: insert_delta_def insert_mutable_def Let_def)
next
  case Op_RemoveElement
  then show ?thesis
    by (simp add: remove_delta_def remove_mutable_def remove_immutable_def Let_def split: option.split)
next
  case Op_FindElement
  then show ?thesis by (simp add: find_delta_def find_tag_def Let_def split: option.split)
next
  case Op_ModifyElement
  then show ?thesis
    by (auto simp: find_delta_def find_tag_def write_found_def Let_def split: option.split prod.split)
qed

lemma delta_runs_backups: "backups (fold (delta_run orig) xs d) = backups d"
  by (induction xs arbitrary: d) (simp_all add: delta_run_backups)

section \<open>Properties\<close>

text \<open>
  C7. A commit makes the base set exactly what the delta showed. Any sequence of inserts, removes,
  finds and modifications on the delta of a mutable base set behaves on its view like the same
  sequence on a finite map that starts as the base set; committing then always succeeds and leaves
  a base set with distinct keys that holds exactly that map, and a fresh delta.
\<close>

theorem commit_realises_view:
  assumes orig: "distinct (map fst orig)"
    and d: "d = fold (delta_run orig) xs BaseSetDelta"
  shows "view orig d = fold map_run xs (map_of orig) \<and>
    (\<exists>els. commit \<lparr>m_elements = orig, m_pWeakDelta = Some d\<rparr> = Inr \<lparr>m_elements = els, m_pWeakDelta = Some BaseSetDelta\<rparr> \<and>
       map_of els = view orig d \<and> distinct (map fst els))"
proof -
  have "view orig d = fold map_run xs (map_of orig)" and inv: "delta_inv MutableTypeTag orig d"
    using delta_runs [OF delta_inv_fresh [OF orig], of xs] d by simp_all
  moreover have "reset_delta d = BaseSetDelta" by (simp add: reset_delta_def BaseSetDelta_def)
  ultimately show ?thesis using UpdateSet_spec [OF inv] by (auto simp: commit_def)
qed

theorem commit_realises_view_witness:
  "let orig = [(1 :: nat, ''a''), (2, ''b'')];
       d = fold (delta_run orig) [Op_InsertElement 3 ''c'', Op_RemoveElement 1, Op_ModifyElement 2 ''d''] BaseSetDelta
   in view orig d 1 = None \<and> view orig d 2 = Some ''d'' \<and> view orig d 3 = Some ''c'' \<and>
      (\<exists>els. commit \<lparr>m_elements = orig, m_pWeakDelta = Some d\<rparr> = Inr \<lparr>m_elements = els, m_pWeakDelta = Some BaseSetDelta\<rparr> \<and>
        map_of els 2 = Some ''d'')"
  using commit_realises_view [of "[(1 :: nat, ''a''), (2, ''b'')]" _
      "[Op_InsertElement 3 ''c'', Op_RemoveElement 1, Op_ModifyElement 2 ''d'']", OF _ refl]
  by (auto simp: Let_def)

text \<open>
  C26. Iterating a delta visits its view: a range-for over the iterable view of a well-formed delta
  (with fewer than $2^{64}$ elements) terminates after as many steps as \<^verbatim>\<open>size()\<close> says and yields
  every element of the view once, the unremoved original elements in their order, with their
  modified values, before the added ones.
\<close>

theorem delta_iteration_visits_view:
  assumes inv: "delta_inv tag orig d" and small: "card (dom (view orig d)) < 2 ^ 64"
  shows "let it = make_delta_iterator orig (deltas d) 0 (size_delta orig d) in
    iterate_delta (unat (size_delta orig d) + 1) (deltas d) it = Some (Inr (visible (deltas d) orig)) \<and>
    map_of (visible (deltas d) orig) = view orig d \<and> distinct (map fst (visible (deltas d) orig)) \<and>
    length (visible (deltas d) orig) = unat (size_delta orig d)"
proof -
  let ?ps = "visible (deltas d) orig" and ?it = "make_delta_iterator orig (deltas d) 0 (size_delta orig d)"
  have len: "length ?ps = card (dom (view orig d))"
    using length_card [OF distinct_visible [OF inv]] map_of_visible [OF inv] by simp
  have size: "size_delta orig d = of_nat (length ?ps)" using size_delta_spec [OF inv] len by simp
  have unat: "unat (size_delta orig d) = length ?ps"
    using unat_of_nat_u64 [OF small] len size by simp
  have "it_ok (deltas d) ?it ?ps \<or> ?ps = []"
  proof (cases "size_delta orig d = 0")
    case True
    then show ?thesis using unat by simp
  next
    case False
    then show ?thesis
      using moveToValidElement_ok [of "deltas d" "\<lparr>m_position = 0, m_size = size_delta orig d, m_stage = Original,
        m_iter = orig, m_originalIter = orig\<rparr>"] by (simp add: make_delta_iterator_def Let_def)
  qed
  moreover have "m_size ?it - m_position ?it = of_nat (length ?ps)"
    using size by (simp add: make_delta_iterator_def Let_def)
  ultimately have "iterate_delta (length ?ps + 1) (deltas d) ?it = Some (Inr ?ps)"
    using iterate_delta_ok [of "deltas d" ?it ?ps "length ?ps + 1"] small len by simp
  then show ?thesis using map_of_visible [OF inv] distinct_visible [OF inv] unat by (simp add: Let_def)
qed

definition example_delta :: "(int, int) base_set_delta" where
  "example_delta = fold (delta_run [(1, 10), (2, 20)]) [Op_InsertElement 3 30, Op_RemoveElement 1, Op_InsertElement 4 40,
     Op_RemoveElement 4, Op_ModifyElement 2 21] BaseSetDelta"

lemmas delta_eval = insert_delta_def insert_mutable_def remove_delta_def remove_mutable_def remove_immutable_def
  find_delta_def find_tag_def write_found_def Let_def Contains_def cont_insert_def cont_erase_def cont_put_def
  markKey_def BaseSetDelta_def

theorem delta_iteration_witness:
  "card (dom (view [(1, 10), (2, 20)] example_delta)) = 2 \<and>
   iterate_delta 3 (deltas example_delta)
     (make_delta_iterator [(1, 10), (2, 20)] (deltas example_delta) 0 (size_delta [(1, 10), (2, 20)] example_delta)) =
     Some (Inr [(2, 21), (3, 30)])"
proof -
  have inv: "delta_inv MutableTypeTag [(1, 10), (2, 20)] example_delta"
    unfolding example_delta_def by (rule conjunct2 [OF delta_runs [OF delta_inv_fresh]]) simp
  have vis: "visible (deltas example_delta) [(1, 10), (2, 20)] = [(2, 21), (3, 30)]"
    by (simp add: visible_def deltas_def current_of_def example_delta_def delta_eval)
  have dom: "dom (view [(1, 10), (2, 20)] example_delta) = {2, 3}"
    using arg_cong [OF map_of_visible [OF inv], of dom] vis by (auto simp: dom_map_of_conv_image_fst)
  have small: "card (dom (view [(1, 10), (2, 20)] example_delta)) < 2 ^ 64" using dom by simp
  note it = delta_iteration_visits_view [OF inv small, unfolded Let_def vis]
  then have "unat (size_delta [(1, 10), (2, 20)] example_delta) + 1 = 3" by simp
  with it dom show ?thesis by simp
qed


end
