(* ===== verification/Tree_Node_Path.thy ===== *)
theory Tree_Node_Path
  imports Catapult_Prelude
begin

text \<open>
  Paths of the Patricia trees (\<^verbatim>\<open>src/catapult/tree/TreeNodePath\<close>) and their encodings: a path is a
  sequence of nibbles packed two to a byte, with an adjustment of one for paths that start at an odd
  nibble. Every operation is shown to be the corresponding list operation on the nibbles, so that
  the trees can be modelled over nibble lists. The second part holds the key encoding that is hashed
  into a node (\<^verbatim>\<open>TreeNode.cpp\<close>) and the serialised form of a path (\<^verbatim>\<open>PatriciaTreeSerializer.cpp\<close>).
\<close>

unbundle bit_operations_syntax

section \<open>Nibbles of a byte sequence\<close>

definition nibble_of :: "u8 list \<Rightarrow> nat \<Rightarrow> u8" where
  "nibble_of bytes index =
     (let byte = bytes ! (index div 2)
      in if index mod 2 = 0 then drop_bit 4 (byte AND 0xF0) else byte AND 0x0F)"

definition hi_nibble :: "u8 \<Rightarrow> u8" where "hi_nibble b = drop_bit 4 b"
definition lo_nibble :: "u8 \<Rightarrow> u8" where "lo_nibble b = take_bit 4 b"

lemma mask_F0: "(0xF0 :: u8) = push_bit 4 (mask 4)" and mask_0F: "(0x0F :: u8) = mask 4"
  by (simp_all add: mask_eq_exp_minus_1)

lemma nibble_of_eq:
  "nibble_of bytes i = (if i mod 2 = 0 then hi_nibble (bytes ! (i div 2)) else lo_nibble (bytes ! (i div 2)))"
proof -
  have "drop_bit 4 (b AND 0xF0) = drop_bit 4 b" for b :: u8
    unfolding mask_F0 by (rule bit_eqI) (auto simp: bit_simps dest: bit_imp_le_length)
  then show ?thesis by (simp add: nibble_of_def hi_nibble_def lo_nibble_def Let_def mask_0F flip: take_bit_eq_mask)
qed

definition all_nibbles :: "u8 list \<Rightarrow> u8 list" where
  "all_nibbles bytes = concat (map (\<lambda>b. [hi_nibble b, lo_nibble b]) bytes)"

lemma all_nibbles_simps [simp]:
  "all_nibbles [] = []" "all_nibbles (b # bs) = hi_nibble b # lo_nibble b # all_nibbles bs"
  by (simp_all add: all_nibbles_def)

lemma all_nibbles_append [simp]: "all_nibbles (xs @ ys) = all_nibbles xs @ all_nibbles ys"
  by (simp add: all_nibbles_def)

lemma length_all_nibbles [simp]: "length (all_nibbles bytes) = 2 * length bytes"
  by (induction bytes) simp_all

lemma nth_all_nibbles: "i < 2 * length bytes \<Longrightarrow> all_nibbles bytes ! i = nibble_of bytes i"
proof (induction bytes arbitrary: i)
  case (Cons b bytes)
  consider "i = 0" | "i = 1" | j where "i = Suc (Suc j)" by (metis One_nat_def not0_implies_Suc)
  then show ?case using Cons by cases (auto simp: nibble_of_eq)
qed simp

lemma all_nibbles_drop: "all_nibbles (drop k bytes) = drop (2 * k) (all_nibbles bytes)"
proof (induction bytes arbitrary: k)
  case (Cons b bytes)
  then show ?case by (cases k) simp_all
qed simp

lemma all_nibbles_take: "all_nibbles (take k bytes) = take (2 * k) (all_nibbles bytes)"
proof (induction bytes arbitrary: k)
  case (Cons b bytes)
  then show ?case by (cases k) simp_all
qed simp

lemma nibbles_small [simp]: "take_bit 4 (hi_nibble b) = hi_nibble b" "take_bit 4 (lo_nibble b) = lo_nibble b"
proof -
  have "n < 4" if "bit b (4 + n)" for n using bit_imp_le_length [OF that] by simp
  then show "take_bit 4 (hi_nibble b) = hi_nibble b" "take_bit 4 (lo_nibble b) = lo_nibble b"
    by (auto simp: hi_nibble_def lo_nibble_def bit_simps intro!: bit_eqI)
qed

lemma all_nibbles_small: "n \<in> set (all_nibbles bytes) \<Longrightarrow> take_bit 4 n = n"
  by (induction bytes) auto

text \<open>Putting two nibbles into a byte.\<close>

lemma byte_nibbles:
  assumes "take_bit 4 n = n"
  shows "hi_nibble (push_bit 4 n) = n" "lo_nibble (push_bit 4 n) = 0"
    and "take_bit 4 b = 0 \<Longrightarrow> hi_nibble (b OR n) = hi_nibble b"
    and "take_bit 4 b = 0 \<Longrightarrow> lo_nibble (b OR n) = n"
proof -
  have small: "\<not> bit n i" if "4 \<le> i" for i
    using arg_cong [OF assms, of "\<lambda>w. bit w i"] that by (simp add: bit_take_bit_iff)
  then have "i < 4" if "bit n i" for i using that not_le by blast
  then show "hi_nibble (push_bit 4 n) = n" by (intro bit_eqI) (auto simp: hi_nibble_def bit_simps)
  show "lo_nibble (push_bit 4 n) = 0" by (simp add: lo_nibble_def take_bit_push_bit)
  show "hi_nibble (b OR n) = hi_nibble b" by (rule bit_eqI) (auto simp: hi_nibble_def bit_simps small)
  assume "take_bit 4 b = 0"
  then show "lo_nibble (b OR n) = n" by (simp add: lo_nibble_def assms)
qed

section \<open>The path class\<close>

record tree_node_path =
  m_pathSize :: nat
  m_adjustment :: nat
  m_path :: "u8 list"

definition CalculateByteSize :: "nat \<Rightarrow> nat \<Rightarrow> nat" where
  "CalculateByteSize offset sz = sz div 2 + (if 0 = offset mod 2 \<and> 0 = sz mod 2 then 0 else 1)"

definition empty_path :: tree_node_path where
  "empty_path = \<lparr>m_pathSize = 0, m_adjustment = 0, m_path = []\<rparr>"

text \<open>The constructor from a key; a scalar key contributes its bytes in big endian order.\<close>

definition path_of_key :: "u8 list \<Rightarrow> tree_node_path" where
  "path_of_key key = \<lparr>m_pathSize = 2 * length key, m_adjustment = 0, m_path = key\<rparr>"

definition make_path :: "u8 list \<Rightarrow> nat \<Rightarrow> nat \<Rightarrow> tree_node_path" where
  "make_path path offset sz = \<lparr>m_pathSize = sz, m_adjustment = offset mod 2,
     m_path = (if 0 = sz then replicate (CalculateByteSize offset sz) 0
               else take (CalculateByteSize offset sz) (drop (offset div 2) path))\<rparr>"

definition path_empty :: "tree_node_path \<Rightarrow> bool" where
  "path_empty p \<longleftrightarrow> 0 = m_pathSize p"

definition nibbleAt :: "tree_node_path \<Rightarrow> nat \<Rightarrow> u8" where
  "nibbleAt p index = nibble_of (m_path p) (index + m_adjustment p)"

text \<open>The loop of \<^verbatim>\<open>FindFirstDifferenceIndex\<close>, started at index 0.\<close>

function first_difference :: "tree_node_path \<Rightarrow> tree_node_path \<Rightarrow> nat \<Rightarrow> nat" where
  "first_difference lhs rhs index =
     (if index < m_pathSize lhs \<and> index < m_pathSize rhs \<and> nibbleAt lhs index = nibbleAt rhs index
      then first_difference lhs rhs (index + 1) else index)"
  by pat_completeness auto
termination by (relation "measure (\<lambda>(lhs, rhs, index). m_pathSize lhs - index)") auto

declare first_difference.simps [simp del]

definition FindFirstDifferenceIndex :: "tree_node_path \<Rightarrow> tree_node_path \<Rightarrow> nat" where
  "FindFirstDifferenceIndex lhs rhs = first_difference lhs rhs 0"

definition path_eq :: "tree_node_path \<Rightarrow> tree_node_path \<Rightarrow> bool" where
  "path_eq p rhs \<longleftrightarrow> m_pathSize p = m_pathSize rhs \<and> m_pathSize p = FindFirstDifferenceIndex p rhs"

definition subpath :: "tree_node_path \<Rightarrow> nat \<Rightarrow> nat \<Rightarrow> tree_node_path" where
  "subpath p offset sz = make_path (m_path p) (offset + m_adjustment p) sz"

definition subpath_from :: "tree_node_path \<Rightarrow> nat \<Rightarrow> tree_node_path" where
  "subpath_from p offset = subpath p offset (m_pathSize p - offset)"

record join_builder =
  m_index :: nat
  m_bytes :: "u8 list"

definition JoinBuilder :: "nat \<Rightarrow> join_builder" where
  "JoinBuilder sz = \<lparr>m_index = 0, m_bytes = replicate sz 0\<rparr>"

definition addNibble :: "u8 \<Rightarrow> join_builder \<Rightarrow> join_builder" where
  "addNibble nibble b = b\<lparr>m_bytes := (m_bytes b)[m_index b div 2 := m_bytes b ! (m_index b div 2) OR
      (if 0 \<noteq> m_index b mod 2 then nibble AND 0x0F else push_bit 4 nibble)],
    m_index := m_index b + 1\<rparr>"

definition addNibbles :: "tree_node_path \<Rightarrow> join_builder \<Rightarrow> join_builder" where
  "addNibbles path b = fold (\<lambda>i. addNibble (nibbleAt path i)) [0..<m_pathSize path] b"

definition Join :: "tree_node_path \<Rightarrow> tree_node_path \<Rightarrow> tree_node_path" where
  "Join lhs rhs =
     (let joinedPathSize = m_pathSize lhs + m_pathSize rhs;
          builder = addNibbles rhs (addNibbles lhs (JoinBuilder ((joinedPathSize + 1) div 2)))
      in make_path (m_bytes builder) 0 joinedPathSize)"

definition Join_nibble :: "tree_node_path \<Rightarrow> u8 \<Rightarrow> tree_node_path \<Rightarrow> tree_node_path" where
  "Join_nibble lhs nibble rhs =
     (let joinedPathSize = m_pathSize lhs + 1 + m_pathSize rhs;
          builder = addNibbles rhs (addNibble nibble (addNibbles lhs (JoinBuilder ((joinedPathSize + 1) div 2))))
      in make_path (m_bytes builder) 0 joinedPathSize)"

section \<open>Paths as nibble lists\<close>

definition nibbles :: "tree_node_path \<Rightarrow> u8 list" where
  "nibbles p = map (nibbleAt p) [0..<m_pathSize p]"

definition path_ok :: "tree_node_path \<Rightarrow> bool" where
  "path_ok p \<longleftrightarrow> m_adjustment p < 2 \<and> m_adjustment p + m_pathSize p \<le> 2 * length (m_path p)"

lemma length_nibbles [simp]: "length (nibbles p) = m_pathSize p"
  by (simp add: nibbles_def)

lemma nth_nibbles [simp]: "i < m_pathSize p \<Longrightarrow> nibbles p ! i = nibbleAt p i"
  by (simp add: nibbles_def)

lemma nibbles_eq: "path_ok p \<Longrightarrow> nibbles p = take (m_pathSize p) (drop (m_adjustment p) (all_nibbles (m_path p)))"
  by (rule nth_equalityI) (auto simp: path_ok_def nibbleAt_def nth_all_nibbles add.commute)

lemma nibbles_are_small: "path_ok p \<Longrightarrow> n \<in> set (nibbles p) \<Longrightarrow> take_bit 4 n = n"
  by (auto simp: nibbles_eq dest: in_set_takeD in_set_dropD all_nibbles_small)

lemma make_path_spec:
  assumes "offset + sz \<le> 2 * length bytes"
  shows "path_ok (make_path bytes offset sz)"
    and "nibbles (make_path bytes offset sz) = take sz (drop offset (all_nibbles bytes))"
proof -
  let ?n = "CalculateByteSize offset sz" and ?p = "make_path bytes offset sz"
  define a b c d where "a = sz div 2" and "b = sz mod 2" and "c = offset div 2" and "d = offset mod 2"
  have sz: "sz = 2 * a + b" "b < 2" and offs: "offset = 2 * c + d" "d < 2"
    by (simp_all add: a_def b_def c_def d_def)
  have size: "?n = a + (if d = 0 \<and> b = 0 then 0 else 1)"
    by (simp add: CalculateByteSize_def a_def b_def d_def)
  have n: "offset mod 2 + sz \<le> 2 * ?n" unfolding size d_def [symmetric] using sz offs(2) by (simp split: if_splits)
  have off: "2 * (offset div 2) + offset mod 2 = offset" by simp
  have fit: "offset div 2 + ?n \<le> length bytes" if "sz \<noteq> 0"
    unfolding size c_def [symmetric] using assms that sz offs by (simp split: if_splits)
  show ok: "path_ok ?p"
    using n fit by (auto simp: path_ok_def make_path_def min_def)
  show "nibbles ?p = take sz (drop offset (all_nibbles bytes))"
  proof (cases "sz = 0")
    case False
    then have "nibbles ?p = take sz (drop (offset mod 2) (take (2 * ?n) (drop (2 * (offset div 2)) (all_nibbles bytes))))"
      using nibbles_eq [OF ok] by (simp add: make_path_def all_nibbles_take all_nibbles_drop)
    also have "\<dots> = take sz (drop offset (all_nibbles bytes))"
      using n off by (simp add: drop_take min_def add.commute)
    finally show ?thesis .
  qed (simp add: nibbles_def make_path_def)
qed

lemma path_of_key_spec: "path_ok (path_of_key key)" "nibbles (path_of_key key) = all_nibbles key"
proof -
  show ok: "path_ok (path_of_key key)" by (simp add: path_ok_def path_of_key_def)
  show "nibbles (path_of_key key) = all_nibbles key" using nibbles_eq [OF ok] by (simp add: path_of_key_def)
qed

lemma subpath_spec:
  assumes "path_ok p" and "offset + sz \<le> m_pathSize p"
  shows "path_ok (subpath p offset sz)" and "nibbles (subpath p offset sz) = take sz (drop offset (nibbles p))"
proof -
  have fit: "offset + m_adjustment p + sz \<le> 2 * length (m_path p)" using assms by (simp add: path_ok_def)
  note mp = make_path_spec [OF fit]
  show "path_ok (subpath p offset sz)" using mp(1) by (simp add: subpath_def)
  have "nibbles (subpath p offset sz) = take sz (drop offset (drop (m_adjustment p) (all_nibbles (m_path p))))"
    using mp(2) by (simp add: subpath_def add.commute)
  also have "\<dots> = take sz (drop offset (nibbles p))"
    using assms(2) by (simp add: nibbles_eq [OF assms(1)] drop_take min_def)
  finally show "nibbles (subpath p offset sz) = take sz (drop offset (nibbles p))" .
qed

lemma subpath_from_spec:
  assumes "path_ok p" and "offset \<le> m_pathSize p"
  shows "path_ok (subpath_from p offset)" and "nibbles (subpath_from p offset) = drop offset (nibbles p)"
  using subpath_spec [OF assms(1), of offset "m_pathSize p - offset"] assms(2)
  by (simp_all add: subpath_from_def)

text \<open>The length of the longest common prefix of two lists.\<close>

fun lcp_len :: "'a list \<Rightarrow> 'a list \<Rightarrow> nat" where
  "lcp_len (x # xs) (y # ys) = (if x = y then Suc (lcp_len xs ys) else 0)"
| "lcp_len _ _ = 0"

lemma lcp_len_le: "lcp_len xs ys \<le> length xs" "lcp_len xs ys \<le> length ys"
  by (induction xs ys rule: lcp_len.induct) auto

lemma lcp_len_take: "take (lcp_len xs ys) xs = take (lcp_len xs ys) ys"
  by (induction xs ys rule: lcp_len.induct) auto

lemma lcp_len_nth: "lcp_len xs ys < length xs \<Longrightarrow> lcp_len xs ys < length ys \<Longrightarrow>
   xs ! lcp_len xs ys \<noteq> ys ! lcp_len xs ys"
  by (induction xs ys rule: lcp_len.induct) auto

lemma lcp_len_full: "lcp_len xs ys = length xs \<Longrightarrow> length xs = length ys \<longleftrightarrow> xs = ys"
  by (metis lcp_len_take take_all_iff order_refl)

lemma lcp_len_refl [simp]: "lcp_len xs xs = length xs"
  by (induction xs) simp_all

lemma lcp_len_append [simp]: "lcp_len (xs @ ys) (xs @ zs) = length xs + lcp_len ys zs"
  by (induction xs) simp_all

lemma first_difference_eq:
  "index \<le> m_pathSize lhs \<Longrightarrow> index \<le> m_pathSize rhs \<Longrightarrow>
   first_difference lhs rhs index = index + lcp_len (drop index (nibbles lhs)) (drop index (nibbles rhs))"
proof (induction lhs rhs index rule: first_difference.induct)
  case (1 lhs rhs i)
  show ?case
  proof (cases "i < m_pathSize lhs \<and> i < m_pathSize rhs")
    case True
    then have "drop i (nibbles lhs) = nibbleAt lhs i # drop (i + 1) (nibbles lhs)"
      "drop i (nibbles rhs) = nibbleAt rhs i # drop (i + 1) (nibbles rhs)"
      using Cons_nth_drop_Suc [of i "nibbles lhs"] Cons_nth_drop_Suc [of i "nibbles rhs"] by simp_all
    with 1 True show ?thesis by (subst first_difference.simps) simp
  next
    case False
    with 1(2,3) have "drop i (nibbles lhs) = [] \<or> drop i (nibbles rhs) = []" by auto
    with False show ?thesis by (subst first_difference.simps) auto
  qed
qed

lemma FindFirstDifferenceIndex_eq: "FindFirstDifferenceIndex lhs rhs = lcp_len (nibbles lhs) (nibbles rhs)"
  by (simp add: FindFirstDifferenceIndex_def first_difference_eq)

lemma path_eq_iff: "path_eq p q \<longleftrightarrow> nibbles p = nibbles q"
proof
  assume "path_eq p q"
  then show "nibbles p = nibbles q"
    using lcp_len_full [of "nibbles p" "nibbles q"] by (simp add: path_eq_def FindFirstDifferenceIndex_eq)
next
  assume "nibbles p = nibbles q"
  then show "path_eq p q"
    by (metis FindFirstDifferenceIndex_eq lcp_len_refl length_nibbles path_eq_def)
qed

lemma all_nibbles_update:
  "j < length bs \<Longrightarrow> all_nibbles (bs[j := b]) = (all_nibbles bs)[2 * j := hi_nibble b, Suc (2 * j) := lo_nibble b]"
proof (induction bs arbitrary: j)
  case (Cons a bs)
  then show ?case by (cases j) simp_all
qed simp

lemma byte_zero: "hi_nibble b = 0 \<Longrightarrow> lo_nibble b = 0 \<Longrightarrow> b = 0"
  using bits_ident [of 4 b] by (simp add: hi_nibble_def lo_nibble_def)

definition builder_ok :: "u8 list \<Rightarrow> join_builder \<Rightarrow> bool" where
  "builder_ok xs b \<longleftrightarrow> m_index b = length xs \<and>
     all_nibbles (m_bytes b) = xs @ replicate (2 * length (m_bytes b) - length xs) 0"

lemma builder_byte:
  assumes ok: "builder_ok xs b" and room: "length xs < 2 * length (m_bytes b)"
  shows "length xs mod 2 = 0 \<Longrightarrow> m_bytes b ! (length xs div 2) = 0"
    and "length xs mod 2 \<noteq> 0 \<Longrightarrow> take_bit 4 (m_bytes b ! (length xs div 2)) = 0"
proof -
  have zero: "nibble_of (m_bytes b) i = 0" if "length xs \<le> i" "i < 2 * length (m_bytes b)" for i
    using that ok nth_all_nibbles [OF that(2)] by (simp add: builder_ok_def nth_append)
  show "take_bit 4 (m_bytes b ! (length xs div 2)) = 0" if "length xs mod 2 \<noteq> 0"
    using zero [of "length xs"] room that by (simp add: nibble_of_eq lo_nibble_def)
  show "m_bytes b ! (length xs div 2) = 0" if even: "length xs mod 2 = 0"
  proof (rule byte_zero)
    show "hi_nibble (m_bytes b ! (length xs div 2)) = 0"
      using zero [of "length xs"] room even by (simp add: nibble_of_eq)
    have "length xs + 1 < 2 * length (m_bytes b)" using room even by presburger
    moreover have "(length xs + 1) div 2 = length xs div 2" "(length xs + 1) mod 2 \<noteq> 0" using even by presburger+
    ultimately show "lo_nibble (m_bytes b ! (length xs div 2)) = 0"
      using zero [of "length xs + 1"] by (simp add: nibble_of_eq)
  qed
qed

lemma addNibble_ok:
  assumes ok: "builder_ok xs b" and room: "length xs < 2 * length (m_bytes b)" and small: "take_bit 4 n = n"
  shows "builder_ok (xs @ [n]) (addNibble n b)" and "length (m_bytes (addNibble n b)) = length (m_bytes b)"
proof -
  let ?j = "length xs div 2" and ?bs = "m_bytes b" and ?k = "2 * length (m_bytes b) - length xs"
  have idx: "m_index b = length xs" and all: "all_nibbles ?bs = xs @ replicate ?k 0"
    using ok by (simp_all add: builder_ok_def)
  have j: "?j < length ?bs" using room by simp
  obtain k where k: "?k = Suc k" using room by (cases ?k) auto
  have masked: "n AND 0x0F = n" using small by (simp add: mask_0F flip: take_bit_eq_mask)
  have "all_nibbles (m_bytes (addNibble n b)) = xs @ n # replicate k 0"
  proof (cases "length xs mod 2 = 0")
    case True
    then have twice: "2 * ?j = length xs" by presburger
    have "m_bytes (addNibble n b) = ?bs[?j := push_bit 4 n]"
      using True builder_byte(1) [OF ok room] idx by (simp add: addNibble_def)
    then have "all_nibbles (m_bytes (addNibble n b)) = (xs @ replicate ?k 0)[length xs := n, Suc (length xs) := 0]"
      using all_nibbles_update [OF j] twice all byte_nibbles(1,2) [OF small] by simp
    also have "\<dots> = xs @ n # (replicate k 0)[0 := 0]" by (simp add: k list_update_append)
    also have "(replicate k 0)[0 := 0] = replicate k (0 :: u8)" by (cases k) simp_all
    finally show ?thesis .
  next
    case False
    then have twice: "Suc (2 * ?j) = length xs" by presburger
    let ?b = "?bs ! ?j"
    note low = builder_byte(2) [OF ok room False]
    have "all_nibbles ?bs ! (2 * ?j) = hi_nibble ?b" using j by (simp add: nth_all_nibbles nibble_of_eq)
    then have same: "(xs @ replicate ?k 0)[2 * ?j := hi_nibble ?b] = xs @ replicate ?k 0"
      using all by (metis list_update_id)
    have "m_bytes (addNibble n b) = ?bs[?j := ?b OR n]" using False idx masked by (simp add: addNibble_def)
    then have "all_nibbles (m_bytes (addNibble n b)) = (xs @ replicate ?k 0)[length xs := n]"
      using all_nibbles_update [OF j] twice all byte_nibbles(3,4) [OF small low] same by simp
    then show ?thesis by (simp add: k list_update_append)
  qed
  moreover have "m_index (addNibble n b) = length (xs @ [n])" using idx by (simp add: addNibble_def)
  moreover show len: "length (m_bytes (addNibble n b)) = length ?bs" by (simp add: addNibble_def)
  ultimately show "builder_ok (xs @ [n]) (addNibble n b)" using k by (simp add: builder_ok_def)
qed

lemma fold_addNibble_ok:
  "builder_ok xs b \<Longrightarrow> length xs + length ns \<le> 2 * length (m_bytes b) \<Longrightarrow> \<forall>n \<in> set ns. take_bit 4 n = n \<Longrightarrow>
   builder_ok (xs @ ns) (fold addNibble ns b) \<and> length (m_bytes (fold addNibble ns b)) = length (m_bytes b)"
proof (induction ns arbitrary: xs b)
  case (Cons n ns)
  then have step: "builder_ok (xs @ [n]) (addNibble n b)" "length (m_bytes (addNibble n b)) = length (m_bytes b)"
    using addNibble_ok [of xs b n] by auto
  show ?case using Cons.IH [OF step(1)] Cons.prems step(2) by simp
qed simp

lemma addNibbles_eq: "addNibbles p b = fold addNibble (nibbles p) b"
  by (simp add: addNibbles_def nibbles_def fold_map comp_def)

lemma JoinBuilder_ok: "builder_ok [] (JoinBuilder sz)"
  by (induction sz) (simp_all add: builder_ok_def JoinBuilder_def hi_nibble_def lo_nibble_def)

lemma built_path:
  assumes "builder_ok ns b" and "length (m_bytes b) = (length ns + 1) div 2"
  shows "path_ok (make_path (m_bytes b) 0 (length ns))" and "nibbles (make_path (m_bytes b) 0 (length ns)) = ns"
  using make_path_spec [of 0 "length ns" "m_bytes b"] assms by (simp_all add: builder_ok_def)

lemma Join_nibble_spec:
  assumes ok: "path_ok lhs" "path_ok rhs" and n: "take_bit 4 n = n"
  shows "path_ok (Join_nibble lhs n rhs)" and "nibbles (Join_nibble lhs n rhs) = nibbles lhs @ n # nibbles rhs"
proof -
  let ?ns = "nibbles lhs @ n # nibbles rhs"
  let ?b = "fold addNibble ?ns (JoinBuilder ((length ?ns + 1) div 2))"
  have small: "\<forall>m \<in> set ?ns. take_bit 4 m = m" using nibbles_are_small ok n by auto
  have len: "length (m_bytes (JoinBuilder sz)) = sz" for sz by (simp add: JoinBuilder_def)
  have b: "builder_ok ?ns ?b" "length (m_bytes ?b) = (length ?ns + 1) div 2"
    using fold_addNibble_ok [OF JoinBuilder_ok _ small, of "(length ?ns + 1) div 2"] len by auto
  have eq: "Join_nibble lhs n rhs = make_path (m_bytes ?b) 0 (length ?ns)"
    by (simp add: Join_nibble_def Let_def addNibbles_eq)
  show "path_ok (Join_nibble lhs n rhs)" and "nibbles (Join_nibble lhs n rhs) = ?ns"
    unfolding eq using built_path [OF b] by simp_all
qed

lemma Join_spec:
  assumes ok: "path_ok lhs" "path_ok rhs"
  shows "path_ok (Join lhs rhs)" and "nibbles (Join lhs rhs) = nibbles lhs @ nibbles rhs"
proof -
  let ?ns = "nibbles lhs @ nibbles rhs"
  let ?b = "fold addNibble ?ns (JoinBuilder ((length ?ns + 1) div 2))"
  have small: "\<forall>m \<in> set ?ns. take_bit 4 m = m" using nibbles_are_small ok by auto
  have len: "length (m_bytes (JoinBuilder sz)) = sz" for sz by (simp add: JoinBuilder_def)
  have b: "builder_ok ?ns ?b" "length (m_bytes ?b) = (length ?ns + 1) div 2"
    using fold_addNibble_ok [OF JoinBuilder_ok _ small, of "(length ?ns + 1) div 2"] len by auto
  have eq: "Join lhs rhs = make_path (m_bytes ?b) 0 (length ?ns)" by (simp add: Join_def Let_def addNibbles_eq)
  show "path_ok (Join lhs rhs)" and "nibbles (Join lhs rhs) = ?ns"
    unfolding eq using built_path [OF b] by simp_all
qed

section \<open>The key encoding of a node hash\<close>

text \<open>
  \<^verbatim>\<open>EncodeKey\<close> prefixes the nibbles with a flag nibble (leaf, odd length) and packs them into bytes;
  the pairs of nibbles are written by the loop over the even part of the path.
\<close>

fun pack_nibbles :: "u8 list \<Rightarrow> u8 list" where
  "pack_nibbles (a # b # ns) = (push_bit 4 a + b) # pack_nibbles ns"
| "pack_nibbles _ = []"

definition EncodeKey :: "u8 list \<Rightarrow> bool \<Rightarrow> u8 list" where
  "EncodeKey path isLeaf =
     (let flag = (if isLeaf then 0x20 else 0)
      in if length path mod 2 = 1
         then ((flag OR 0x10) OR hd path) # pack_nibbles (tl path)
         else flag # pack_nibbles path)"

lemma pack_add: "take_bit 4 b = b \<Longrightarrow> push_bit 4 a + b = push_bit 4 a OR (b :: u8)"
proof (rule disjunctive_add)
  fix i
  assume "take_bit 4 b = b"
  then have "bit b i \<Longrightarrow> i < 4" by (metis bit_take_bit_iff)
  then show "\<not> bit (push_bit 4 a) i \<or> \<not> bit b i" by (auto simp: bit_simps)
qed

lemma pack_byte:
  assumes "take_bit 4 a = a" and "take_bit 4 b = b"
  shows "hi_nibble (push_bit 4 a + b) = a" and "lo_nibble (push_bit 4 a + b) = b"
  using byte_nibbles(1) [OF assms(1)] byte_nibbles(2) [OF assms(1)] byte_nibbles(3,4) [OF assms(2), of "push_bit 4 a"]
    pack_add [OF assms(2), of a] by (simp_all add: lo_nibble_def)

lemma all_nibbles_pack:
  "even (length ns) \<Longrightarrow> \<forall>n \<in> set ns. take_bit 4 n = n \<Longrightarrow> all_nibbles (pack_nibbles ns) = ns"
  by (induction ns rule: pack_nibbles.induct) (auto simp: pack_byte)

lemma encode_flags:
  assumes "take_bit 4 n = (n :: u8)"
  shows "hi_nibble ((0x20 OR 0x10) OR n) = 3" "hi_nibble ((0 OR 0x10) OR n) = 1"
    "lo_nibble ((0x20 OR 0x10) OR n) = n" "lo_nibble ((0 OR 0x10) OR n) = n"
    "hi_nibble (0x20 :: u8) = 2" "hi_nibble (0 :: u8) = 0"
  using byte_nibbles(3,4) [OF assms, of "0x20 OR 0x10"] byte_nibbles(3,4) [OF assms, of "0 OR 0x10"]
  by (simp_all add: hi_nibble_def)

text \<open>The encoding determines the path and the kind of the node.\<close>

lemma EncodeKey_nibbles:
  assumes small: "\<forall>n \<in> set path. take_bit 4 n = n"
  shows "all_nibbles (EncodeKey path isLeaf) =
    (if length path mod 2 = 1 then (if isLeaf then 3 else 1) # path
     else (if isLeaf then 2 else 0) # 0 # path)"
proof (cases "length path mod 2 = 1")
  case True
  then obtain n ns where path: "path = n # ns" by (cases path) auto
  have "even (length ns)" using True path by (simp add: mod2_eq_if split: if_splits)
  with True path small show ?thesis
    using encode_flags [of n] by (simp add: EncodeKey_def Let_def all_nibbles_pack)
next
  case False
  then have "even (length path)" by presburger
  with False small show ?thesis
    by (simp add: EncodeKey_def Let_def all_nibbles_pack hi_nibble_def lo_nibble_def)
qed

lemma EncodeKey_inject:
  assumes "\<forall>n \<in> set p. take_bit 4 n = n" and "\<forall>n \<in> set q. take_bit 4 n = n"
    and eq: "EncodeKey p l = EncodeKey q m"
  shows "p = q \<and> l = m"
proof -
  have "all_nibbles (EncodeKey p l) = all_nibbles (EncodeKey q m)" using eq by simp
  then show ?thesis unfolding EncodeKey_nibbles [OF assms(1)] EncodeKey_nibbles [OF assms(2)]
    by (simp split: if_splits)
qed

section \<open>The interface of paths\<close>

text \<open>
  What the trees use of a path: a sequence of nibbles that can be cut at an index, joined around a
  nibble, and compared for the first difference.
\<close>

locale nibble_path =
  fixes nibs :: "'p \<Rightarrow> u8 list"
    and ok :: "'p \<Rightarrow> bool"
    and at :: "'p \<Rightarrow> nat \<Rightarrow> u8"
    and sub :: "'p \<Rightarrow> nat \<Rightarrow> nat \<Rightarrow> 'p"
    and sub_from :: "'p \<Rightarrow> nat \<Rightarrow> 'p"
    and join :: "'p \<Rightarrow> u8 \<Rightarrow> 'p \<Rightarrow> 'p"
    and diff :: "'p \<Rightarrow> 'p \<Rightarrow> nat"
  assumes at_nibs: "i < length (nibs p) \<Longrightarrow> at p i = nibs p ! i"
    and small: "ok p \<Longrightarrow> n \<in> set (nibs p) \<Longrightarrow> take_bit 4 n = n"
    and sub_nibs: "ok p \<Longrightarrow> i + j \<le> length (nibs p) \<Longrightarrow> ok (sub p i j) \<and> nibs (sub p i j) = take j (drop i (nibs p))"
    and sub_from_nibs: "ok p \<Longrightarrow> i \<le> length (nibs p) \<Longrightarrow> ok (sub_from p i) \<and> nibs (sub_from p i) = drop i (nibs p)"
    and join_nibs: "ok p \<Longrightarrow> ok q \<Longrightarrow> take_bit 4 n = n \<Longrightarrow> ok (join p n q) \<and> nibs (join p n q) = nibs p @ n # nibs q"
    and diff_nibs: "diff p q = lcp_len (nibs p) (nibs q)"
begin

text \<open>Cutting a path at an index and joining the pieces gives the path back.\<close>

lemma split_join:
  assumes "ok p" and "i < length (nibs p)"
  shows "nibs (join (sub p 0 i) (at p i) (sub_from p (i + 1))) = nibs p"
proof -
  have "take_bit 4 (at p i) = at p i" using assms small at_nibs by simp
  then show ?thesis
    using assms sub_nibs [of p 0 i] sub_from_nibs [of p "i + 1"] join_nibs at_nibs id_take_nth_drop [of i "nibs p"]
    by simp
qed

text \<open>Two paths share everything before the first difference.\<close>

lemma shared_prefix:
  assumes "ok p" and "ok q"
  shows "nibs (sub p 0 (diff p q)) = nibs (sub q 0 (diff p q))"
  using assms sub_nibs [of p 0 "diff p q"] sub_nibs [of q 0 "diff p q"] lcp_len_le [of "nibs p" "nibs q"]
    lcp_len_take [of "nibs p" "nibs q"] by (simp add: diff_nibs)

end

interpretation packed: nibble_path nibbles path_ok nibbleAt subpath subpath_from Join_nibble FindFirstDifferenceIndex
proof
qed (use nibbles_are_small subpath_spec subpath_from_spec Join_nibble_spec in
      \<open>auto simp: FindFirstDifferenceIndex_eq\<close>)

section \<open>Properties\<close>

text \<open>
  C22. Splitting a path and joining it again is the identity: for every index of a well-formed path,
  the nibbles before it, the nibble at it and the nibbles after it, joined by \<^verbatim>\<open>TreeNodePath::Join\<close>,
  compare equal to the original path, whatever the alignment of the packed bytes.
\<close>

theorem path_split_join_roundtrip:
  assumes "path_ok p" and "i < m_pathSize p"
  shows "path_eq (Join_nibble (subpath p 0 i) (nibbleAt p i) (subpath_from p (i + 1))) p"
  using packed.split_join [OF assms(1), of i] assms(2) by (simp add: path_eq_iff)

theorem path_split_join_witness:
  "let p = subpath_from (path_of_key [0x12, 0x34, 0x56]) 1
   in path_ok p \<and> m_pathSize p = 5 \<and> path_eq (Join_nibble (subpath p 0 2) (nibbleAt p 2) (subpath_from p 3)) p"
proof -
  let ?p = "subpath_from (path_of_key [0x12, 0x34, 0x56]) 1"
  have p: "path_ok ?p" "m_pathSize ?p = 5"
    by (simp_all add: path_ok_def subpath_from_def subpath_def make_path_def path_of_key_def CalculateByteSize_def)
  then show ?thesis using path_split_join_roundtrip [OF p(1), of 2] by (simp add: Let_def)
qed

text \<open>
  C23. The key encoding that goes into a node's hash is injective: the encodings of two well-formed
  paths agree only if the paths have the same nibbles and both nodes are leaves or both branches.
\<close>

theorem key_encoding_injective:
  assumes "path_ok p" and "path_ok q" and "EncodeKey (nibbles p) l = EncodeKey (nibbles q) m"
  shows "path_eq p q \<and> l = m"
  using EncodeKey_inject [of "nibbles p" "nibbles q" l m] nibbles_are_small assms by (auto simp: path_eq_iff)

theorem key_encoding_witness:
  "let p = path_of_key [0xAB]; q = subpath (path_of_key [0x0A, 0xB0]) 1 2
   in EncodeKey (nibbles p) True = EncodeKey (nibbles q) True \<and> path_eq p q"
proof -
  let ?p = "path_of_key [0xAB]" and ?q = "subpath (path_of_key [0x0A, 0xB0]) 1 2"
  have "nibbles ?p = nibbles ?q"
    using path_of_key_spec(2) [of "[0xAB]"] subpath_spec(2) [OF path_of_key_spec(1), of 1 2 "[0x0A, 0xB0]"]
      path_of_key_spec(2) [of "[0x0A, 0xB0]"]
    by (simp add: path_of_key_def hi_nibble_def lo_nibble_def)
  then have eq: "EncodeKey (nibbles ?p) True = EncodeKey (nibbles ?q) True" by simp
  have "path_ok ?p" "path_ok ?q"
    by (simp_all add: path_ok_def subpath_def make_path_def path_of_key_def CalculateByteSize_def)
  with key_encoding_injective [OF this eq] eq show ?thesis by (simp add: Let_def)
qed

end
