(* ===== verification/Patricia_Spec.thy ===== *)
theory Patricia_Spec
  imports Tree_Node_Path
begin

text \<open>
  The abstract Patricia tree: what the nodes of \<^verbatim>\<open>src/catapult/tree\<close> stand for once every link is
  followed. A tree maps key paths of one fixed length to values; a leaf holds the rest of its key, a
  branch a shared path and the subtrees of the next nibble. The theory shows that setting and
  unsetting a key change the contents at that key only, that they keep the shape (every branch has
  at least two children) and that the shape makes trees canonical: the contents determine the tree.
\<close>

section \<open>Trees and their contents\<close>

type_synonym hash256 = "u8 list"
type_synonym path = "u8 list"

datatype ptree = PLeaf path hash256 | PBranch path "u8 \<Rightarrow> ptree option"

function plookup :: "ptree \<Rightarrow> path \<Rightarrow> hash256 option" where
  "plookup (PLeaf p v) k = (if p = k then Some v else None)"
| "plookup (PBranch p f) k =
     (if length p < length k \<and> take (length p) k = p
      then case f (k ! length p) of None \<Rightarrow> None | Some t \<Rightarrow> plookup t (drop (Suc (length p)) k)
      else None)"
  by pat_completeness auto
termination by (relation "measure (\<lambda>(t, k). length k)") auto

function pset :: "ptree \<Rightarrow> path \<Rightarrow> hash256 \<Rightarrow> ptree" where
  "pset (PLeaf p w) k v =
     (if p = k then PLeaf k v
      else let d = lcp_len p k in
        PBranch (take d p) [p ! d \<mapsto> PLeaf (drop (Suc d) p) w, k ! d \<mapsto> PLeaf (drop (Suc d) k) v])"
| "pset (PBranch p f) k v =
     (let d = lcp_len p k in
      if d = length p then
        if d < length k then
          PBranch p (f(k ! d \<mapsto> (case f (k ! d) of None \<Rightarrow> PLeaf (drop (Suc d) k) v
                                   | Some t \<Rightarrow> pset t (drop (Suc d) k) v)))
        else PBranch p f
      else PBranch (take d p) [k ! d \<mapsto> PLeaf (drop (Suc d) k) v, p ! d \<mapsto> PBranch (drop (Suc d) p) f])"
  by pat_completeness auto
termination by (relation "measure (\<lambda>(t, k, v). length k)") auto

definition prepend :: "path \<Rightarrow> u8 \<Rightarrow> ptree \<Rightarrow> ptree" where
  "prepend p n t = (case t of PLeaf q v \<Rightarrow> PLeaf (p @ n # q) v | PBranch q f \<Rightarrow> PBranch (p @ n # q) f)"

text \<open>A branch whose only child is left merges with it.\<close>

definition nibble_list :: "u8 list" where
  "nibble_list = map of_nat [0..<16]"

definition children :: "(u8 \<Rightarrow> ptree option) \<Rightarrow> u8 list" where
  "children f = filter (\<lambda>n. f n \<noteq> None) nibble_list"

definition collapse :: "path \<Rightarrow> (u8 \<Rightarrow> ptree option) \<Rightarrow> ptree" where
  "collapse p f =
     (case children f of
        [n] \<Rightarrow> (case f n of Some t \<Rightarrow> prepend p n t | None \<Rightarrow> PBranch p f)
      | _ \<Rightarrow> PBranch p f)"

text \<open>Removing a key: \<open>None\<close> when it is not there, \<open>Some None\<close> when nothing is left.\<close>

function punset :: "ptree \<Rightarrow> path \<Rightarrow> ptree option option" where
  "punset (PLeaf p v) k = (if p = k then Some None else None)"
| "punset (PBranch p f) k =
     (if length p < length k \<and> take (length p) k = p
      then case f (k ! length p) of
          None \<Rightarrow> None
        | Some t \<Rightarrow>
           (case punset t (drop (Suc (length p)) k) of
              None \<Rightarrow> None
            | Some None \<Rightarrow> Some (Some (collapse p (f(k ! length p := None))))
            | Some (Some t') \<Rightarrow> Some (Some (PBranch p (f(k ! length p \<mapsto> t')))))
      else None)"
  by pat_completeness auto
termination by (relation "measure (\<lambda>(t, k). length k)") auto

declare plookup.simps(2) [simp del] pset.simps [simp del] punset.simps(2) [simp del]

section \<open>Shape\<close>

definition nibble_ok :: "u8 \<Rightarrow> bool" where
  "nibble_ok n \<longleftrightarrow> n \<in> set nibble_list"

definition path_nibbles :: "path \<Rightarrow> bool" where
  "path_nibbles p \<longleftrightarrow> (\<forall>n \<in> set p. nibble_ok n)"

function wf :: "nat \<Rightarrow> ptree \<Rightarrow> bool" where
  "wf l (PLeaf p v) \<longleftrightarrow> length p = l \<and> path_nibbles p"
| "wf l (PBranch p f) \<longleftrightarrow> length p < l \<and> path_nibbles p \<and> (\<forall>n. f n \<noteq> None \<longrightarrow> nibble_ok n) \<and>
     (\<exists>m n. m \<noteq> n \<and> f m \<noteq> None \<and> f n \<noteq> None) \<and>
     (\<forall>n t. f n = Some t \<longrightarrow> length p < l \<longrightarrow> wf (l - Suc (length p)) t)"
  by pat_completeness auto
termination by (relation "measure fst") auto

declare wf.simps(2) [simp del]

lemma wf_branchD:
  assumes "wf l (PBranch p f)"
  shows "length p < l" "path_nibbles p" "f n \<noteq> None \<Longrightarrow> nibble_ok n" "\<exists>m n. m \<noteq> n \<and> f m \<noteq> None \<and> f n \<noteq> None"
    "f n = Some t \<Longrightarrow> wf (l - Suc (length p)) t"
  using assms by (auto simp: wf.simps(2))

lemma wf_branchI:
  assumes "length p < l" "path_nibbles p" "\<And>n t. f n = Some t \<Longrightarrow> nibble_ok n \<and> wf (l - Suc (length p)) t"
    "m \<noteq> n" "f m \<noteq> None" "f n \<noteq> None"
  shows "wf l (PBranch p f)"
  using assms unfolding wf.simps(2) by blast

definition key_ok :: "nat \<Rightarrow> path \<Rightarrow> bool" where
  "key_ok l k \<longleftrightarrow> length k = l \<and> path_nibbles k"

lemma path_nibbles_simps [simp]:
  "path_nibbles []" "path_nibbles (n # p) \<longleftrightarrow> nibble_ok n \<and> path_nibbles p"
  "path_nibbles (p @ q) \<longleftrightarrow> path_nibbles p \<and> path_nibbles q"
  by (auto simp: path_nibbles_def)

lemma path_nibbles_take_drop: "path_nibbles p \<Longrightarrow> path_nibbles (take i p) \<and> path_nibbles (drop i p)"
  by (auto simp: path_nibbles_def dest: in_set_takeD in_set_dropD)

lemma path_nibbles_nth: "path_nibbles p \<Longrightarrow> i < length p \<Longrightarrow> nibble_ok (p ! i)"
  by (simp add: path_nibbles_def)

lemma plookup_branch:
  "plookup (PBranch p f) (p @ n # k) = (case f n of None \<Rightarrow> None | Some t \<Rightarrow> plookup t k)"
  by (simp add: plookup.simps(2) split: option.split)

lemma plookup_branch_other:
  assumes "\<And>n r. k \<noteq> p @ n # r"
  shows "plookup (PBranch p f) k = None"
proof -
  have "\<not> (length p < length k \<and> take (length p) k = p)"
    using assms id_take_nth_drop [of "length p" k] by metis
  then show ?thesis by (auto simp: plookup.simps(2))
qed

lemma plookup_length: "wf l t \<Longrightarrow> plookup t k \<noteq> None \<Longrightarrow> key_ok l k"
proof (induction t k arbitrary: l rule: plookup.induct)
  case (1 p v k)
  then show ?case by (simp add: key_ok_def split: if_splits)
next
  case (2 p f k)
  then have k: "length p < length k" "take (length p) k = p" and f: "f (k ! length p) \<noteq> None"
    by (auto simp: plookup.simps(2) split: if_splits option.splits)
  then obtain t where t: "f (k ! length p) = Some t" by blast
  have "plookup t (drop (Suc (length p)) k) \<noteq> None" using 2(3) k t by (simp add: plookup.simps(2))
  then have sub: "key_ok (l - Suc (length p)) (drop (Suc (length p)) k)"
    using 2(1) [OF _ t] k wf_branchD(5) [OF 2(2) t] by blast
  have n: "nibble_ok (k ! length p)" using wf_branchD(3) [OF 2(2) f] .
  have "k = p @ k ! length p # drop (Suc (length p)) k" using id_take_nth_drop [OF k(1)] k(2) by simp
  moreover have "path_nibbles (p @ k ! length p # drop (Suc (length p)) k)"
    using sub n wf_branchD(2) [OF 2(2)] by (simp add: key_ok_def)
  ultimately have "path_nibbles k" by metis
  moreover have "length k = l"
  proof -
    have "length k - Suc (length p) = l - Suc (length p)" using sub by (simp add: key_ok_def)
    then show ?thesis using wf_branchD(1) [OF 2(2)] k(1) by arith
  qed
  ultimately show ?case by (simp add: key_ok_def)
qed

section \<open>Setting a key\<close>

lemma path_cases:
  obtains (eq) "p = k" | (ext) n r where "k = p @ n # r" | (pre) n r where "p = k @ n # r"
    | (split) c a q b r where "p = c @ a # q" "k = c @ b # r" "a \<noteq> b"
proof -
  have "p = k \<or> (\<exists>n r. k = p @ n # r) \<or> (\<exists>n r. p = k @ n # r) \<or>
    (\<exists>c a q b r. p = c @ a # q \<and> k = c @ b # r \<and> a \<noteq> b)"
  proof (induction p arbitrary: k)
    case Nil
    then show ?case by (cases k) auto
  next
    case (Cons x p)
    show ?case
    proof (cases k)
      case (Cons y k')
      show ?thesis
      proof (cases "x = y")
        case True
        with Cons.IH [of k'] Cons show ?thesis by (metis append_Cons)
      next
        case False
        then show ?thesis using Cons by (metis append_Nil)
      qed
    qed auto
  qed
  then show ?thesis using that by blast
qed

lemma pset_leaf_split:
  "a \<noteq> b \<Longrightarrow> pset (PLeaf (c @ a # q) w) (c @ b # r) v = PBranch c [a \<mapsto> PLeaf q w, b \<mapsto> PLeaf r v]"
  by (simp add: pset.simps Let_def nth_append)

lemma pset_branch_split:
  "a \<noteq> b \<Longrightarrow> pset (PBranch (c @ a # q) f) (c @ b # r) v = PBranch c [b \<mapsto> PLeaf r v, a \<mapsto> PBranch q f]"
  by (simp add: pset.simps Let_def nth_append)

lemma pset_branch_in:
  "pset (PBranch p f) (p @ n # r) v =
     PBranch p (f(n \<mapsto> (case f n of None \<Rightarrow> PLeaf r v | Some t \<Rightarrow> pset t r v)))"
  using lcp_len_append [of p "[]" "n # r"] by (cases "f n") (simp_all add: pset.simps Let_def)

lemma key_ok_append: "key_ok l (p @ n # r) \<longleftrightarrow> length p < l \<and> path_nibbles p \<and> nibble_ok n \<and> key_ok (l - Suc (length p)) r"
  by (auto simp: key_ok_def)

lemma wf_leaf_append: "wf l (PLeaf (p @ n # r) v) \<longleftrightarrow> key_ok l (p @ n # r)"
  by (auto simp: key_ok_def)

lemma plookup_fork:
  assumes "a \<noteq> b"
  shows "plookup (PBranch c [a \<mapsto> s, b \<mapsto> t]) (c @ n # r) =
    (if n = a then plookup s r else if n = b then plookup t r else None)"
  using assms by (simp add: plookup_branch)

lemma plookup_outside: "(\<And>n s. j \<noteq> c @ n # s) \<Longrightarrow> plookup (PBranch (c @ q) f) j = None"
  by (rule plookup_branch_other) (metis append_Cons append_assoc append_Nil neq_Nil_conv)

lemma plookup_branch_prefix: "plookup (PBranch (c @ a # q) f) (c @ m # s) = (if m = a then plookup (PBranch q f) s else None)"
proof (cases "m = a")
  case True
  show ?thesis
  proof (cases "\<exists>n r. s = q @ n # r")
    case True
    then obtain n r where s: "s = q @ n # r" by blast
    show ?thesis using plookup_branch [of "c @ a # q" f n r] plookup_branch [of q f n r] \<open>m = a\<close> s by simp
  next
    case False
    then show ?thesis using \<open>m = a\<close> plookup_branch_other [of "c @ a # s" "c @ a # q" f] plookup_branch_other [of s q f] by simp
  qed
next
  case False
  then show ?thesis using plookup_branch_other [of "c @ m # s" "c @ a # q" f] by simp
qed

lemma wf_fork:
  assumes "wf (l - Suc (length c)) s" and "wf (l - Suc (length c)) t" and "length c < l" and "path_nibbles c"
    and "nibble_ok a" and "nibble_ok b" and "a \<noteq> b"
  shows "wf l (PBranch c [a \<mapsto> s, b \<mapsto> t])"
  using assms by (intro wf_branchI [of c l _ a b]) (simp_all split: if_splits)

lemma pset_leaf:
  assumes p: "key_ok l p" and k: "key_ok l k"
  shows "wf l (pset (PLeaf p w) k v) \<and>
    plookup (pset (PLeaf p w) k v) j = (if j = k then Some v else plookup (PLeaf p w) j)"
proof -
  have len: "length p = length k" using p k by (simp add: key_ok_def)
  show ?thesis
  proof (cases rule: path_cases [of p k])
    case eq
    then show ?thesis using k by (simp add: pset.simps key_ok_def)
  next
    case 2: (split c a q b r)
    have eq: "pset (PLeaf p w) k v = PBranch c [a \<mapsto> PLeaf q w, b \<mapsto> PLeaf r v]"
      using pset_leaf_split [OF 2(3)] 2 by simp
    have "wf l (PBranch c [a \<mapsto> PLeaf q w, b \<mapsto> PLeaf r v])"
      by (rule wf_fork) (use p k 2 in \<open>auto simp: key_ok_append key_ok_def\<close>)
    moreover have "plookup (PBranch c [a \<mapsto> PLeaf q w, b \<mapsto> PLeaf r v]) j = (if j = k then Some v else plookup (PLeaf p w) j)"
    proof (cases "\<exists>n s. j = c @ n # s")
      case True
      then obtain n s where "j = c @ n # s" by blast
      with 2 show ?thesis by (simp add: plookup_fork)
    next
      case False
      then have "plookup (PBranch c [a \<mapsto> PLeaf q w, b \<mapsto> PLeaf r v]) j = None" using plookup_outside [of j c "[]"] by simp
      with False 2 show ?thesis by auto
    qed
    ultimately show ?thesis using eq by simp
  qed (use len in auto)
qed

lemma pset_branch_fork:
  assumes wf: "wf l (PBranch (c @ a # q) f)" and k: "key_ok l (c @ b # r)" and ab: "a \<noteq> b"
  shows "wf l (PBranch c [b \<mapsto> PLeaf r v, a \<mapsto> PBranch q f]) \<and>
    plookup (PBranch c [b \<mapsto> PLeaf r v, a \<mapsto> PBranch q f]) j =
      (if j = c @ b # r then Some v else plookup (PBranch (c @ a # q) f) j)"
proof
  have "wf (l - Suc (length c)) (PBranch q f)" using wf unfolding wf.simps(2) by auto
  then show "wf l (PBranch c [b \<mapsto> PLeaf r v, a \<mapsto> PBranch q f])"
    using k ab wf_branchD(1,2) [OF wf] by (intro wf_fork) (auto simp: key_ok_append key_ok_def)
  show "plookup (PBranch c [b \<mapsto> PLeaf r v, a \<mapsto> PBranch q f]) j =
      (if j = c @ b # r then Some v else plookup (PBranch (c @ a # q) f) j)"
  proof (cases "\<exists>n s. j = c @ n # s")
    case True
    then obtain n s where j: "j = c @ n # s" by blast
    show ?thesis using ab plookup_fork [OF ab [symmetric]] unfolding j plookup_branch_prefix by simp
  next
    case False
    then have "plookup (PBranch c [b \<mapsto> PLeaf r v, a \<mapsto> PBranch q f]) j = None" "plookup (PBranch (c @ a # q) f) j = None"
      using plookup_outside [of j c "[]"] plookup_outside [of j c "a # q"] by simp_all
    with False show ?thesis by auto
  qed
qed

lemma pset_branch_child:
  assumes wf: "wf l (PBranch p f)" and n: "nibble_ok n" and t: "wf (l - Suc (length p)) t"
    and look: "\<And>j. plookup t j = (if j = r then Some v else case f n of None \<Rightarrow> None | Some u \<Rightarrow> plookup u j)"
  shows "wf l (PBranch p (f(n \<mapsto> t))) \<and>
    plookup (PBranch p (f(n \<mapsto> t))) j = (if j = p @ n # r then Some v else plookup (PBranch p f) j)"
proof
  note w = wf_branchD [OF wf]
  obtain m m' where m: "m \<noteq> m'" "f m \<noteq> None" "f m' \<noteq> None" using w(4) by blast
  show "wf l (PBranch p (f(n \<mapsto> t)))"
  proof (rule wf_branchI [OF w(1,2) _ m(1)])
    show "nibble_ok i \<and> wf (l - Suc (length p)) u" if "(f(n \<mapsto> t)) i = Some u" for i u
      using that n t w(3,5) by (cases "i = n") auto
  qed (use m in auto)
  show "plookup (PBranch p (f(n \<mapsto> t))) j = (if j = p @ n # r then Some v else plookup (PBranch p f) j)"
  proof (cases "\<exists>i s. j = p @ i # s")
    case True
    then obtain i s where j: "j = p @ i # s" by blast
    show ?thesis unfolding j plookup_branch using look [of s] by auto
  next
    case False
    then show ?thesis using plookup_branch_other [of j p] by auto
  qed
qed

lemma pset_spec:
  assumes "wf l t" and "key_ok l k"
  shows "wf l (pset t k v) \<and> plookup (pset t k v) j = (if j = k then Some v else plookup t j)"
  using assms
proof (induction l arbitrary: t k j rule: less_induct)
  case (less l)
  show ?case
  proof (cases t)
    case (PLeaf p w)
    with less.prems show ?thesis using pset_leaf [of l p k w v j] by (simp add: key_ok_def)
  next
    case t: (PBranch p f)
    note wf = less.prems(1) [unfolded t]
    note w = wf_branchD [OF wf]
    have len: "length p < length k" using w(1) less.prems(2) by (simp add: key_ok_def)
    show ?thesis
    proof (cases rule: path_cases [of p k])
      case 1: (ext n r)
      let ?l = "l - Suc (length p)" and ?t = "case f n of None \<Rightarrow> PLeaf r v | Some u \<Rightarrow> pset u r v"
      have k: "nibble_ok n" "key_ok ?l r" using less.prems(2) 1 by (simp_all add: key_ok_append)
      have "wf ?l ?t \<and> plookup ?t i = (if i = r then Some v else case f n of None \<Rightarrow> None | Some u \<Rightarrow> plookup u i)" for i
      proof (cases "f n")
        case None
        then show ?thesis using k by (simp add: key_ok_def)
      next
        case (Some u)
        then show ?thesis using less.IH [OF _ w(5) [OF Some] k(2), of i] w(1) by simp
      qed
      then show ?thesis using pset_branch_child [OF wf k(1), of ?t r v j] 1 t by (simp add: pset_branch_in)
    next
      case 2: (split c a q b r)
      then show ?thesis using pset_branch_fork [of l c a q f b r v j] pset_branch_split [OF 2(3)] wf less.prems(2) t by simp
    qed (use len in auto)
  qed
qed

section \<open>Removing a key\<close>

lemma distinct_nibble_list: "distinct nibble_list"
  by code_simp

lemma children_iff: "m \<in> set (children f) \<longleftrightarrow> nibble_ok m \<and> f m \<noteq> None"
  by (auto simp: children_def nibble_ok_def)

lemma distinct_children: "distinct (children f)"
  by (simp add: children_def distinct_nibble_list)

lemma plookup_prepend: "plookup (prepend p n t) j = plookup (PBranch p [n \<mapsto> t]) j"
proof (cases "\<exists>i s. j = p @ i # s")
  case True
  then obtain i s where j: "j = p @ i # s" by blast
  show ?thesis unfolding j
    by (cases t) (auto simp: prepend_def plookup_branch plookup_branch_prefix)
next
  case False
  then show ?thesis
    using plookup_outside [of j p "n # _"] plookup_branch_other [of j p]
    by (cases t) (auto simp: prepend_def)
qed

lemma wf_prepend:
  assumes "wf (l - Suc (length p)) t" and "length p < l" and "path_nibbles p" and "nibble_ok n"
  shows "wf l (prepend p n t)"
proof (cases t)
  case (PLeaf q v)
  then show ?thesis using assms by (auto simp: prepend_def)
next
  case (PBranch q f)
  then show ?thesis using assms by (auto simp: prepend_def wf.simps(2))
qed

lemma plookup_cong:
  assumes "\<And>n. f n = g n"
  shows "plookup (PBranch p f) j = plookup (PBranch p g) j"
  using assms by (simp add: plookup.simps(2))

lemma collapse_spec:
  assumes len: "length p < l" and p: "path_nibbles p" and some: "f m \<noteq> None"
    and sub: "\<And>n t. f n = Some t \<Longrightarrow> nibble_ok n \<and> wf (l - Suc (length p)) t"
  shows "wf l (collapse p f) \<and> plookup (collapse p f) j = plookup (PBranch p f) j"
proof -
  have m: "m \<in> set (children f)" using some sub by (auto simp: children_iff)
  consider (one) n t where "children f = [n]" "f n = Some t" | (more) a b cs where "children f = a # b # cs"
  proof (cases "children f")
    case (Cons a cs)
    then have "f a \<noteq> None" using children_iff [of a f] by simp
    with Cons that show ?thesis by (cases cs) auto
  qed (use m in auto)
  then show ?thesis
  proof cases
    case (one n t)
    have "f x = [n \<mapsto> t] x" for x
      using one children_iff [of x f] sub by (cases "f x") auto
    then have "plookup (PBranch p f) j = plookup (PBranch p [n \<mapsto> t]) j" by (rule plookup_cong)
    then show ?thesis using one sub [OF one(2)] len p wf_prepend by (simp add: collapse_def plookup_prepend)
  next
    case (more a b cs)
    then have "a \<noteq> b" "f a \<noteq> None" "f b \<noteq> None"
      using distinct_children [of f] children_iff [of a f] children_iff [of b f] by auto
    then have "wf l (PBranch p f)" using len p sub by (intro wf_branchI [of _ _ _ a b]) auto
    then show ?thesis using more by (simp add: collapse_def)
  qed
qed

lemma punset_branch:
  "punset (PBranch p f) (p @ n # r) =
     (case f n of
        None \<Rightarrow> None
      | Some t \<Rightarrow>
         (case punset t r of
            None \<Rightarrow> None
          | Some None \<Rightarrow> Some (Some (collapse p (f(n := None))))
          | Some (Some t') \<Rightarrow> Some (Some (PBranch p (f(n \<mapsto> t'))))))"
  by (cases "f n") (simp_all add: punset.simps(2) split: option.split)

lemma punset_branch_other: "(\<And>n r. k \<noteq> p @ n # r) \<Longrightarrow> punset (PBranch p f) k = None"
proof -
  assume "\<And>n r. k \<noteq> p @ n # r"
  then have "\<not> (length p < length k \<and> take (length p) k = p)"
    using id_take_nth_drop [of "length p" k] by metis
  then show ?thesis by (auto simp: punset.simps(2))
qed

lemma punset_child:
  assumes wf: "wf l (PBranch p f)" and n: "f n = Some t"
  shows "\<exists>m. m \<noteq> n \<and> f m \<noteq> None"
  using wf_branchD(4) [OF wf] by metis

definition unset_ok :: "nat \<Rightarrow> ptree \<Rightarrow> path \<Rightarrow> bool" where
  "unset_ok l t k \<longleftrightarrow>
     (case punset t k of
        None \<Rightarrow> plookup t k = None
      | Some None \<Rightarrow> plookup t k \<noteq> None \<and> (\<forall>j. j \<noteq> k \<longrightarrow> plookup t j = None)
      | Some (Some t') \<Rightarrow> plookup t k \<noteq> None \<and> wf l t' \<and> (\<forall>j. plookup t' j = (if j = k then None else plookup t j)))"

lemma unset_ok_branch:
  assumes wf: "wf l (PBranch p f)" and n: "f n = Some t" and IH: "unset_ok (l - Suc (length p)) t r"
  shows "unset_ok l (PBranch p f) (p @ n # r)"
proof -
  note w = wf_branchD [OF wf]
  obtain m where m: "m \<noteq> n" "f m \<noteq> None" using punset_child [OF wf n] by blast
  let ?l = "l - Suc (length p)"
  show ?thesis
  proof (cases "punset t r")
    case None
    with IH n show ?thesis by (simp add: unset_ok_def punset_branch plookup_branch)
  next
    case (Some res)
    show ?thesis
    proof (cases res)
      case None
      let ?g = "f(n := None)"
      have t: "plookup t r \<noteq> None" "\<And>j. j \<noteq> r \<Longrightarrow> plookup t j = None"
        using IH Some None by (auto simp: unset_ok_def)
      have "wf l (collapse p ?g) \<and> plookup (collapse p ?g) j = plookup (PBranch p ?g) j" for j
        by (rule collapse_spec [OF w(1,2), of _ m]) (use m w(3,5) in \<open>auto split: if_splits\<close>)
      moreover have "plookup (PBranch p ?g) j = (if j = p @ n # r then None else plookup (PBranch p f) j)" for j
      proof (cases "\<exists>i s. j = p @ i # s")
        case True
        then obtain i s where j: "j = p @ i # s" by blast
        show ?thesis unfolding j plookup_branch using n t(2) [of s] by auto
      next
        case False
        then show ?thesis using plookup_branch_other [of j p] by auto
      qed
      ultimately show ?thesis using Some None n t(1) by (simp add: unset_ok_def punset_branch plookup_branch)
    next
      case t': (Some u)
      have u: "wf ?l u" "\<And>j. plookup u j = (if j = r then None else plookup t j)" "plookup t r \<noteq> None"
        using IH Some t' by (auto simp: unset_ok_def)
      have "wf l (PBranch p (f(n \<mapsto> u)))"
      proof (rule wf_branchI [OF w(1,2) _ m(1)])
        show "nibble_ok i \<and> wf ?l v" if "(f(n \<mapsto> u)) i = Some v" for i v
          using that n u(1) w(3) [of n] w(3,5) by (cases "i = n") auto
      qed (use m in auto)
      moreover have "plookup (PBranch p (f(n \<mapsto> u))) j = (if j = p @ n # r then None else plookup (PBranch p f) j)" for j
      proof (cases "\<exists>i s. j = p @ i # s")
        case True
        then obtain i s where j: "j = p @ i # s" by blast
        show ?thesis unfolding j plookup_branch using n u(2) [of s] by auto
      next
        case False
        then show ?thesis using plookup_branch_other [of j p] by auto
      qed
      ultimately show ?thesis using Some t' n u(3) by (simp add: unset_ok_def punset_branch plookup_branch)
    qed
  qed
qed

lemma punset_spec:
  assumes "wf l t"
  shows "unset_ok l t k"
  using assms
proof (induction l arbitrary: t k rule: less_induct)
  case (less l t k)
  show ?case
  proof (cases t)
    case (PLeaf p v)
    then show ?thesis by (simp add: unset_ok_def)
  next
    case t: (PBranch p f)
    note w = wf_branchD [OF less.prems [unfolded t]]
    show ?thesis
    proof (cases "\<exists>n r u. k = p @ n # r \<and> f n = Some u")
      case True
      then obtain n r u where k: "k = p @ n # r" "f n = Some u" by blast
      have "unset_ok (l - Suc (length p)) u r" using less.IH [OF _ w(5) [OF k(2)]] w(1) by simp
      then show ?thesis using unset_ok_branch [OF less.prems [unfolded t] k(2)] t k(1) by simp
    next
      case False
      have "punset (PBranch p f) k = None \<and> plookup (PBranch p f) k = None"
      proof (cases "\<exists>n r. k = p @ n # r")
        case True
        with False show ?thesis by (auto simp: punset_branch plookup_branch split: option.split)
      next
        case False
        then show ?thesis using punset_branch_other [of k p f] plookup_branch_other [of k p f] by auto
      qed
      with t show ?thesis by (simp add: unset_ok_def)
    qed
  qed
qed

section \<open>Trees are canonical\<close>

lemma wf_inhabited: "wf l t \<Longrightarrow> \<exists>k. plookup t k \<noteq> None"
proof (induction l arbitrary: t rule: less_induct)
  case (less l)
  show ?case
  proof (cases t)
    case (PBranch p f)
    note w = wf_branchD [OF less.prems [unfolded PBranch]]
    obtain n u where n: "f n = Some u" using w(4) by blast
    then obtain k where "plookup u k \<noteq> None" using less.IH [OF _ w(5) [OF n]] w(1) by auto
    then have "plookup (PBranch p f) (p @ n # k) \<noteq> None" using n by (simp add: plookup_branch)
    with PBranch show ?thesis by blast
  qed auto
qed

lemma branch_two_keys:
  assumes wf: "wf l (PBranch p f)"
  obtains m n r s where "m \<noteq> n" "plookup (PBranch p f) (p @ m # r) \<noteq> None" "plookup (PBranch p f) (p @ n # s) \<noteq> None"
proof -
  note w = wf_branchD [OF wf]
  obtain m n t u where mn: "m \<noteq> n" "f m = Some t" "f n = Some u" using w(4) by blast
  obtain r s where "plookup t r \<noteq> None" "plookup u s \<noteq> None"
    using wf_inhabited [OF w(5) [OF mn(2)]] wf_inhabited [OF w(5) [OF mn(3)]] by blast
  with mn show ?thesis using that [of m n r s] by (simp add: plookup_branch)
qed

text \<open>The path of a branch is a prefix of every key, and no longer one is.\<close>

lemma branch_key_prefix:
  assumes "plookup (PBranch p f) k \<noteq> None"
  shows "\<exists>n r. k = p @ n # r"
proof (rule ccontr)
  assume "\<not> (\<exists>n r. k = p @ n # r)"
  then have "plookup (PBranch p f) k = None" by (intro plookup_branch_other) auto
  with assms show False by simp
qed

lemma branch_path_longest:
  assumes wf: "wf l (PBranch p f)" and pre: "\<And>k. plookup (PBranch p f) k \<noteq> None \<Longrightarrow> \<exists>n r. k = q @ n # r"
  shows "length q \<le> length p"
proof (rule ccontr)
  assume "\<not> length q \<le> length p"
  then have len: "length p < length q" by simp
  obtain m n r s where mn: "m \<noteq> n" "plookup (PBranch p f) (p @ m # r) \<noteq> None" "plookup (PBranch p f) (p @ n # s) \<noteq> None"
    by (rule branch_two_keys [OF wf])
  have at: "k ! length p = q ! length p" if "plookup (PBranch p f) k \<noteq> None" for k
    using pre [OF that] len by (auto simp: nth_append)
  show False using at [OF mn(2)] at [OF mn(3)] mn(1) by simp
qed

lemma leaf_not_branch:
  assumes wf: "wf l (PBranch p f)" and eq: "plookup (PLeaf q v) = plookup (PBranch p f)"
  shows False
proof -
  obtain m n r s where mn: "m \<noteq> n" "plookup (PBranch p f) (p @ m # r) \<noteq> None" "plookup (PBranch p f) (p @ n # s) \<noteq> None"
    by (rule branch_two_keys [OF wf])
  then have "q = p @ m # r" "q = p @ n # s" by (auto simp flip: eq split: if_splits)
  with mn(1) show False by simp
qed

lemma same_paths:
  assumes "wf l (PBranch p f)" and "wf l (PBranch q g)" and eq: "plookup (PBranch p f) = plookup (PBranch q g)"
  shows "p = q"
proof -
  have "length q \<le> length p" by (rule branch_path_longest [OF assms(1)]) (simp only: eq branch_key_prefix)
  moreover have "length p \<le> length q"
    by (rule branch_path_longest [OF assms(2)]) (simp only: eq [symmetric] branch_key_prefix)
  ultimately have len: "length p = length q" by simp
  obtain m r where k: "plookup (PBranch p f) (p @ m # r) \<noteq> None" by (rule branch_two_keys [OF assms(1)])
  then obtain n s where "p @ m # r = q @ n # s" using branch_key_prefix [of q g "p @ m # r"] eq by auto
  with len show ?thesis by simp
qed

lemma canonical:
  assumes "wf l t" and "wf l u" and "plookup t = plookup u"
  shows "t = u"
  using assms
proof (induction l arbitrary: t u rule: less_induct)
  case (less l)
  show ?case
  proof (cases t; cases u)
    fix p v q w assume tu: "t = PLeaf p v" "u = PLeaf q w"
    have "plookup u p = Some v" using less.prems(3) tu by (metis plookup.simps(1))
    with tu show ?thesis by (simp split: if_splits)
  next
    fix p f q g assume tu: "t = PBranch p f" "u = PBranch q g"
    have pq: "p = q" using same_paths less.prems tu by blast
    note w = wf_branchD [OF less.prems(1) [unfolded tu]] and w' = wf_branchD [OF less.prems(2) [unfolded tu]]
    have child: "(case f n of None \<Rightarrow> None | Some x \<Rightarrow> plookup x k) = (case g n of None \<Rightarrow> None | Some x \<Rightarrow> plookup x k)" for n k
      using fun_cong [OF less.prems(3), of "p @ n # k"] tu pq by (simp add: plookup_branch)
    have "f n = g n" for n
    proof (cases "f n"; cases "g n")
      fix x assume x: "f n = None" "g n = Some x"
      then show ?thesis using child [where n = n] wf_inhabited [OF w'(5) [OF x(2)]] by auto
    next
      fix x assume x: "f n = Some x" "g n = None"
      then show ?thesis using child [where n = n] wf_inhabited [OF w(5) [OF x(1)]] by auto
    next
      fix x y assume xy: "f n = Some x" "g n = Some y"
      then have "plookup x = plookup y" using child [where n = n] by (auto simp: fun_eq_iff)
      moreover have "wf (l - Suc (length p)) y" using w'(5) [OF xy(2)] pq by simp
      ultimately have "x = y" using less.IH [OF _ w(5) [OF xy(1)]] w(1) by simp
      with xy show ?thesis by simp
    qed simp
    then show ?thesis using tu pq by auto
  qed (use leaf_not_branch less.prems in \<open>metis+\<close>)
qed

end
