(* ===== verification/Patricia_Tree.thy ===== *)
theory Patricia_Tree
  imports Patricia_Spec
begin

text \<open>
  The compact Patricia trees of \<^verbatim>\<open>src/catapult/tree\<close>: leaf and branch nodes with sixteen links, where
  a link is a node in memory or only the hash of a node in the data source; setting, unsetting and
  looking up a key; saving a tree; the tree and its delta as used by the caches. Paths are nibble
  lists (theory \<^verbatim>\<open>Tree_Node_Path\<close> shows that the packed paths behave like them).

  The hash function (SHA3-256 of the crypto library) is the parameter \<open>sha3\<close>, the data source the
  parameter \<open>ds\<close>, a partial function from hashes to nodes. A hash that the code caches in a node is
  computed here when it is asked for. An access of a nibble or link outside of a path, undefined in
  the code, is an \<open>OutOfRange\<close> error.
\<close>

section \<open>Nodes\<close>

definition Hash256_zero :: hash256 where
  "Hash256_zero = replicate 32 0"

definition Max_Links :: nat where "Max_Links = 16"

text \<open>
  A link holds the hash \<^verbatim>\<open>m_links[i]\<close>, the node \<^verbatim>\<open>m_linkedNodes[i]\<close> if it is in memory and the bit
  \<^verbatim>\<open>m_linkSet[i]\<close>.
\<close>

datatype tree_node =
    EmptyNode
  | LeafNode path hash256
  | BranchNode path "branch_link list"
and branch_link = BranchLink hash256 "tree_node option" bool

type_synonym data_source = "hash256 \<Rightarrow> tree_node option"

fun link_hash :: "branch_link \<Rightarrow> hash256" where "link_hash (BranchLink h n s) = h"
fun link_node :: "branch_link \<Rightarrow> tree_node option" where "link_node (BranchLink h n s) = n"
fun link_set :: "branch_link \<Rightarrow> bool" where "link_set (BranchLink h n s) = s"

definition CalculateLeafTreeNodeHash :: "(u8 list \<Rightarrow> hash256) \<Rightarrow> path \<Rightarrow> hash256 \<Rightarrow> hash256" where
  "CalculateLeafTreeNodeHash sha3 p v = sha3 (EncodeKey p True @ v)"

fun node_hash :: "(u8 list \<Rightarrow> hash256) \<Rightarrow> tree_node \<Rightarrow> hash256"
  and link_value :: "(u8 list \<Rightarrow> hash256) \<Rightarrow> branch_link \<Rightarrow> hash256" where
  "node_hash sha3 EmptyNode = Hash256_zero"
| "node_hash sha3 (LeafNode p v) = CalculateLeafTreeNodeHash sha3 p v"
| "node_hash sha3 (BranchNode p ls) = sha3 (EncodeKey p False @ concat (map (link_value sha3) ls))"
| "link_value sha3 (BranchLink h None s) = h"
| "link_value sha3 (BranchLink h (Some n) s) = node_hash sha3 n"

definition empty_links :: "branch_link list" where
  "empty_links = replicate Max_Links (BranchLink Hash256_zero None False)"

definition numLinks :: "branch_link list \<Rightarrow> nat" where
  "numLinks ls = length (filter link_set ls)"

definition hasLink :: "branch_link list \<Rightarrow> nat \<Rightarrow> bool" where
  "hasLink ls i = link_set (ls ! i)"

definition link :: "(u8 list \<Rightarrow> hash256) \<Rightarrow> branch_link list \<Rightarrow> nat \<Rightarrow> hash256" where
  "link sha3 ls i = link_value sha3 (ls ! i)"

definition linkedNode :: "branch_link list \<Rightarrow> nat \<Rightarrow> tree_node option" where
  "linkedNode ls i = link_node (ls ! i)"

text \<open>\<^verbatim>\<open>Log2\<close> of the set of links: the highest index whose bit is set.\<close>

definition highestLinkIndex :: "branch_link list \<Rightarrow> nat" where
  "highestLinkIndex ls = (case rev (filter (hasLink ls) [0..<Max_Links]) of [] \<Rightarrow> 255 | i # _ \<Rightarrow> i)"

definition setLink :: "branch_link list \<Rightarrow> tree_node \<Rightarrow> nat \<Rightarrow> branch_link list" where
  "setLink ls node i = ls[i := BranchLink (link_hash (ls ! i)) (Some node) True]"

definition setLink_hash :: "branch_link list \<Rightarrow> hash256 \<Rightarrow> nat \<Rightarrow> branch_link list" where
  "setLink_hash ls h i = ls[i := BranchLink h None True]"

definition clearLink :: "branch_link list \<Rightarrow> nat \<Rightarrow> branch_link list" where
  "clearLink ls i = ls[i := BranchLink Hash256_zero None False]"

definition compactLink :: "(u8 list \<Rightarrow> hash256) \<Rightarrow> branch_link \<Rightarrow> branch_link" where
  "compactLink sha3 l = (case link_node l of None \<Rightarrow> l | Some n \<Rightarrow> BranchLink (node_hash sha3 n) None (link_set l))"

definition compactLinks :: "(u8 list \<Rightarrow> hash256) \<Rightarrow> branch_link list \<Rightarrow> branch_link list" where
  "compactLinks sha3 ls = map (compactLink sha3) ls"

fun node_path :: "tree_node \<Rightarrow> path" where
  "node_path (LeafNode p v) = p"
| "node_path (BranchNode p ls) = p"
| "node_path EmptyNode = []"

fun node_setPath :: "tree_node \<Rightarrow> path \<Rightarrow> tree_node result" where
  "node_setPath (LeafNode p v) q = Inr (LeafNode q v)"
| "node_setPath (BranchNode p ls) q = Inr (BranchNode q ls)"
| "node_setPath EmptyNode q = Inl (RuntimeError ''cannot change path of empty node'')"

definition getLinkedNode ::
  "(u8 list \<Rightarrow> hash256) \<Rightarrow> data_source \<Rightarrow> branch_link list \<Rightarrow> nat \<Rightarrow> tree_node option" where
  "getLinkedNode sha3 ds ls i =
     (case linkedNode ls i of Some n \<Rightarrow> Some n | None \<Rightarrow> ds (link sha3 ls i))"

section \<open>Setting a key\<close>

definition out_of_path :: "'a result" where
  "out_of_path = Inl (OutOfRange ''nibble index'')"

definition branchLeafNode :: "path \<Rightarrow> hash256 \<Rightarrow> path \<Rightarrow> hash256 \<Rightarrow> tree_node result" where
  "branchLeafNode leafPath leafValue newPath newValue =
     (let differenceIndex = lcp_len leafPath newPath
      in if \<not> (differenceIndex < length leafPath \<and> differenceIndex < length newPath) then out_of_path
         else
           let node1 = LeafNode (drop (differenceIndex + 1) leafPath) leafValue;
               node2 = LeafNode (drop (differenceIndex + 1) newPath) newValue
           in Inr (BranchNode (take differenceIndex leafPath)
                (setLink (setLink empty_links node1 (unat (leafPath ! differenceIndex)))
                   node2 (unat (newPath ! differenceIndex)))))"

text \<open>The three mutually recursive functions; each recursive call of \<open>set_node\<close> gets a shorter path.\<close>

function set_node ::
    "(u8 list \<Rightarrow> hash256) \<Rightarrow> data_source \<Rightarrow> tree_node \<Rightarrow> path \<Rightarrow> hash256 \<Rightarrow> tree_node result"
  and updateBranchLink_set ::
    "(u8 list \<Rightarrow> hash256) \<Rightarrow> data_source \<Rightarrow> path \<Rightarrow> branch_link list \<Rightarrow> path \<Rightarrow> hash256 \<Rightarrow> tree_node result"
  and insertNewPairIntoBranch ::
    "(u8 list \<Rightarrow> hash256) \<Rightarrow> data_source \<Rightarrow> path \<Rightarrow> branch_link list \<Rightarrow> path \<Rightarrow> nat \<Rightarrow> path \<Rightarrow> hash256 \<Rightarrow> tree_node result"
where
  "set_node sha3 ds EmptyNode p v = Inr (LeafNode p v)"
| "set_node sha3 ds (LeafNode q w) p v =
     (if q = p then Inr (LeafNode p v) else branchLeafNode q w p v)"
| "set_node sha3 ds (BranchNode q ls) p v = updateBranchLink_set sha3 ds q ls p v"
| "updateBranchLink_set sha3 ds branchPath ls p v =
     (let differenceIndex = lcp_len branchPath p
      in if branchPath \<noteq> [] \<and> differenceIndex = length branchPath
         then insertNewPairIntoBranch sha3 ds branchPath ls [] 0 (drop differenceIndex p) v
         else insertNewPairIntoBranch sha3 ds branchPath ls branchPath differenceIndex p v)"
| "insertNewPairIntoBranch sha3 ds origPath ls branchPath differenceIndex p v =
     (if \<not> differenceIndex < length p then out_of_path
      else
        let isBranchPathConsumed = (branchPath = []);
            next = (case (if isBranchPathConsumed then getLinkedNode sha3 ds ls (unat (p ! 0)) else None) of
                      None \<Rightarrow> EmptyNode | Some n \<Rightarrow> n)
        in res_bind (set_node sha3 ds next (drop (differenceIndex + 1) p) v) (\<lambda>updatedNextNode.
           if isBranchPathConsumed
           then Inr (BranchNode origPath (setLink ls updatedNextNode (unat (p ! 0))))
           else if \<not> differenceIndex < length branchPath then out_of_path
           else Inr (BranchNode (take differenceIndex branchPath)
             (setLink (setLink empty_links updatedNextNode (unat (p ! differenceIndex)))
                (BranchNode (drop (differenceIndex + 1) branchPath) ls)
                (unat (branchPath ! differenceIndex))))))"
  by pat_completeness auto
termination
  by (relation "measure (\<lambda>x. case x of
        Inl (sha3, ds, n, p, v) \<Rightarrow> 3 * length p + 2
      | Inr (Inl (sha3, ds, q, ls, p, v)) \<Rightarrow> 3 * length p + 1
      | Inr (Inr (sha3, ds, q, ls, bp, d, p, v)) \<Rightarrow> 3 * length p)") auto

declare set_node.simps(3) [simp del] updateBranchLink_set.simps [simp del] insertNewPairIntoBranch.simps [simp del]

section \<open>Unsetting a key\<close>

definition unsetBranchLink ::
  "(u8 list \<Rightarrow> hash256) \<Rightarrow> data_source \<Rightarrow> path \<Rightarrow> branch_link list \<Rightarrow> nat \<Rightarrow> tree_node result" where
  "unsetBranchLink sha3 ds p ls linkIndex =
     (let ls1 = clearLink ls linkIndex
      in if 1 \<noteq> numLinks ls1 then Inr (BranchNode p ls1)
         else
           let lastLinkIndex = highestLinkIndex ls1
           in case getLinkedNode sha3 ds ls1 lastLinkIndex of
                None \<Rightarrow> Inl (RuntimeError ''null node'')
              | Some referencedNode \<Rightarrow>
                  node_setPath referencedNode (p @ of_nat lastLinkIndex # node_path referencedNode))"

definition updateBranchLink_unset :: "path \<Rightarrow> branch_link list \<Rightarrow> nat \<Rightarrow> tree_node \<Rightarrow> tree_node" where
  "updateBranchLink_unset p ls linkIndex node = BranchNode p (setLink ls node linkIndex)"

text \<open>
  The recursive \<^verbatim>\<open>unset\<close> reports through its reference parameters; here it returns \<open>None\<close> for
  \<^verbatim>\<open>false\<close> and the updated node and the new \<^verbatim>\<open>canMerge\<close> for \<^verbatim>\<open>true\<close>.
\<close>

function unset_node ::
  "(u8 list \<Rightarrow> hash256) \<Rightarrow> data_source \<Rightarrow> tree_node \<Rightarrow> path \<Rightarrow> bool \<Rightarrow> (tree_node \<times> bool) option result" where
  "unset_node sha3 ds node keyPath canMerge =
     (if node = EmptyNode then Inr None
      else
        let differenceIndex = lcp_len (node_path node) keyPath
        in if differenceIndex = length keyPath then Inr (Some (EmptyNode, canMerge))
           else case node of
             BranchNode p ls \<Rightarrow>
              (let nodeLinkIndex = unat (keyPath ! differenceIndex)
               in case getLinkedNode sha3 ds ls nodeLinkIndex of
                    None \<Rightarrow> Inr None
                  | Some nextNode \<Rightarrow>
                      res_bind (if differenceIndex < length keyPath
                                then unset_node sha3 ds nextNode (drop (differenceIndex + 1) keyPath) canMerge
                                else out_of_path) (\<lambda>res.
                      case res of
                        None \<Rightarrow> Inr None
                      | Some (updatedNextNode, merge) \<Rightarrow>
                          res_bind (if merge then unsetBranchLink sha3 ds p ls nodeLinkIndex
                                    else Inr (updateBranchLink_unset p ls nodeLinkIndex updatedNextNode)) (\<lambda>updatedNode.
                          Inr (Some (updatedNode, False)))))
           | _ \<Rightarrow> Inr None)"
  by pat_completeness auto
termination by (relation "measure (\<lambda>(sha3, ds, n, k, m). length k)") auto

declare unset_node.simps [simp del]

section \<open>Looking up a key\<close>

function lookup_node ::
  "(u8 list \<Rightarrow> hash256) \<Rightarrow> data_source \<Rightarrow> tree_node \<Rightarrow> path \<Rightarrow> ((hash256 \<times> bool) \<times> tree_node list) result" where
  "lookup_node sha3 ds node keyPath =
     (if node = EmptyNode then Inr ((Hash256_zero, False), [])
      else
        let differenceIndex = lcp_len (node_path node) keyPath
        in case node of
             BranchNode p ls \<Rightarrow>
               if \<not> differenceIndex < length keyPath then out_of_path
               else
                (case getLinkedNode sha3 ds ls (unat (keyPath ! differenceIndex)) of
                   None \<Rightarrow> Inr ((Hash256_zero, False), [node])
                 | Some nextNode \<Rightarrow>
                     res_bind (lookup_node sha3 ds nextNode (drop (differenceIndex + 1) keyPath)) (\<lambda>(res, nodes).
                     Inr (res, node # nodes)))
           | LeafNode p v \<Rightarrow>
               if differenceIndex = length keyPath then Inr ((v, True), [node])
               else Inr ((Hash256_zero, False), [node])
           | EmptyNode \<Rightarrow> Inr ((Hash256_zero, False), []))"
  by pat_completeness auto
termination by (relation "measure (\<lambda>(sha3, ds, n, k). length k)") auto

declare lookup_node.simps [simp del]

section \<open>Data sources\<close>

text \<open>
  \<^verbatim>\<open>MemoryDataSource\<close> maps hashes to nodes; \<^verbatim>\<open>emplace\<close> keeps the first node stored under a hash.
\<close>

type_synonym memory_data_source = "(hash256 \<times> tree_node) list"

definition memory_get :: "memory_data_source \<Rightarrow> data_source" where
  "memory_get m_nodes h = map_of m_nodes h"

definition memory_save :: "(u8 list \<Rightarrow> hash256) \<Rightarrow> tree_node \<Rightarrow> memory_data_source \<Rightarrow> memory_data_source" where
  "memory_save sha3 node m_nodes =
     (let nodeHash = node_hash sha3 node
      in if map_of m_nodes nodeHash = None then m_nodes @ [(nodeHash, node)] else m_nodes)"

text \<open>\<^verbatim>\<open>ReadThroughMemoryDataSource\<close> reads its memory before the backing source and never writes to the latter.\<close>

definition read_through_get :: "memory_data_source \<Rightarrow> data_source \<Rightarrow> data_source" where
  "read_through_get memory backing h = (case memory_get memory h of Some n \<Rightarrow> Some n | None \<Rightarrow> backing h)"

section \<open>The tree class\<close>

definition tree_root :: "(u8 list \<Rightarrow> hash256) \<Rightarrow> tree_node \<Rightarrow> hash256" where
  "tree_root sha3 rootNode = node_hash sha3 rootNode"

text \<open>Keys are byte sequences, values already hashed by the encoder.\<close>

definition tree_set ::
  "(u8 list \<Rightarrow> hash256) \<Rightarrow> data_source \<Rightarrow> u8 list \<Rightarrow> hash256 \<Rightarrow> tree_node \<Rightarrow> tree_node result" where
  "tree_set sha3 ds key encodedValue rootNode =
     set_node sha3 ds rootNode (nibbles (path_of_key key)) encodedValue"

definition tree_unset ::
  "(u8 list \<Rightarrow> hash256) \<Rightarrow> data_source \<Rightarrow> u8 list \<Rightarrow> tree_node \<Rightarrow> (bool \<times> tree_node) result" where
  "tree_unset sha3 ds key rootNode =
     res_bind (unset_node sha3 ds rootNode (nibbles (path_of_key key)) True) (\<lambda>res.
     Inr (case res of None \<Rightarrow> (False, rootNode) | Some (updatedNode, _) \<Rightarrow> (True, updatedNode)))"

definition tree_lookup ::
  "(u8 list \<Rightarrow> hash256) \<Rightarrow> data_source \<Rightarrow> u8 list \<Rightarrow> tree_node \<Rightarrow> ((hash256 \<times> bool) \<times> tree_node list) result" where
  "tree_lookup sha3 ds key rootNode = lookup_node sha3 ds rootNode (nibbles (path_of_key key))"

definition tree_tryLoad :: "data_source \<Rightarrow> hash256 \<Rightarrow> tree_node \<Rightarrow> bool \<times> tree_node" where
  "tree_tryLoad ds rootHash rootNode =
     (case ds rootHash of None \<Rightarrow> (False, rootNode) | Some n \<Rightarrow> (True, n))"

fun saveAll_node ::
    "(u8 list \<Rightarrow> hash256) \<Rightarrow> tree_node \<Rightarrow> memory_data_source \<Rightarrow> memory_data_source result"
  and saveAll_links ::
    "(u8 list \<Rightarrow> hash256) \<Rightarrow> branch_link list \<Rightarrow> memory_data_source \<Rightarrow> memory_data_source result" where
  "saveAll_node sha3 EmptyNode mem = Inl (RuntimeError ''tree node is not a branch node'')"
| "saveAll_node sha3 (LeafNode p v) mem = Inr (memory_save sha3 (LeafNode p v) mem)"
| "saveAll_node sha3 (BranchNode p ls) mem =
     res_bind (saveAll_links sha3 ls mem) (\<lambda>mem1.
     Inr (memory_save sha3 (BranchNode p (compactLinks sha3 ls)) mem1))"
| "saveAll_links sha3 [] mem = Inr mem"
| "saveAll_links sha3 (BranchLink h None s # ls) mem = saveAll_links sha3 ls mem"
| "saveAll_links sha3 (BranchLink h (Some n) s # ls) mem =
     res_bind (saveAll_node sha3 n mem) (saveAll_links sha3 ls)"

definition tree_saveAll ::
  "(u8 list \<Rightarrow> hash256) \<Rightarrow> tree_node \<Rightarrow> memory_data_source \<Rightarrow> memory_data_source result" where
  "tree_saveAll sha3 rootNode mem = (if rootNode = EmptyNode then Inr mem else saveAll_node sha3 rootNode mem)"

section \<open>The base tree and its delta\<close>

record base_patricia_tree_delta =
  d_memory :: memory_data_source
  d_baseRootHash :: hash256
  d_tree :: tree_node

definition delta_source :: "data_source \<Rightarrow> base_patricia_tree_delta \<Rightarrow> data_source" where
  "delta_source backing d = read_through_get (d_memory d) backing"

definition BasePatriciaTreeDelta :: "data_source \<Rightarrow> hash256 \<Rightarrow> base_patricia_tree_delta" where
  "BasePatriciaTreeDelta backing rootHash =
     \<lparr>d_memory = [], d_baseRootHash = rootHash, d_tree = snd (tree_tryLoad (read_through_get [] backing) rootHash EmptyNode)\<rparr>"

definition delta_root :: "(u8 list \<Rightarrow> hash256) \<Rightarrow> base_patricia_tree_delta \<Rightarrow> hash256" where
  "delta_root sha3 d = tree_root sha3 (d_tree d)"

definition delta_reset ::
  "data_source \<Rightarrow> hash256 \<Rightarrow> base_patricia_tree_delta \<Rightarrow> base_patricia_tree_delta result" where
  "delta_reset backing rootHash d =
     (if Hash256_zero = rootHash then Inr (d\<lparr>d_tree := EmptyNode, d_baseRootHash := rootHash\<rparr>)
      else case tree_tryLoad (delta_source backing d) rootHash (d_tree d) of
        (False, _) \<Rightarrow> Inl (RuntimeError ''unable to load root hash'')
      | (True, n) \<Rightarrow> Inr (d\<lparr>d_tree := n, d_baseRootHash := rootHash\<rparr>))"

definition delta_set ::
  "(u8 list \<Rightarrow> hash256) \<Rightarrow> data_source \<Rightarrow> u8 list \<Rightarrow> hash256 \<Rightarrow> base_patricia_tree_delta \<Rightarrow>
   base_patricia_tree_delta result" where
  "delta_set sha3 backing key v d =
     res_bind (tree_set sha3 (delta_source backing d) key v (d_tree d)) (\<lambda>n. Inr (d\<lparr>d_tree := n\<rparr>))"

definition delta_unset ::
  "(u8 list \<Rightarrow> hash256) \<Rightarrow> data_source \<Rightarrow> u8 list \<Rightarrow> base_patricia_tree_delta \<Rightarrow>
   (bool \<times> base_patricia_tree_delta) result" where
  "delta_unset sha3 backing key d =
     res_bind (tree_unset sha3 (delta_source backing d) key (d_tree d)) (\<lambda>(b, n). Inr (b, d\<lparr>d_tree := n\<rparr>))"

definition setCheckpoint ::
  "(u8 list \<Rightarrow> hash256) \<Rightarrow> base_patricia_tree_delta \<Rightarrow> base_patricia_tree_delta result" where
  "setCheckpoint sha3 d =
     res_bind (tree_saveAll sha3 (d_tree d) (d_memory d)) (\<lambda>mem. Inr (d\<lparr>d_memory := mem\<rparr>))"

definition copyPendingChangesTo ::
  "(u8 list \<Rightarrow> hash256) \<Rightarrow> base_patricia_tree_delta \<Rightarrow> memory_data_source \<Rightarrow> memory_data_source" where
  "copyPendingChangesTo sha3 d dataSource =
     fold (\<lambda>(h, node) dest. memory_save sha3 node dest) (d_memory d) dataSource"

definition copyRootTo ::
  "(u8 list \<Rightarrow> hash256) \<Rightarrow> data_source \<Rightarrow> base_patricia_tree_delta \<Rightarrow> tree_node result" where
  "copyRootTo sha3 backing d =
     (let rootHash = delta_root sha3 d
      in if Hash256_zero = rootHash then Inr EmptyNode
         else case delta_source backing d rootHash of
           None \<Rightarrow> Inl (RuntimeError ''null node'') | Some n \<Rightarrow> Inr n)"

record base_patricia_tree =
  t_dataSource :: memory_data_source
  t_tree :: tree_node
  t_pWeakDelta :: "base_patricia_tree_delta option"

definition base_tree_rebase :: "(u8 list \<Rightarrow> hash256) \<Rightarrow> base_patricia_tree \<Rightarrow> base_patricia_tree result" where
  "base_tree_rebase sha3 t =
     (case t_pWeakDelta t of
        Some _ \<Rightarrow> Inl (RuntimeError ''only a single attached delta is allowed at a time'')
      | None \<Rightarrow> Inr (t\<lparr>t_pWeakDelta :=
          Some (BasePatriciaTreeDelta (memory_get (t_dataSource t)) (tree_root sha3 (t_tree t)))\<rparr>))"

definition base_tree_commit :: "(u8 list \<Rightarrow> hash256) \<Rightarrow> base_patricia_tree \<Rightarrow> base_patricia_tree result" where
  "base_tree_commit sha3 t =
     (case t_pWeakDelta t of
        None \<Rightarrow> Inl (RuntimeError ''attempting to commit changes to a tree without any outstanding attached deltas'')
      | Some d \<Rightarrow>
          res_bind (setCheckpoint sha3 d) (\<lambda>d1.
          let dataSource = copyPendingChangesTo sha3 d1 (t_dataSource t)
          in res_bind (copyRootTo sha3 (memory_get dataSource) d1) (\<lambda>rootNode.
             res_bind (delta_reset (memory_get dataSource) (delta_root sha3 d1) d1) (\<lambda>d2.
             Inr \<lparr>t_dataSource = dataSource, t_tree = rootNode, t_pWeakDelta = Some d2\<rparr>))))"

section \<open>What a node stands for\<close>

definition ds_ok :: "(u8 list \<Rightarrow> hash256) \<Rightarrow> data_source \<Rightarrow> bool" where
  "ds_ok sha3 ds \<longleftrightarrow> ds Hash256_zero = None \<and> (\<forall>h n. ds h = Some n \<longrightarrow> node_hash sha3 n = h)"

definition no_link :: "branch_link" where
  "no_link = BranchLink Hash256_zero None False"

inductive rep :: "(u8 list \<Rightarrow> hash256) \<Rightarrow> data_source \<Rightarrow> tree_node \<Rightarrow> ptree \<Rightarrow> bool" for sha3 ds where
  rep_leaf: "rep sha3 ds (LeafNode p v) (PLeaf p v)"
| rep_branch: "rep sha3 ds (BranchNode p ls) (PBranch p f)"
    if "length ls = Max_Links"
      and "\<And>n. f n \<noteq> None \<Longrightarrow> nibble_ok n"
      and "\<And>n. nibble_ok n \<Longrightarrow> f n = None \<Longrightarrow> ls ! unat n = no_link"
      and "\<And>n t. f n = Some t \<Longrightarrow> link_set (ls ! unat n) \<and>
        (\<exists>m. getLinkedNode sha3 ds ls (unat n) = Some m \<and> rep sha3 ds m t)"

inductive_cases rep_leafE: "rep sha3 ds n (PLeaf p v)"
inductive_cases rep_branchE: "rep sha3 ds n (PBranch p f)"

definition links_rep ::
  "(u8 list \<Rightarrow> hash256) \<Rightarrow> data_source \<Rightarrow> branch_link list \<Rightarrow> (u8 \<Rightarrow> ptree option) \<Rightarrow> bool" where
  "links_rep sha3 ds ls f \<longleftrightarrow> length ls = Max_Links \<and> (\<forall>n. f n \<noteq> None \<longrightarrow> nibble_ok n) \<and>
     (\<forall>n. nibble_ok n \<longrightarrow> f n = None \<longrightarrow> ls ! unat n = no_link) \<and>
     (\<forall>n t. f n = Some t \<longrightarrow> link_set (ls ! unat n) \<and>
        (\<exists>m. getLinkedNode sha3 ds ls (unat n) = Some m \<and> rep sha3 ds m t))"

lemma rep_branch_iff: "rep sha3 ds n (PBranch p f) \<longleftrightarrow> (\<exists>ls. n = BranchNode p ls \<and> links_rep sha3 ds ls f)"
proof
  assume "rep sha3 ds n (PBranch p f)"
  then show "\<exists>ls. n = BranchNode p ls \<and> links_rep sha3 ds ls f"
    by (elim rep_branchE) (auto simp: links_rep_def)
next
  assume "\<exists>ls. n = BranchNode p ls \<and> links_rep sha3 ds ls f"
  then show "rep sha3 ds n (PBranch p f)"
    by (auto simp: links_rep_def intro!: rep_branch)
qed

lemma rep_leaf_iff [simp]: "rep sha3 ds n (PLeaf p v) \<longleftrightarrow> n = LeafNode p v"
  by (auto elim: rep_leafE intro: rep_leaf)

lemma rep_not_empty: "rep sha3 ds n t \<Longrightarrow> n \<noteq> EmptyNode"
  by (auto elim: rep.cases)

lemma rep_path: "rep sha3 ds n t \<Longrightarrow> node_path n = (case t of PLeaf p v \<Rightarrow> p | PBranch p f \<Rightarrow> p)"
  by (auto elim!: rep.cases)

lemma nibble_ok_unat: "nibble_ok n \<longleftrightarrow> unat n < 16"
proof
  assume "nibble_ok n"
  then obtain i where "n = of_nat i" "i < 16" by (auto simp: nibble_ok_def nibble_list_def)
  then show "unat n < 16" by (simp add: unat_of_nat)
next
  assume n: "unat n < 16"
  have "n = of_nat (unat n)" by simp
  with n show "nibble_ok n" unfolding nibble_ok_def nibble_list_def set_map set_upt by (metis atLeastLessThan_iff imageI zero_le)
qed

lemma getLinkedNode_rep:
  assumes "links_rep sha3 ds ls f" and "ds Hash256_zero = None" and "nibble_ok n"
  shows "f n = None \<Longrightarrow> getLinkedNode sha3 ds ls (unat n) = None"
    and "f n = Some t \<Longrightarrow> \<exists>m. getLinkedNode sha3 ds ls (unat n) = Some m \<and> rep sha3 ds m t"
  using assms by (auto simp: links_rep_def getLinkedNode_def linkedNode_def link_def no_link_def)

lemma getLinkedNode_setLink:
  "i < length ls \<Longrightarrow> getLinkedNode sha3 ds (setLink ls m i) j = (if j = i then Some m else getLinkedNode sha3 ds ls j)"
  by (cases "link_node (ls ! j)") (simp_all add: getLinkedNode_def setLink_def linkedNode_def link_def)

lemma links_rep_setLink:
  assumes ls: "links_rep sha3 ds ls f" and n: "nibble_ok n" and m: "rep sha3 ds m t"
  shows "links_rep sha3 ds (setLink ls m (unat n)) (f(n \<mapsto> t))"
proof -
  have i: "unat n < length ls" using ls n by (simp add: links_rep_def nibble_ok_unat Max_Links_def)
  have other: "setLink ls m (unat n) ! unat k = ls ! unat k" if "k \<noteq> n" for k
    using that by (simp add: setLink_def) (metis nth_list_update_neq unsigned_word_eqI)
  have self: "link_set (setLink ls m (unat n) ! unat n)" using i by (simp add: setLink_def)
  show ?thesis
    unfolding links_rep_def
  proof (intro conjI allI impI)
    show "length (setLink ls m (unat n)) = Max_Links" using ls by (simp add: links_rep_def setLink_def)
  next
    fix k assume "(f(n \<mapsto> t)) k \<noteq> None"
    then show "nibble_ok k" using ls n by (auto simp: links_rep_def split: if_splits)
  next
    fix k assume "nibble_ok k" "(f(n \<mapsto> t)) k = None"
    then show "setLink ls m (unat n) ! unat k = no_link" using ls other by (auto simp: links_rep_def split: if_splits)
  next
    fix k u assume k: "(f(n \<mapsto> t)) k = Some u"
    show "link_set (setLink ls m (unat n) ! unat k)"
      using k ls other self by (cases "k = n") (auto simp: links_rep_def)
    have neq: "unat k \<noteq> unat n" if "k \<noteq> n" using that unsigned_word_eqI by blast
    show "\<exists>m'. getLinkedNode sha3 ds (setLink ls m (unat n)) (unat k) = Some m' \<and> rep sha3 ds m' u"
      using k ls m neq getLinkedNode_setLink [OF i] by (cases "k = n") (auto simp: links_rep_def)
  qed
qed

lemma links_rep_empty: "links_rep sha3 ds empty_links Map.empty"
  by (auto simp: links_rep_def empty_links_def no_link_def nibble_ok_unat Max_Links_def)

section \<open>Setting a key implements the specification\<close>

lemma rep_fork:
  assumes "rep sha3 ds m s" and "rep sha3 ds n t" and "nibble_ok a" and "nibble_ok b"
  shows "rep sha3 ds (BranchNode c (setLink (setLink empty_links m (unat a)) n (unat b))) (PBranch c [a \<mapsto> s, b \<mapsto> t])"
  using links_rep_setLink [OF links_rep_setLink [OF links_rep_empty assms(3,1)] assms(4,2)]
  by (simp add: rep_branch_iff)

lemma branchLeafNode_split:
  "a \<noteq> b \<Longrightarrow> branchLeafNode (c @ a # q) w (c @ b # r) v =
     Inr (BranchNode c (setLink (setLink empty_links (LeafNode q w) (unat a)) (LeafNode r v) (unat b)))"
  by (simp add: branchLeafNode_def Let_def)

lemma set_node_split:
  "a \<noteq> b \<Longrightarrow> set_node sha3 ds (BranchNode (c @ a # q) ls) (c @ b # r) v =
     Inr (BranchNode c (setLink (setLink empty_links (LeafNode r v) (unat b)) (BranchNode q ls) (unat a)))"
  by (simp add: set_node.simps(3) updateBranchLink_set.simps insertNewPairIntoBranch.simps Let_def)

lemma lcp_len_prefix [simp]: "lcp_len xs (xs @ ys) = length xs"
  by (induction xs) auto

lemma set_node_in:
  "set_node sha3 ds (BranchNode p ls) (p @ n # r) v =
     res_bind (set_node sha3 ds (case getLinkedNode sha3 ds ls (unat n) of None \<Rightarrow> EmptyNode | Some m \<Rightarrow> m) r v)
       (\<lambda>m. Inr (BranchNode p (setLink ls m (unat n))))"
  by (cases p) (simp_all add: set_node.simps(3) updateBranchLink_set.simps insertNewPairIntoBranch.simps Let_def)

lemma set_node_rep:
  assumes "rep sha3 ds n t" and "wf l t" and "key_ok l k" and ds: "ds Hash256_zero = None"
  shows "\<exists>n'. set_node sha3 ds n k v = Inr n' \<and> rep sha3 ds n' (pset t k v)"
  using assms(1-3)
proof (induction l arbitrary: n t k rule: less_induct)
  case (less l)
  show ?case
  proof (cases t)
    case (PLeaf p w)
    then have n: "n = LeafNode p w" and p: "key_ok l p" using less.prems by (auto simp: key_ok_def)
    show ?thesis
    proof (cases rule: path_cases [of p k])
      case (split c a q b r)
      have "nibble_ok a" "nibble_ok b" using p less.prems(3) split by (auto simp: key_ok_def)
      then show ?thesis using split by (auto simp: n PLeaf branchLeafNode_split pset_leaf_split intro!: rep_fork)
    qed (use p less.prems(3) PLeaf n in \<open>auto simp: key_ok_def pset.simps(1)\<close>)
  next
    case (PBranch p f)
    obtain ls where n: "n = BranchNode p ls" and ls: "links_rep sha3 ds ls f"
      using less.prems(1) by (auto simp: PBranch rep_branch_iff)
    note w = wf_branchD [OF less.prems(2) [unfolded PBranch]]
    show ?thesis
    proof (cases rule: path_cases [of p k])
      case (ext a r)
      then have k: "nibble_ok a" "key_ok (l - Suc (length p)) r" and lt: "l - Suc (length p) < l"
        using less.prems(3) by (auto simp: key_ok_append)
      have "\<exists>m. set_node sha3 ds (case getLinkedNode sha3 ds ls (unat a) of None \<Rightarrow> EmptyNode | Some m \<Rightarrow> m) r v = Inr m \<and>
        rep sha3 ds m (case f a of None \<Rightarrow> PLeaf r v | Some u \<Rightarrow> pset u r v)"
      proof (cases "f a")
        case None
        then show ?thesis using getLinkedNode_rep(1) [OF ls ds k(1)] by simp
      next
        case (Some u)
        obtain m where "getLinkedNode sha3 ds ls (unat a) = Some m" "rep sha3 ds m u"
          using getLinkedNode_rep(2) [OF ls ds k(1) Some] by blast
        then show ?thesis using less.IH [OF lt _ w(5) [OF Some] k(2)] by (simp add: Some)
      qed
      then show ?thesis
        using links_rep_setLink [OF ls k(1)] by (auto simp: n ext PBranch set_node_in pset_branch_in rep_branch_iff)
    next
      case (split c a q b r)
      have "nibble_ok a" "nibble_ok b" using w(2) less.prems(3) split by (auto simp: key_ok_def)
      moreover have "rep sha3 ds (BranchNode q ls) (PBranch q f)" using ls by (simp add: rep_branch_iff)
      ultimately show ?thesis
        using split by (auto simp: n PBranch set_node_split pset_branch_split intro!: rep_fork)
    qed (use w(1) less.prems(3) in \<open>auto simp: key_ok_def\<close>)
  qed
qed

section \<open>Looking up a key implements the specification\<close>

text \<open>
  Where the key leaves a branch's path early, the code still follows the link of the key's nibble; the
  rest of the key is then too long for every leaf below.
\<close>

fun found :: "hash256 option \<Rightarrow> hash256 \<times> bool" where
  "found None = (Hash256_zero, False)"
| "found (Some v) = (v, True)"

lemma lcp_len_cases:
  assumes "length p < length k"
  obtains (in_branch) n r where "k = p @ n # r" "lcp_len p k = length p"
    | (diverge) c a q b r where "p = c @ a # q" "k = c @ b # r" "a \<noteq> b" "lcp_len p k = length c"
  using assms by (cases rule: path_cases [of p k]) (auto intro: that)

lemma plookup_too_long: "wf l t \<Longrightarrow> l < length k \<Longrightarrow> plookup t k = None"
  using plookup_length [of l t k] by (cases "plookup t k") (auto simp: key_ok_def)

lemma plookup_diverge: "a \<noteq> b \<Longrightarrow> plookup (PBranch (c @ a # q) f) (c @ b # r) = None"
  by (rule plookup_branch_other) simp

lemma lookup_node_rep:
  assumes "rep sha3 ds n t" and "wf l t" and "path_nibbles k" and "l \<le> length k" and ds: "ds Hash256_zero = None"
  shows "\<exists>nodes. lookup_node sha3 ds n k = Inr (found (plookup t k), nodes)"
  using assms(1-4)
proof (induction l arbitrary: n t k rule: less_induct)
  case (less l)
  show ?case
  proof (cases t)
    case (PLeaf p w)
    then have "n = LeafNode p w" "length p \<le> length k" using less.prems by auto
    then show ?thesis
      by (cases rule: path_cases [of p k]) (auto simp: PLeaf lookup_node.simps)
  next
    case (PBranch p f)
    obtain ls where n: "n = BranchNode p ls" and ls: "links_rep sha3 ds ls f"
      using less.prems(1) by (auto simp: PBranch rep_branch_iff)
    note w = wf_branchD [OF less.prems(2) [unfolded PBranch]]
    have step: "\<exists>nodes. lookup_node sha3 ds n (c @ b # r) = Inr (found (case f b of None \<Rightarrow> None | Some u \<Rightarrow> plookup u r), nodes)"
      if k: "k = c @ b # r" "lcp_len p k = length c" "length c \<le> length p" for c b r
    proof -
      have b: "nibble_ok b" and r: "path_nibbles r" "l - Suc (length p) \<le> length r" using less.prems(3,4) k by auto
      show ?thesis
      proof (cases "f b")
        case None
        then show ?thesis using getLinkedNode_rep(1) [OF ls ds b] k by (simp add: n lookup_node.simps)
      next
        case (Some u)
        obtain m where "getLinkedNode sha3 ds ls (unat b) = Some m" "rep sha3 ds m u"
          using getLinkedNode_rep(2) [OF ls ds b Some] by blast
        moreover obtain nodes where "lookup_node sha3 ds m r = Inr (found (plookup u r), nodes)"
          using less.IH [OF _ calculation(2) w(5) [OF Some] r] w(1) by auto
        ultimately show ?thesis using k by (simp add: n Some lookup_node.simps)
      qed
    qed
    have "length p < length k" using w(1) less.prems(4) by simp
    then show ?thesis
    proof (cases rule: lcp_len_cases)
      case (in_branch b r)
      then show ?thesis using step [of p b r] by (simp add: PBranch plookup_branch)
    next
      case (diverge c a q b r)
      have "plookup u r = None" if "f b = Some u" for u
        using plookup_too_long [OF w(5) [OF that]] less.prems(4) w(1) diverge by simp
      then have "(case f b of None \<Rightarrow> None | Some u \<Rightarrow> plookup u r) = None" by (cases "f b") auto
      then show ?thesis
        using step [OF diverge(2,4)] diverge plookup_diverge [OF diverge(3)] by (simp add: PBranch)
    qed
  qed
qed

section \<open>Unsetting a key implements the specification\<close>

lemma links_rep_clearLink:
  assumes ls: "links_rep sha3 ds ls f" and n: "nibble_ok n"
  shows "links_rep sha3 ds (clearLink ls (unat n)) (f(n := None))"
proof -
  have i: "unat n < length ls" using ls n by (simp add: links_rep_def nibble_ok_unat Max_Links_def)
  have neq: "unat k \<noteq> unat n" if "k \<noteq> n" for k :: u8 using that unsigned_word_eqI by blast
  have other: "clearLink ls (unat n) ! unat k = ls ! unat k" if "k \<noteq> n" for k
    using neq [OF that] by (simp add: clearLink_def)
  have get: "getLinkedNode sha3 ds (clearLink ls (unat n)) (unat k) = getLinkedNode sha3 ds ls (unat k)" if "k \<noteq> n" for k
    using other [OF that] by (cases "link_node (ls ! unat k)") (simp_all add: getLinkedNode_def linkedNode_def link_def)
  show ?thesis
    unfolding links_rep_def
  proof (intro conjI allI impI)
    fix k assume "nibble_ok k" "(f(n := None)) k = None"
    then show "clearLink ls (unat n) ! unat k = no_link"
      using ls other i by (cases "k = n") (auto simp: links_rep_def clearLink_def no_link_def)
  qed (use ls other get in \<open>auto simp: links_rep_def clearLink_def split: if_splits\<close>)
qed

lemma hasLink_rep:
  assumes "links_rep sha3 ds ls f" and "nibble_ok n"
  shows "hasLink ls (unat n) \<longleftrightarrow> f n \<noteq> None"
  using assms by (cases "f n") (auto simp: links_rep_def hasLink_def no_link_def)

lemma linked_indexes:
  assumes "links_rep sha3 ds ls f"
  shows "filter (hasLink ls) [0..<Max_Links] = map unat (children f)"
proof -
  have "[0..<Max_Links] = map unat nibble_list" unfolding Max_Links_def by code_simp
  moreover have "filter (hasLink ls \<circ> unat) nibble_list = children f"
    unfolding children_def using hasLink_rep [OF assms] by (intro filter_cong) (auto simp: nibble_ok_def)
  ultimately show ?thesis by (simp add: filter_map)
qed

lemma numLinks_rep:
  assumes "links_rep sha3 ds ls f"
  shows "numLinks ls = length (children f)"
proof -
  have "ls = map ((!) ls) [0..<Max_Links]" using assms map_nth [of ls] by (simp add: links_rep_def)
  then have "filter link_set ls = map ((!) ls) (filter (hasLink ls) [0..<Max_Links])"
    by (metis (no_types, lifting) filter_cong filter_map hasLink_def comp_apply)
  then show ?thesis by (simp add: numLinks_def linked_indexes [OF assms])
qed

lemma setPath_prepend:
  assumes "rep sha3 ds m t"
  shows "\<exists>n. node_setPath m (p @ a # node_path m) = Inr n \<and> rep sha3 ds n (prepend p a t)"
proof (cases t)
  case (PLeaf q v)
  then show ?thesis using assms by (simp add: prepend_def)
next
  case (PBranch q f)
  then obtain ls where "m = BranchNode q ls" "links_rep sha3 ds ls f" using assms by (auto simp: rep_branch_iff)
  then show ?thesis by (simp add: PBranch prepend_def rep_branch_iff)
qed

lemma unsetBranchLink_rep:
  assumes ls: "links_rep sha3 ds ls f" and a: "nibble_ok a" and ds: "ds Hash256_zero = None"
  shows "\<exists>n. unsetBranchLink sha3 ds p ls (unat a) = Inr n \<and> rep sha3 ds n (collapse p (f(a := None)))"
proof -
  let ?ls = "clearLink ls (unat a)" and ?f = "f(a := None)"
  have cl: "links_rep sha3 ds ?ls ?f" by (rule links_rep_clearLink [OF ls a])
  show ?thesis
  proof (cases "\<exists>b. children ?f = [b]")
    case True
    then obtain b where b: "children ?f = [b]" by blast
    then have ok: "nibble_ok b" "?f b \<noteq> None" using children_iff [of b ?f] by auto
    then obtain t where t: "?f b = Some t" by blast
    obtain m where m: "getLinkedNode sha3 ds ?ls (unat b) = Some m" "rep sha3 ds m t"
      using getLinkedNode_rep(2) [OF cl ds ok(1) t] by blast
    have "highestLinkIndex ?ls = unat b" by (simp add: highestLinkIndex_def linked_indexes [OF cl] b)
    moreover have "numLinks ?ls = 1" by (simp add: numLinks_rep [OF cl] b)
    ultimately have "unsetBranchLink sha3 ds p ls (unat a) = node_setPath m (p @ b # node_path m)"
      by (simp add: unsetBranchLink_def Let_def m(1))
    moreover have "collapse p ?f = prepend p b t" unfolding collapse_def b using t by simp
    ultimately show ?thesis using setPath_prepend [OF m(2)] by simp
  next
    case False
    then have "length (children ?f) \<noteq> 1" by (auto simp: length_Suc_conv)
    then have "unsetBranchLink sha3 ds p ls (unat a) = Inr (BranchNode p ?ls)"
      by (simp add: unsetBranchLink_def Let_def numLinks_rep [OF cl])
    moreover have "collapse p ?f = PBranch p ?f"
      using False unfolding collapse_def by (auto split: list.splits)
    ultimately show ?thesis using cl by (simp add: rep_branch_iff)
  qed
qed

definition unset_rep ::
  "(u8 list \<Rightarrow> hash256) \<Rightarrow> data_source \<Rightarrow> tree_node \<Rightarrow> path \<Rightarrow> ptree option option \<Rightarrow> bool" where
  "unset_rep sha3 ds n k res \<longleftrightarrow>
     (case res of
        None \<Rightarrow> unset_node sha3 ds n k True = Inr None
      | Some None \<Rightarrow> unset_node sha3 ds n k True = Inr (Some (EmptyNode, True))
      | Some (Some t) \<Rightarrow> \<exists>m. unset_node sha3 ds n k True = Inr (Some (m, False)) \<and> rep sha3 ds m t)"

lemma unset_node_step:
  assumes "lcp_len p (c @ b # r) = length c"
  shows "unset_node sha3 ds (BranchNode p ls) (c @ b # r) True =
    (case getLinkedNode sha3 ds ls (unat b) of
       None \<Rightarrow> Inr None
     | Some m \<Rightarrow> res_bind (unset_node sha3 ds m r True) (\<lambda>res.
         case res of
           None \<Rightarrow> Inr None
         | Some (updatedNextNode, merge) \<Rightarrow>
             res_bind (if merge then unsetBranchLink sha3 ds p ls (unat b)
                       else Inr (updateBranchLink_unset p ls (unat b) updatedNextNode)) (\<lambda>updatedNode.
             Inr (Some (updatedNode, False)))))"
  by (subst unset_node.simps) (cases "getLinkedNode sha3 ds ls (unat b)"; simp add: assms Let_def)

lemma punset_none: "wf l t \<Longrightarrow> plookup t k = None \<Longrightarrow> punset t k = None"
  using punset_spec [of l t k] by (auto simp: unset_ok_def split: option.splits)

lemma unset_node_branch:
  assumes ls: "links_rep sha3 ds ls f" and b: "nibble_ok b" and ds: "ds Hash256_zero = None"
    and IH: "\<And>m u. f b = Some u \<Longrightarrow> rep sha3 ds m u \<Longrightarrow> unset_rep sha3 ds m r (punset u r)"
  shows "unset_rep sha3 ds (BranchNode p ls) (p @ b # r) (punset (PBranch p f) (p @ b # r))"
proof (cases "f b")
  case None
  then show ?thesis using getLinkedNode_rep(1) [OF ls ds b] by (simp add: unset_rep_def punset_branch unset_node_step)
next
  case (Some u)
  obtain m where m: "getLinkedNode sha3 ds ls (unat b) = Some m" "rep sha3 ds m u"
    using getLinkedNode_rep(2) [OF ls ds b Some] by blast
  note step = unset_node_step [OF lcp_len_prefix, of sha3 ds p ls b r]
  have IHm: "unset_rep sha3 ds m r (punset u r)" by (rule IH [OF Some m(2)])
  consider "punset u r = None" | "punset u r = Some None" | t where "punset u r = Some (Some t)"
    by (cases "punset u r") auto
  then show ?thesis
  proof cases
    case 1
    then show ?thesis using IHm by (simp add: unset_rep_def punset_branch step m(1) Some)
  next
    case 2
    then show ?thesis
      using IHm unsetBranchLink_rep [OF ls b ds, of p] by (auto simp: unset_rep_def punset_branch step m(1) Some)
  next
    case (3 t)
    then show ?thesis
      using IHm links_rep_setLink [OF ls b]
      by (auto simp: unset_rep_def punset_branch step m(1) Some updateBranchLink_unset_def rep_branch_iff)
  qed
qed

lemma unset_node_rep:
  assumes "rep sha3 ds n t" and "wf l t" and "path_nibbles k" and "l \<le> length k" and ds: "ds Hash256_zero = None"
  shows "unset_rep sha3 ds n k (punset t k)"
  using assms(1-4)
proof (induction l arbitrary: n t k rule: less_induct)
  case (less l)
  show ?case
  proof (cases t)
    case (PLeaf p w)
    then have "n = LeafNode p w" "length p \<le> length k" using less.prems by auto
    then show ?thesis
      by (cases rule: path_cases [of p k]) (auto simp: PLeaf unset_node.simps unset_rep_def punset.simps(1))
  next
    case (PBranch p f)
    obtain ls where n: "n = BranchNode p ls" and ls: "links_rep sha3 ds ls f"
      using less.prems(1) by (auto simp: PBranch rep_branch_iff)
    note w = wf_branchD [OF less.prems(2) [unfolded PBranch]]
    have lt: "l - Suc (length p) < l" using w(1) by simp
    have "length p < length k" using w(1) less.prems(4) by simp
    then show ?thesis
    proof (cases rule: lcp_len_cases)
      case (in_branch b r)
      then have b: "nibble_ok b" and r: "path_nibbles r" "l - Suc (length p) \<le> length r" using less.prems(3,4) by auto
      show ?thesis
        unfolding n in_branch PBranch
        by (rule unset_node_branch [OF ls b ds]) (rule less.IH [OF lt _ w(5) r])
    next
      case (diverge c a q b r)
      then have b: "nibble_ok b" and r: "path_nibbles r" "l - Suc (length p) < length r"
        using less.prems(3,4) w(1) by auto
      have none: "punset (PBranch p f) (c @ b # r) = None" unfolding diverge(1) by (rule punset_branch_other) (use diverge(3) in auto)
      note step = unset_node_step [of p c b r sha3 ds ls]
      show ?thesis
      proof (cases "f b")
        case None
        then show ?thesis
          using getLinkedNode_rep(1) [OF ls ds b] diverge(2,4) by (simp add: none PBranch unset_rep_def n step)
      next
        case (Some u)
        obtain m where m: "getLinkedNode sha3 ds ls (unat b) = Some m" "rep sha3 ds m u"
          using getLinkedNode_rep(2) [OF ls ds b Some] by blast
        have "unset_rep sha3 ds m r (punset u r)" using less.IH [OF lt m(2) w(5) [OF Some] r(1)] r(2) by simp
        moreover have "punset u r = None"
          by (rule punset_none [OF w(5) [OF Some] plookup_too_long [OF w(5) [OF Some] r(2)]])
        ultimately show ?thesis using diverge(2,4) by (simp add: none PBranch unset_rep_def n step m(1))
      qed
    qed
  qed
qed

section \<open>Node hashes\<close>

text \<open>The hash a tree stands for, computed from the specification alone.\<close>

primrec phash :: "(u8 list \<Rightarrow> hash256) \<Rightarrow> ptree \<Rightarrow> hash256" where
  "phash sha3 (PLeaf p v) = sha3 (EncodeKey p True @ v)"
| "phash sha3 (PBranch p f) =
     sha3 (EncodeKey p False @
       concat (map (\<lambda>n. case map_option (phash sha3) (f n) of None \<Rightarrow> Hash256_zero | Some h \<Rightarrow> h) nibble_list))"

lemma link_value_cases:
  "link_value sha3 l = (case link_node l of None \<Rightarrow> link_hash l | Some n \<Rightarrow> node_hash sha3 n)"
  by (cases l; cases "link_node l") auto

lemma link_value_getLinkedNode:
  assumes "ds_ok sha3 ds" and "getLinkedNode sha3 ds ls i = Some m"
  shows "link_value sha3 (ls ! i) = node_hash sha3 m"
  using assms by (cases "link_node (ls ! i)")
    (auto simp: ds_ok_def getLinkedNode_def linkedNode_def link_def link_value_cases)

lemma node_hash_rep:
  assumes ds: "ds_ok sha3 ds" and "rep sha3 ds n t"
  shows "node_hash sha3 n = phash sha3 t"
  using assms(2)
proof (induction t arbitrary: n rule: ptree.induct)
  case (PLeaf p v)
  then show ?case by (simp add: CalculateLeafTreeNodeHash_def)
next
  case (PBranch p f)
  obtain ls where n: "n = BranchNode p ls" and ls: "links_rep sha3 ds ls f"
    using PBranch.prems by (auto simp: rep_branch_iff)
  have link: "link_value sha3 (ls ! unat a) = (case map_option (phash sha3) (f a) of None \<Rightarrow> Hash256_zero | Some h \<Rightarrow> h)"
    if a: "nibble_ok a" for a
  proof (cases "f a")
    case None
    then show ?thesis using ls a by (simp add: links_rep_def no_link_def)
  next
    case (Some u)
    obtain m where m: "getLinkedNode sha3 ds ls (unat a) = Some m" "rep sha3 ds m u"
      using getLinkedNode_rep(2) [OF ls _ a Some] ds by (auto simp: ds_ok_def)
    have "Some u \<in> range f" by (rule range_eqI [of _ _ a]) (simp add: Some)
    then have "node_hash sha3 m = phash sha3 u" using PBranch.IH [of "Some u" u m] m(2) by simp
    then show ?thesis using link_value_getLinkedNode [OF ds m(1)] by (simp add: Some)
  qed
  have "map (link_value sha3) ls = map (\<lambda>a. link_value sha3 (ls ! unat a)) nibble_list"
  proof -
    have "[0..<Max_Links] = map unat nibble_list" unfolding Max_Links_def by code_simp
    then have "ls = map ((!) ls) (map unat nibble_list)" using ls map_nth [of ls] by (simp add: links_rep_def)
    then have "map (link_value sha3) ls = map (link_value sha3) (map ((!) ls) (map unat nibble_list))" by (rule arg_cong)
    then show ?thesis by (simp only: map_map comp_def)
  qed
  also have "\<dots> = map (\<lambda>a. case map_option (phash sha3) (f a) of None \<Rightarrow> Hash256_zero | Some h \<Rightarrow> h) nibble_list"
    by (rule map_cong) (simp_all add: link nibble_ok_def)
  finally show ?case by (simp add: n)
qed

section \<open>Sequences of operations on a tree\<close>

datatype tree_op = SetKey "u8 list" hash256 | UnsetKey "u8 list"

fun op_key :: "tree_op \<Rightarrow> u8 list" where
  "op_key (SetKey k v) = k"
| "op_key (UnsetKey k) = k"

fun run_op :: "(u8 list \<Rightarrow> hash256) \<Rightarrow> data_source \<Rightarrow> tree_op \<Rightarrow> tree_node \<Rightarrow> tree_node result" where
  "run_op sha3 ds (SetKey k v) n = tree_set sha3 ds k v n"
| "run_op sha3 ds (UnsetKey k) n = res_bind (tree_unset sha3 ds k n) (\<lambda>(removed, n'). Inr n')"

fun map_op :: "tree_op \<Rightarrow> (u8 list \<Rightarrow> hash256 option) \<Rightarrow> (u8 list \<Rightarrow> hash256 option)" where
  "map_op (SetKey k v) m = m(k \<mapsto> v)"
| "map_op (UnsetKey k) m = m(k := None)"

definition tree_holds ::
  "(u8 list \<Rightarrow> hash256) \<Rightarrow> data_source \<Rightarrow> nat \<Rightarrow> tree_node \<Rightarrow> ptree option \<Rightarrow> (u8 list \<Rightarrow> hash256 option) \<Rightarrow> bool" where
  "tree_holds sha3 ds len n t m \<longleftrightarrow>
     (case t of None \<Rightarrow> n = EmptyNode \<and> m = Map.empty
      | Some u \<Rightarrow> rep sha3 ds n u \<and> wf (2 * len) u \<and>
          (\<forall>k. m k = (if length k = len then plookup u (nibbles (path_of_key k)) else None)))"

lemma nibbles_of_key: "nibbles (path_of_key k) = all_nibbles k"
  by (rule path_of_key_spec(2))

lemma hi_lo_inject: "hi_nibble b = hi_nibble c \<Longrightarrow> lo_nibble b = lo_nibble c \<Longrightarrow> b = c"
proof (rule bit_word_eqI)
  fix n assume h: "hi_nibble b = hi_nibble c" "lo_nibble b = lo_nibble c" and n: "n < LENGTH(8)"
  have "bit (hi_nibble b) (n - 4) = bit (hi_nibble c) (n - 4)" "bit (lo_nibble b) n = bit (lo_nibble c) n" using h by simp_all
  then show "bit b n = bit c n"
    using n by (cases "n < 4") (auto simp: hi_nibble_def lo_nibble_def bit_simps)
qed

lemma all_nibbles_inject: "all_nibbles k = all_nibbles j \<Longrightarrow> k = j"
proof (induction k arbitrary: j)
  case Nil
  then show ?case by (cases j) auto
next
  case (Cons b k)
  then show ?case by (cases j) (auto dest: hi_lo_inject)
qed

lemma nibble_ok_take_bit: "take_bit 4 n = n \<Longrightarrow> nibble_ok n"
proof -
  assume "take_bit 4 n = n"
  then have "take_bit 4 (unat n) = unat n" by (metis unsigned_take_bit_eq)
  then show "nibble_ok n" by (simp add: nibble_ok_unat take_bit_nat_eq_self_iff)
qed

lemma key_path_ok: "length k = len \<Longrightarrow> key_ok (2 * len) (nibbles (path_of_key k))"
  by (auto simp: key_ok_def nibbles_of_key path_nibbles_def intro: nibble_ok_take_bit dest: all_nibbles_small)

lemma key_path_inject: "nibbles (path_of_key k) = nibbles (path_of_key j) \<longleftrightarrow> k = j"
  by (auto simp: nibbles_of_key dest: all_nibbles_inject)

lemma run_op_holds:
  assumes holds: "tree_holds sha3 ds len n t m" and ds: "ds Hash256_zero = None" and len: "length (op_key x) = len"
  shows "\<exists>n' t'. run_op sha3 ds x n = Inr n' \<and> tree_holds sha3 ds len n' t' (map_op x m)"
proof (cases x)
  case (SetKey k v)
  then have k: "key_ok (2 * len) (nibbles (path_of_key k))" "length k = len" using len key_path_ok by auto
  show ?thesis
  proof (cases t)
    case None
    have "tree_holds sha3 ds len (LeafNode (nibbles (path_of_key k)) v) (Some (PLeaf (nibbles (path_of_key k)) v)) [k \<mapsto> v]"
      using k by (auto simp: tree_holds_def key_path_inject key_ok_def)
    moreover have "n = EmptyNode" "m = Map.empty" using holds None by (simp_all add: tree_holds_def)
    ultimately show ?thesis unfolding SetKey run_op.simps map_op.simps tree_set_def by auto
  next
    case (Some u)
    then have u: "rep sha3 ds n u" "wf (2 * len) u"
      and m: "m k = (if length k = len then plookup u (nibbles (path_of_key k)) else None)" for k
      using holds by (auto simp: tree_holds_def)
    obtain n' where n': "set_node sha3 ds n (nibbles (path_of_key k)) v = Inr n'"
      "rep sha3 ds n' (pset u (nibbles (path_of_key k)) v)"
      using set_node_rep [OF u k(1) ds] by blast
    then have "tree_holds sha3 ds len n' (Some (pset u (nibbles (path_of_key k)) v)) (m(k \<mapsto> v))"
      using pset_spec [OF u(2) k(1)] k(2) m by (simp add: tree_holds_def key_path_inject)
    then show ?thesis using n'(1) by (auto simp: SetKey tree_set_def)
  qed
next
  case (UnsetKey k)
  then have k: "key_ok (2 * len) (nibbles (path_of_key k))" "length k = len" using len key_path_ok by auto
  show ?thesis
  proof (cases t)
    case None
    then show ?thesis using holds
      by (auto simp: tree_holds_def UnsetKey tree_unset_def unset_node.simps fun_upd_idem intro!: exI [of _ None])
  next
    case (Some u)
    then have u: "rep sha3 ds n u" "wf (2 * len) u"
      and m: "m k = (if length k = len then plookup u (nibbles (path_of_key k)) else None)" for k
      using holds by (auto simp: tree_holds_def)
    have res: "unset_rep sha3 ds n (nibbles (path_of_key k)) (punset u (nibbles (path_of_key k)))"
      using unset_node_rep [OF u _ _ ds] k(1) by (simp add: key_ok_def)
    note ok = punset_spec [OF u(2), of "nibbles (path_of_key k)", unfolded unset_ok_def]
    consider "punset u (nibbles (path_of_key k)) = None" | "punset u (nibbles (path_of_key k)) = Some None"
      | t' where "punset u (nibbles (path_of_key k)) = Some (Some t')"
      by (cases "punset u (nibbles (path_of_key k))") auto
    then show ?thesis
    proof cases
      case 1
      then have "m(k := None) = m" using ok m [of k] by (simp add: fun_upd_idem)
      then show ?thesis using 1 res holds by (auto simp: UnsetKey tree_unset_def unset_rep_def)
    next
      case 2
      then have "m(k := None) = Map.empty" using ok m by (auto simp: key_path_inject)
      then have "tree_holds sha3 ds len EmptyNode None (m(k := None))" by (simp add: tree_holds_def)
      then show ?thesis using 2 res by (auto simp: UnsetKey tree_unset_def unset_rep_def)
    next
      case (3 t')
      then obtain n' where n': "unset_node sha3 ds n (nibbles (path_of_key k)) True = Inr (Some (n', False))" "rep sha3 ds n' t'"
        using res by (auto simp: unset_rep_def)
      then have "tree_holds sha3 ds len n' (Some t') (m(k := None))"
        using 3 ok m by (simp add: tree_holds_def key_path_inject)
      then show ?thesis using n'(1) by (auto simp: UnsetKey tree_unset_def)
    qed
  qed
qed

lemma run_ops_hold:
  assumes "tree_holds sha3 ds len n t m" and ds: "ds Hash256_zero = None" and "\<And>x. x \<in> set ops \<Longrightarrow> length (op_key x) = len"
  shows "\<exists>n' t'. res_fold (run_op sha3 ds) ops n = Inr n' \<and> tree_holds sha3 ds len n' t' (fold map_op ops m)"
  using assms(1,3)
proof (induction ops arbitrary: n t m)
  case Nil
  then show ?case by auto
next
  case (Cons x ops)
  obtain n' t' where "run_op sha3 ds x n = Inr n'" "tree_holds sha3 ds len n' t' (map_op x m)"
    using run_op_holds [OF Cons.prems(1) ds, of x] Cons.prems(2) by auto
  then show ?case using Cons.IH [of n' t' "map_op x m"] Cons.prems(2) by simp
qed

lemma tree_lookup_holds:
  assumes "tree_holds sha3 ds len n t m" and "ds Hash256_zero = None" and "length k = len"
  shows "\<exists>nodes. tree_lookup sha3 ds k n = Inr (found (m k), nodes)"
proof (cases t)
  case None
  then show ?thesis using assms(1) by (simp add: tree_holds_def tree_lookup_def lookup_node.simps)
next
  case (Some u)
  then have "rep sha3 ds n u" "wf (2 * len) u" "m k = plookup u (nibbles (path_of_key k))"
    using assms(1,3) by (auto simp: tree_holds_def)
  then show ?thesis
    using lookup_node_rep [of sha3 ds n u "2 * len" "nibbles (path_of_key k)"] key_path_ok [OF assms(3)] assms(2)
    by (simp add: key_ok_def tree_lookup_def)
qed

lemma holds_empty: "tree_holds sha3 ds len EmptyNode None Map.empty"
  by (simp add: tree_holds_def)

text \<open>Two well-formed trees with the same entries are the same tree, whatever operations built them.\<close>

lemma byte_of_nibbles:
  assumes "nibble_ok a" and "nibble_ok b"
  shows "\<exists>c. hi_nibble c = a \<and> lo_nibble c = b"
proof (intro exI conjI)
  have a: "take_bit 4 a = a" using assms(1) by (auto simp: nibble_ok_def nibble_list_def upt_rec)
  have b: "take_bit 4 b = b" using assms(2) by (auto simp: nibble_ok_def nibble_list_def upt_rec)
  have "\<not> bit b (n + 4)" for n by (subst b [symmetric]) (simp add: bit_take_bit_iff)
  moreover have "bit a n \<Longrightarrow> n < 4" for n by (metis a bit_take_bit_iff)
  ultimately show "hi_nibble (push_bit 4 a OR b) = a"
    by (intro bit_word_eqI) (fastforce simp: hi_nibble_def bit_simps ac_simps)
  show "lo_nibble (push_bit 4 a OR b) = b"
    by (subst (2) b [symmetric]) (auto simp: lo_nibble_def bit_simps intro!: bit_word_eqI)
qed

lemma path_of_nibbles: "key_ok (2 * len) p \<Longrightarrow> \<exists>k. length k = len \<and> p = nibbles (path_of_key k)"
proof (induction len arbitrary: p)
  case 0
  then show ?case by (simp add: key_ok_def nibbles_of_key)
next
  case (Suc len)
  then obtain a b q where p: "p = a # b # q" by (cases p; cases "tl p") (auto simp: key_ok_def)
  then have ab: "nibble_ok a" "nibble_ok b" and q: "key_ok (2 * len) q" using Suc.prems by (auto simp: key_ok_def)
  obtain k where k: "length k = len" "q = nibbles (path_of_key k)" using Suc.IH [OF q] by blast
  obtain c where "hi_nibble c = a" "lo_nibble c = b" using byte_of_nibbles [OF ab] by blast
  then show ?case using k p by (intro exI [of _ "c # k"]) (simp add: nibbles_of_key)
qed

lemma holds_SomeD:
  assumes "tree_holds sha3 ds len n (Some u) m"
  shows "rep sha3 ds n u" and "wf (2 * len) u" and "length k = len \<Longrightarrow> plookup u (nibbles (path_of_key k)) = m k"
  using assms by (auto simp: tree_holds_def)

lemma holds_root_determined:
  assumes ds: "ds_ok sha3 ds" "ds_ok sha3 ds'"
    and n: "tree_holds sha3 ds len n t m" and n': "tree_holds sha3 ds' len n' t' m"
  shows "tree_root sha3 n = tree_root sha3 n'"
proof -
  have some: "\<exists>k. m k \<noteq> None" if "tree_holds sha3 ds'' len n'' (Some u) m" for ds'' n'' u
  proof -
    have u: "wf (2 * len) u" "m k = (if length k = len then plookup u (nibbles (path_of_key k)) else None)" for k
      using that by (auto simp: tree_holds_def)
    obtain p where p: "plookup u p \<noteq> None" using wf_inhabited [OF u(1)] by blast
    then obtain k where "length k = len" "p = nibbles (path_of_key k)"
      using path_of_nibbles [OF plookup_length [OF u(1)]] by blast
    then have "m k \<noteq> None" using u(2) [of k] p by simp
    then show ?thesis by (rule exI)
  qed
  have none: "m = Map.empty" if "tree_holds sha3 ds'' len n'' None m" for ds'' n''
    using that by (simp add: tree_holds_def)
  show ?thesis
  proof (cases t; cases t')
    fix u u' assume t: "t = Some u" "t' = Some u'"
    note u = holds_SomeD [OF n [unfolded t]] and u' = holds_SomeD [OF n' [unfolded t]]
    have "plookup u p = plookup u' p" for p
    proof (cases "key_ok (2 * len) p")
      case True
      then show ?thesis using path_of_nibbles [OF True] u(3) u'(3) by auto
    next
      case False
      then show ?thesis using plookup_length u(2) u'(2) by metis
    qed
    then have "u = u'" using canonical [OF u(2) u'(2)] by auto
    then show ?thesis using node_hash_rep [OF ds(1) u(1)] node_hash_rep [OF ds(2) u'(1)] by (simp add: tree_root_def)
  qed (use some none n n' in \<open>auto simp: tree_holds_def tree_root_def\<close>)
qed

section \<open>Properties\<close>

text \<open>
  C2. Any sequence of sets and unsets of keys of one length, started on the empty tree, succeeds, and a
  lookup in the tree it leaves finds exactly the entry that the same sequence leaves in a map.
\<close>

theorem patricia_tree_refines_map:
  assumes "ds Hash256_zero = None" and "\<And>x. x \<in> set ops \<Longrightarrow> length (op_key x) = len" and "length k = len"
  shows "\<exists>n nodes. res_fold (run_op sha3 ds) ops EmptyNode = Inr n \<and>
    tree_lookup sha3 ds k n = Inr (found (fold map_op ops Map.empty k), nodes)"
proof -
  obtain n t where "res_fold (run_op sha3 ds) ops EmptyNode = Inr n" "tree_holds sha3 ds len n t (fold map_op ops Map.empty)"
    using run_ops_hold [OF holds_empty, of ds ops len sha3] assms(1,2) by auto
  then show ?thesis using tree_lookup_holds [of sha3 ds len n t _ k] assms(1,3) by blast
qed

theorem patricia_tree_refines_map_witness:
  "\<exists>n nodes. res_fold (run_op (\<lambda>bytes. bytes) Map.empty)
      [SetKey [0x12, 0x34] [1], SetKey [0x12, 0x44] [2], SetKey [0x52, 0x44] [3], UnsetKey [0x12, 0x34]] EmptyNode = Inr n \<and>
    tree_lookup (\<lambda>bytes. bytes) Map.empty [0x12, 0x44] n = Inr (([2], True), nodes)"
proof -
  let ?ops = "[SetKey [0x12, 0x34] [1], SetKey [0x12, 0x44] [2], SetKey [0x52, 0x44] [3], UnsetKey [0x12, 0x34]]"
  have "found (fold map_op ?ops Map.empty [0x12, 0x44]) = ([2], True)" by simp
  then show ?thesis
    using patricia_tree_refines_map [of Map.empty ?ops 2 "[0x12, 0x44]" "\<lambda>bytes. bytes"] by force
qed



end
