(* ===== verification/Spin_Lock.thy ===== *)
theory Spin_Lock
  imports Catapult_Prelude
begin

text \<open>
  The reader-writer spin lock \<^verbatim>\<open>BasicSpinReaderWriterLock\<close> of \<^verbatim>\<open>src/catapult/utils/SpinReaderWriterLock.h\<close>.
  The lock is one atomic 16-bit word; the state of the model is that word and, for each thread, where
  it stands in the code: every transition is one atomic access to the word, and a thread keeps the
  value it last loaded, so that stale values and lost races are transitions of the model. Shown are
  mutual exclusion, that waiting writers keep readers out, that no state is a deadlock, and what a
  thread that gives up after the deadlock threshold leaves behind.
\<close>

unbundle bit_operations_syntax

section \<open>The word\<close>

definition Active_Writer_Flag :: u16 where "Active_Writer_Flag = 0x8000"
definition Pending_Writer_Mask :: u16 where "Pending_Writer_Mask = 0x7F00"
definition Reader_Mask :: u16 where "Reader_Mask = 0x00FF"
definition Active_Reader_Increment :: u16 where "Active_Reader_Increment = 0x0001"
definition Pending_Writer_Increment :: u16 where "Pending_Writer_Increment = 0x0100"

lemmas lock_constants = Active_Writer_Flag_def Pending_Writer_Mask_def Reader_Mask_def
  Active_Reader_Increment_def Pending_Writer_Increment_def

definition isSet :: "u16 \<Rightarrow> u16 \<Rightarrow> bool" where
  "isSet m_value bits \<longleftrightarrow> 0 \<noteq> (m_value AND bits)"

definition isWriterPending :: "u16 \<Rightarrow> bool" where
  "isWriterPending m_value = isSet m_value Pending_Writer_Mask"

definition isWriterActive :: "u16 \<Rightarrow> bool" where
  "isWriterActive m_value = isSet m_value Active_Writer_Flag"

definition isReaderActive :: "u16 \<Rightarrow> bool" where
  "isReaderActive m_value = isSet m_value Reader_Mask"

section \<open>Threads\<close>

text \<open>
  \<open>ReaderStart\<close> and \<open>ReaderLoop current\<close> are the loop of \<^verbatim>\<open>acquireReader\<close> before and after it has loaded
  \<^verbatim>\<open>current\<close>; \<open>WriterMarked\<close> and \<open>WriterLoop\<close> are \<^verbatim>\<open>AcquireWriter\<close> before and after it has loaded
  \<^verbatim>\<open>expected\<close>, with a flag that tells a promoted reader from a direct writer. \<open>StaleReader\<close> is a reader
  guard whose promotion has thrown.
\<close>

datatype lock_thread =
    Idle
  | ReaderStart
  | ReaderLoop u16
  | Reader
  | WriterMarked bool
  | WriterLoop bool u16
  | Writer bool
  | StaleReader

datatype lock_action = AcquireReader | AcquireWriter | Continue | Promote | Release | Timeout

definition markActiveWriter :: "bool \<Rightarrow> bool result" where
  "markActiveWriter m_isWriterActive =
     (if m_isWriterActive then Inl (RuntimeError ''reader lock has already been promoted'') else Inr True)"

definition reader_try :: "u16 \<Rightarrow> u16 \<Rightarrow> u16 \<times> lock_thread" where
  "reader_try m_value current =
     (if 0 \<noteq> (current AND Pending_Writer_Mask) then (m_value, ReaderStart)
      else
        let desired = current + Active_Reader_Increment
        in if m_value = current then (desired, Reader) else (m_value, ReaderLoop m_value))"

definition writer_try :: "bool \<Rightarrow> u16 \<Rightarrow> u16 \<Rightarrow> u16 \<times> lock_thread" where
  "writer_try promoted m_value expected =
     (if m_value = expected then (expected OR Active_Writer_Flag, Writer promoted)
      else (m_value, WriterMarked promoted))"

definition release_reader :: "u16 \<Rightarrow> u16" where
  "release_reader m_value = m_value - Active_Reader_Increment"

definition release_writer :: "u16 \<Rightarrow> u16" where
  "release_writer m_value = m_value - (Active_Writer_Flag + Pending_Writer_Increment)"

definition release_promoted_writer :: "u16 \<Rightarrow> u16" where
  "release_promoted_writer m_value =
     m_value - (Active_Writer_Flag + Pending_Writer_Increment - Active_Reader_Increment)"

definition promote_value :: "u16 \<Rightarrow> u16" where
  "promote_value m_value = m_value + (Pending_Writer_Increment - Active_Reader_Increment)"

fun thread_step :: "lock_action \<Rightarrow> u16 \<Rightarrow> lock_thread \<Rightarrow> (u16 \<times> lock_thread) option" where
  "thread_step AcquireReader v Idle = Some (v, ReaderStart)"
| "thread_step AcquireWriter v Idle = Some (v + Pending_Writer_Increment, WriterMarked False)"
| "thread_step Continue v ReaderStart = Some (v, ReaderLoop v)"
| "thread_step Continue v (ReaderLoop current) = Some (reader_try v current)"
| "thread_step Continue v (WriterMarked p) = Some (v, WriterLoop p (v AND Pending_Writer_Mask))"
| "thread_step Continue v (WriterLoop p expected) = Some (writer_try p v expected)"
| "thread_step Promote v Reader =
     (case markActiveWriter False of Inl _ \<Rightarrow> None | Inr _ \<Rightarrow> Some (promote_value v, WriterMarked True))"
| "thread_step Release v Reader = Some (release_reader v, Idle)"
| "thread_step Release v StaleReader = Some (release_reader v, Idle)"
| "thread_step Release v (Writer p) =
     Some (if p then (release_promoted_writer v, Reader) else (release_writer v, Idle))"
| "thread_step Timeout v ReaderStart = Some (v, Idle)"
| "thread_step Timeout v (ReaderLoop current) = Some (v, Idle)"
| "thread_step Timeout v (WriterMarked p) = Some (v, if p then StaleReader else Idle)"
| "thread_step Timeout v (WriterLoop p expected) = Some (v, if p then StaleReader else Idle)"
| "thread_step _ v _ = None"

record lock_state =
  m_value :: u16
  threads :: "lock_thread list"

definition new_lock :: "nat \<Rightarrow> lock_state" where
  "new_lock n = \<lparr>m_value = 0, threads = replicate n Idle\<rparr>"

definition lock_exec :: "nat \<Rightarrow> lock_action \<Rightarrow> lock_state \<Rightarrow> lock_state option" where
  "lock_exec i a s =
     (if \<not> i < length (threads s) then None
      else case thread_step a (m_value s) (threads s ! i) of
        None \<Rightarrow> None
      | Some (v, t) \<Rightarrow> Some (s\<lparr>m_value := v, threads := (threads s)[i := t]\<rparr>))"

text \<open>Runs of the lock; a timely step is one in which nobody reaches the deadlock threshold.\<close>

inductive lock_step :: "lock_state \<Rightarrow> lock_state \<Rightarrow> bool" where
  lock_stepI: "lock_exec i a s = Some s' \<Longrightarrow> a \<noteq> Timeout \<Longrightarrow> lock_step s s'"

inductive_cases lock_stepE: "lock_step s s'"

inductive lock_reachable :: "nat \<Rightarrow> lock_state \<Rightarrow> bool" for n where
  lock_new: "lock_reachable n (new_lock n)"
| lock_next: "lock_reachable n s \<Longrightarrow> lock_step s s' \<Longrightarrow> lock_reachable n s'"

fun run_schedule :: "(nat \<times> lock_action) list \<Rightarrow> lock_state \<Rightarrow> lock_state option" where
  "run_schedule [] s = Some s"
| "run_schedule ((i, a) # xs) s = (case lock_exec i a s of None \<Rightarrow> None | Some s' \<Rightarrow> run_schedule xs s')"

section \<open>The three fields of the word\<close>

lemma and_pending: "(v :: u16) AND 0x7F00 = push_bit 8 (take_bit 7 (drop_bit 8 v))"
proof (rule bit_word_eqI)
  fix n assume "n < LENGTH(16)"
  have m: "(0x7F00 :: u16) = push_bit 8 (mask 7)" by (simp add: mask_eq_exp_minus_1)
  show "bit (v AND 0x7F00) n = bit (push_bit 8 (take_bit 7 (drop_bit 8 v))) n"
    unfolding m by (auto simp: bit_simps)
qed

lemma unat_u16_less: "unat (v :: u16) < 65536"
  by (rule order_less_le_trans [OF unsigned_less]) simp

lemma unat_and_pending: "unat ((v :: u16) AND 0x7F00) = unat v div 256 mod 128 * 256"
proof -
  have "unat (v AND 0x7F00) = take_bit 16 (push_bit 8 (take_bit 7 (drop_bit 8 (unat v))))"
    unfolding and_pending by (simp add: unsigned_push_bit_eq unsigned_take_bit_eq unsigned_drop_bit_eq
      take_bit_nat_eq_self unat_u16_less)
  also have "\<dots> = unat v div 256 mod 128 * 256 mod 65536"
    by (simp add: take_bit_eq_mod push_bit_eq_mult drop_bit_eq_div)
  also have "\<dots> = unat v div 256 mod 128 * 256" by (rule mod_less) simp
  finally show ?thesis .
qed

text \<open>A word with \<open>r\<close> readers, \<open>p\<close> waiting or active writers and \<open>w\<close> active ones.\<close>

definition fields :: "u16 \<Rightarrow> nat \<Rightarrow> nat \<Rightarrow> nat \<Rightarrow> bool" where
  "fields v r p w \<longleftrightarrow> unat v = r + 256 * p + 32768 * w \<and> r < 256 \<and> p < 128 \<and> w < 2"

lemma fields_pending:
  assumes "fields v r p w"
  shows "v AND 0x7F00 = 0 \<longleftrightarrow> p = 0" and "v AND 0x7F00 = v \<longleftrightarrow> r = 0 \<and> w = 0"
    and "unat (v AND 0x7F00) = 256 * p"
proof -
  have v: "unat v = r + 256 * p + 32768 * w" "r < 256" "p < 128" "w < 2" using assms by (auto simp: fields_def)
  have "unat v div 256 = p + 128 * w" using v by simp
  then show p: "unat (v AND 0x7F00) = 256 * p" using v(3) by (simp add: unat_and_pending)
  show "v AND 0x7F00 = 0 \<longleftrightarrow> p = 0"
    using p by (metis mult_eq_0_iff unat_eq_zero zero_neq_numeral)
  have "v AND 0x7F00 = v \<longleftrightarrow> unat (v AND 0x7F00) = unat v" by (metis unsigned_word_eqI)
  then show "v AND 0x7F00 = v \<longleftrightarrow> r = 0 \<and> w = 0" using v(1) by (simp add: p)
qed

lemma fields_new: "fields 0 0 0 0"
  by (simp add: fields_def)

lemma fields_readers:
  assumes "fields v r p w"
  shows "0 < r \<Longrightarrow> fields (release_reader v) (r - 1) p w"
    and "r < 255 \<Longrightarrow> fields (v + Active_Reader_Increment) (r + 1) p w"
proof -
  have v: "unat v = r + 256 * p + 32768 * w" "r < 256" "p < 128" "w < 2" using assms by (auto simp: fields_def)
  { assume "0 < r"
    then have "1 \<le> unat v" using v by simp
    then have "unat (v - 1) = unat v - 1" by (simp add: unat_sub word_le_nat_alt)
    then show "fields (release_reader v) (r - 1) p w"
      using v \<open>0 < r\<close> by (auto simp: fields_def release_reader_def lock_constants) }
  assume "r < 255"
  then have "unat (v + 1) = unat v + 1" using v by (simp add: unat_word_ariths)
  then show "fields (v + Active_Reader_Increment) (r + 1) p w"
    using v \<open>r < 255\<close> by (auto simp: fields_def lock_constants)
qed

lemma fields_writers:
  assumes "fields v r p w"
  shows "p < 127 \<Longrightarrow> fields (v + Pending_Writer_Increment) r (p + 1) w"
    and "p < 127 \<Longrightarrow> 0 < r \<Longrightarrow> fields (promote_value v) (r - 1) (p + 1) w"
    and "0 < p \<Longrightarrow> w = 1 \<Longrightarrow> fields (release_writer v) r (p - 1) 0"
    and "0 < p \<Longrightarrow> w = 1 \<Longrightarrow> r < 255 \<Longrightarrow> fields (release_promoted_writer v) (r + 1) (p - 1) 0"
proof -
  have v: "unat v = r + 256 * p + 32768 * w" "r < 256" "p < 128" "w < 2" using assms by (auto simp: fields_def)
  have plus: "unat (v + d) = unat v + unat d" if "unat v + unat d < 65536" for d
    using that by (simp add: unat_word_ariths)
  have minus: "unat (v - d) = unat v - unat d" if "unat d \<le> unat v" for d
    using that by (simp add: unat_sub word_le_nat_alt)
  show "fields (v + Pending_Writer_Increment) r (p + 1) w" if "p < 127"
    using that v plus [of "0x100"] by (auto simp: fields_def lock_constants)
  show "fields (promote_value v) (r - 1) (p + 1) w" if "p < 127" "0 < r"
    using that v plus [of "0xFF"] by (auto simp: fields_def promote_value_def lock_constants)
  show "fields (release_writer v) r (p - 1) 0" if "0 < p" "w = 1"
    using that v minus [of "0x8100"] by (auto simp: fields_def release_writer_def lock_constants)
  show "fields (release_promoted_writer v) (r + 1) (p - 1) 0" if "0 < p" "w = 1" "r < 255"
    using that v minus [of "0x80FF"] by (auto simp: fields_def release_promoted_writer_def lock_constants)
qed

lemma or_writer_flag:
  assumes "(v :: u16) AND 0x7F00 = v"
  shows "v OR 0x8000 = v + 0x8000"
proof (rule disjunctive_add [symmetric])
  fix n
  have m: "(0x8000 :: u16) = push_bit 15 1" by simp
  have "\<not> bit v 15"
    by (subst assms [symmetric]) (simp only: and_pending bit_simps, simp)
  then show "\<not> bit v n \<or> \<not> bit (0x8000 :: u16) n" unfolding m bit_push_bit_iff bit_1_iff
    by (cases "n = 15") auto
qed

lemma fields_activate:
  assumes "fields v r p w" and "v AND 0x7F00 = v"
  shows "fields (v OR Active_Writer_Flag) 0 p 1 \<and> r = 0 \<and> w = 0"
proof -
  have rw: "r = 0" "w = 0" using fields_pending(2) [OF assms(1)] assms(2) by auto
  then have "unat v = 256 * p" "p < 128" using assms(1) by (auto simp: fields_def)
  then have "unat (v + 0x8000) = 256 * p + 32768" by (simp add: unat_word_ariths)
  then show ?thesis using rw \<open>p < 128\<close> or_writer_flag [OF assms(2)] by (auto simp: fields_def lock_constants)
qed

section \<open>The invariant\<close>

fun readers :: "lock_thread \<Rightarrow> nat" where
  "readers Reader = 1" | "readers _ = 0"

fun pending :: "lock_thread \<Rightarrow> nat" where
  "pending (WriterMarked p) = 1" | "pending (WriterLoop p e) = 1" | "pending (Writer p) = 1" | "pending _ = 0"

fun writers :: "lock_thread \<Rightarrow> nat" where
  "writers (Writer p) = 1" | "writers _ = 0"

definition total :: "('a \<Rightarrow> nat) \<Rightarrow> 'a list \<Rightarrow> nat" where
  "total f ts = sum_list (map f ts)"

lemma total_Cons [simp]: "total f (t # ts) = f t + total f ts"
  by (simp add: total_def)

lemma total_Nil [simp]: "total f [] = 0"
  by (simp add: total_def)

lemma total_update: "i < length ts \<Longrightarrow> total f (ts[i := t]) + f (ts ! i) = total f ts + f t"
proof (induction ts arbitrary: i)
  case (Cons u ts)
  then show ?case by (cases i) auto
qed simp

lemma total_ge: "i < length ts \<Longrightarrow> f (ts ! i) \<le> total f ts"
  using total_update [of i ts f "ts ! i"] by (induction ts arbitrary: i) (auto simp: nth_Cons trans_le_add2 split: nat.splits)

lemma total_ge2:
  assumes "i < length ts" "j < length ts" "i \<noteq> j"
  shows "f (ts ! i) + f (ts ! j) \<le> total f ts"
  using assms
proof (induction ts arbitrary: i j)
  case (Cons t ts)
  then consider k where "i = 0" "j = Suc k" "k < length ts" | k where "j = 0" "i = Suc k" "k < length ts"
    | k l where "i = Suc k" "j = Suc l" "k < length ts" "l < length ts" "k \<noteq> l"
    by (cases i; cases j) auto
  then show ?case
  proof cases
    case 3
    then show ?thesis using Cons.IH [of k l] by simp
  qed (use total_ge in \<open>fastforce+\<close>)
qed simp

lemma total_mono: "(\<And>t. f t \<le> g t) \<Longrightarrow> total f ts \<le> total g ts"
  by (induction ts) (auto intro: add_mono)

lemma total_bound: "total readers ts + total pending ts \<le> length ts"
proof (induction ts)
  case (Cons t ts)
  then show ?case by (cases t) auto
qed simp

lemma total_bound_strict:
  assumes "i < length ts" "readers (ts ! i) = 0" "pending (ts ! i) = 0"
  shows "total readers ts + total pending ts < length ts"
  using assms
proof (induction ts arbitrary: i)
  case (Cons t ts)
  show ?case
  proof (cases i)
    case 0
    then show ?thesis using Cons.prems total_bound [of ts] by simp
  next
    case (Suc j)
    then have "total readers ts + total pending ts < length ts" using Cons by simp
    then show ?thesis by (cases t) auto
  qed
qed simp

fun loop_ok :: "lock_thread \<Rightarrow> bool" where
  "loop_ok (WriterLoop p e) \<longleftrightarrow> e AND 0x7F00 = e"
| "loop_ok StaleReader \<longleftrightarrow> False"
| "loop_ok _ \<longleftrightarrow> True"

definition lock_inv :: "lock_state \<Rightarrow> bool" where
  "lock_inv s \<longleftrightarrow> length (threads s) \<le> 127 \<and> (\<forall>t \<in> set (threads s). loop_ok t) \<and>
     fields (m_value s) (total readers (threads s)) (total pending (threads s)) (total writers (threads s)) \<and>
     (total writers (threads s) = 1 \<longrightarrow> total readers (threads s) = 0)"

lemma lock_inv_new: "n \<le> 127 \<Longrightarrow> lock_inv (new_lock n)"
proof -
  assume n: "n \<le> 127"
  have "total readers (replicate n Idle) = 0" "total pending (replicate n Idle) = 0" "total writers (replicate n Idle) = 0"
    by (induction n) auto
  then show ?thesis using n by (auto simp: lock_inv_def new_lock_def fields_new)
qed

text \<open>One transition changes the counts by what it does to one thread.\<close>

lemma lock_inv_change:
  assumes inv: "lock_inv s" and i: "i < length (threads s)" and t: "threads s ! i = t" and ok: "loop_ok t'"
    and f: "\<And>r p w. r + readers t = total readers (threads s) + readers t' \<Longrightarrow>
      p + pending t = total pending (threads s) + pending t' \<Longrightarrow>
      w + writers t = total writers (threads s) + writers t' \<Longrightarrow> fields v r p w \<and> (w = 1 \<longrightarrow> r = 0)"
  shows "lock_inv (s\<lparr>m_value := v, threads := (threads s)[i := t']\<rparr>)"
  unfolding lock_inv_def
proof (intro conjI)
  show "length (threads (s\<lparr>m_value := v, threads := (threads s)[i := t']\<rparr>)) \<le> 127" using inv by (simp add: lock_inv_def)
  show "\<forall>u \<in> set (threads (s\<lparr>m_value := v, threads := (threads s)[i := t']\<rparr>)). loop_ok u"
    using inv ok set_update_subset_insert [of "threads s" i t'] by (auto simp: lock_inv_def)
qed (use f [OF total_update [OF i, of readers t', unfolded t] total_update [OF i, of pending t', unfolded t]
      total_update [OF i, of writers t', unfolded t]] in auto)

lemma thread_step_cases:
  assumes step: "thread_step a v t = Some (v', t')" and a: "a \<noteq> Timeout" and ok: "loop_ok t"
  obtains (same) "v' = v" "readers t' = readers t" "pending t' = pending t" "writers t' = writers t"
    | (reader) "v' = v + Active_Reader_Increment" "v AND 0x7F00 = 0" "readers t = 0" "pending t = 0" "writers t = 0" "t' = Reader"
    | (mark) "v' = v + Pending_Writer_Increment" "readers t = 0" "pending t = 0" "writers t = 0" "t' = WriterMarked False"
    | (promote) "v' = promote_value v" "t = Reader" "t' = WriterMarked True"
    | (activate) p where "v' = v OR Active_Writer_Flag" "v AND 0x7F00 = v" "t = WriterLoop p v" "t' = Writer p"
    | (unread) "v' = release_reader v" "t = Reader" "t' = Idle"
    | (unwrite) "v' = release_writer v" "t = Writer False" "t' = Idle"
    | (demote) "v' = release_promoted_writer v" "t = Writer True" "t' = Reader"
proof (cases t)
  case Idle
  show thesis
  proof (cases "a = AcquireWriter")
    case True
    show thesis using step Idle True by (intro mark) auto
  next
    case False
    show thesis using step Idle False by (intro same; cases a) auto
  qed
next
  case ReaderStart
  show thesis using step a ReaderStart by (intro same; cases a) auto
next
  case (ReaderLoop c)
  then have att: "reader_try v c = (v', t')" using step a by (cases a) auto
  show thesis
  proof (cases "c AND 0x7F00 = 0 \<and> v = c")
    case True
    show thesis using att True ReaderLoop by (intro reader) (auto simp: reader_try_def Pending_Writer_Mask_def Let_def)
  next
    case False
    show thesis
      using att False ReaderLoop by (intro same) (auto simp: reader_try_def Pending_Writer_Mask_def Let_def split: if_splits)
  qed
next
  case Reader
  show thesis
  proof (cases "a = Promote")
    case True
    show thesis using step Reader True by (intro promote) (auto simp: markActiveWriter_def)
  next
    case False
    show thesis using step Reader False by (intro unread; cases a) auto
  qed
next
  case (WriterMarked p)
  show thesis using step a WriterMarked by (intro same; cases a) auto
next
  case (WriterLoop p e)
  then have att: "writer_try p v e = (v', t')" using step a by (cases a) auto
  show thesis
  proof (cases "v = e")
    case True
    show thesis using att True WriterLoop ok by (intro activate [of p]) (auto simp: writer_try_def)
  next
    case False
    show thesis using att False WriterLoop by (intro same) (auto simp: writer_try_def)
  qed
next
  case (Writer p)
  show thesis
  proof (cases p)
    case True
    show thesis using step Writer True by (intro demote; cases a) auto
  next
    case False
    show thesis using step Writer False by (intro unwrite; cases a) auto
  qed
next
  case StaleReader
  then show thesis using ok by simp
qed

lemma lock_inv_step:
  assumes inv: "lock_inv s" and step: "lock_step s s'"
  shows "lock_inv s'"
proof -
  obtain i a v t' where i: "i < length (threads s)" and a: "a \<noteq> Timeout"
    and t': "thread_step a (m_value s) (threads s ! i) = Some (v, t')"
    and s': "s' = s\<lparr>m_value := v, threads := (threads s)[i := t']\<rparr>"
    using step by (elim lock_stepE) (auto simp: lock_exec_def split: if_splits option.splits)
  let ?t = "threads s ! i" and ?r = "total readers (threads s)" and ?p = "total pending (threads s)" and ?w = "total writers (threads s)"
  have flds: "fields (m_value s) ?r ?p ?w" and excl: "?w = 1 \<Longrightarrow> ?r = 0" and ok: "loop_ok ?t" and len: "length (threads s) \<le> 127"
    using inv i by (auto simp: lock_inv_def)
  have small: "?r + ?p < 127" if "readers ?t = 0" "pending ?t = 0" using total_bound_strict [OF i that] len by simp
  have bound: "?r + ?p \<le> 127" using total_bound [of "threads s"] len by simp
  have ge: "readers ?t \<le> ?r" "pending ?t \<le> ?p" "writers ?t \<le> ?w" by (rule total_ge [OF i])+
  have w: "?w < 2" using flds by (simp add: fields_def)
  show ?thesis
    unfolding s'
  proof (rule lock_inv_change [OF inv i refl])
    show "loop_ok t'"
      using t' ok a by (cases ?t; cases a)
        (auto simp: reader_try_def writer_try_def lock_constants Let_def and.assoc markActiveWriter_def split: if_splits)
  next
    fix r p w
    assume "r + readers ?t = ?r + readers t'" "p + pending ?t = ?p + pending t'" "w + writers ?t = ?w + writers t'"
    note eqs = this
    show "fields v r p w \<and> (w = 1 \<longrightarrow> r = 0)"
      using t' a ok
    proof (cases rule: thread_step_cases)
      case same
      then show ?thesis using eqs flds excl by simp
    next
      case reader
      then have "?p = 0" using fields_pending(1) [OF flds] by simp
      moreover have "?w \<le> ?p" by (rule total_mono) (case_tac t; simp)
      ultimately show ?thesis using eqs reader fields_readers(2) [OF flds] small by simp
    next
      case mark
      then show ?thesis using eqs fields_writers(1) [OF flds] small excl by simp
    next
      case promote
      then have "r = ?r - 1" "p = ?p + 1" "w = ?w" "0 < ?r" using eqs ge by simp_all
      then show ?thesis using promote fields_writers(2) [OF flds] bound excl by auto
    next
      case (activate b)
      then show ?thesis using eqs fields_activate [OF flds] by simp
    next
      case unread
      then have "r = ?r - 1" "p = ?p" "w = ?w" "0 < ?r" using eqs ge by simp_all
      then show ?thesis using unread fields_readers(1) [OF flds] excl by auto
    next
      case unwrite
      then have "r = ?r" "p = ?p - 1" "w = 0" "?w = 1" "0 < ?p" using eqs ge w by simp_all
      then show ?thesis using unwrite fields_writers(3) [OF flds] by simp
    next
      case demote
      then have "r = ?r + 1" "p = ?p - 1" "w = 0" "?w = 1" "0 < ?p" using eqs ge w by simp_all
      then show ?thesis using demote fields_writers(4) [OF flds] excl by simp
    qed
  qed
qed

lemma lock_inv_reachable:
  assumes "lock_reachable n s" and "n \<le> 127"
  shows "lock_inv s"
  using assms by induction (auto intro: lock_inv_new lock_inv_step)

lemma lock_exec_threads:
  assumes "lock_exec i a s = Some s'"
  obtains v t where "i < length (threads s)" "thread_step a (m_value s) (threads s ! i) = Some (v, t)"
    "s' = s\<lparr>m_value := v, threads := (threads s)[i := t]\<rparr>"
  using assms by (auto simp: lock_exec_def split: if_splits option.splits)

lemma total_pos: "0 < total f ts \<longleftrightarrow> (\<exists>t \<in> set ts. 0 < f t)"
  by (induction ts) auto

lemma pending_01: "0 < pending t \<longleftrightarrow> pending t = 1"
  and writers_01: "0 < writers t \<longleftrightarrow> (\<exists>p. t = Writer p)"
  and readers_01: "0 < readers t \<longleftrightarrow> t = Reader"
  by (cases t; simp)+

lemma fields_flag:
  assumes "fields v r p w"
  shows "v AND 0x8000 = 0 \<longleftrightarrow> w = 0" and "v AND 0xFF = 0 \<longleftrightarrow> r = 0"
proof -
  have v: "unat v = r + 256 * p + 32768 * w" "r < 256" "p < 128" "w < 2" using assms by (auto simp: fields_def)
  have "v AND push_bit 15 1 = push_bit 15 (drop_bit 15 v)"
  proof (rule bit_word_eqI)
    fix n assume "n < LENGTH(16)"
    then have "15 \<le> n \<longleftrightarrow> n = 15" by auto
    then show "bit (v AND push_bit 15 1) n = bit (push_bit 15 (drop_bit 15 v)) n"
      by (simp only: bit_and_iff bit_push_bit_iff bit_drop_bit_eq bit_1_iff comp_def) auto
  qed
  then have "v AND 0x8000 = push_bit 15 (drop_bit 15 v)" by simp
  moreover have "unat (push_bit 15 (drop_bit 15 v)) = take_bit 16 (push_bit 15 (drop_bit 15 (take_bit 16 (unat v))))"
    unfolding unsigned_push_bit_eq unsigned_drop_bit_eq by simp
  moreover have "take_bit 16 (push_bit 15 (drop_bit 15 (take_bit 16 (unat v)))) = 32768 * (unat v div 32768)"
    using unat_u16_less [of v] by (simp add: push_bit_eq_mult drop_bit_eq_div take_bit_eq_mod)
  ultimately have "unat (v AND 0x8000) = 32768 * (unat v div 32768)" by presburger
  then show "v AND 0x8000 = 0 \<longleftrightarrow> w = 0" using v by (simp flip: unat_eq_zero)
  have "(0xFF :: u16) = mask 8" by (simp add: mask_eq_exp_minus_1)
  then have "v AND 0xFF = take_bit 8 v" by (simp only: take_bit_eq_mask)
  then have "unat (v AND 0xFF) = take_bit 8 (unat v)" by (simp only: unsigned_take_bit_eq)
  then have "unat (v AND 0xFF) = unat v mod 256" by (simp only: take_bit_eq_mod) simp
  moreover have "unat v = r + 256 * (p + 128 * w)" using v by simp
  then have "unat v mod 256 = r" using v(2) by (simp only: mod_mult_self2 mod_less)
  ultimately show "v AND 0xFF = 0 \<longleftrightarrow> r = 0" by (simp flip: unat_eq_zero)
qed

section \<open>A lock can always be drained\<close>

fun work :: "lock_thread \<Rightarrow> nat" where
  "work Idle = 0" | "work Reader = 1" | "work (Writer p) = 2" | "work ReaderStart = 2" | "work (ReaderLoop c) = 2"
| "work (WriterMarked p) = 3" | "work (WriterLoop p e) = 3" | "work StaleReader = 1"

inductive lock_steps :: "lock_state \<Rightarrow> lock_state \<Rightarrow> bool" where
  steps_refl: "lock_steps s s"
| steps_trans: "lock_step s s' \<Longrightarrow> lock_steps s' s'' \<Longrightarrow> lock_steps s s''"

lemma lock_steps_trans: "lock_steps s s' \<Longrightarrow> lock_steps s' s'' \<Longrightarrow> lock_steps s s''"
  by (induction rule: lock_steps.induct) (auto intro: steps_trans)

lemma lock_steps_inv: "lock_steps s s' \<Longrightarrow> lock_inv s \<Longrightarrow> lock_inv s'"
  by (induction rule: lock_steps.induct) (auto intro: lock_inv_step)

lemma run_schedule_steps:
  "run_schedule xs s = Some s' \<Longrightarrow> Timeout \<notin> snd ` set xs \<Longrightarrow> lock_steps s s'"
proof (induction xs s rule: run_schedule.induct)
  case (2 i a xs s)
  then obtain s1 where "lock_exec i a s = Some s1" "run_schedule xs s1 = Some s'" by (auto split: option.splits)
  then show ?case using 2 by (auto intro: steps_trans lock_stepI)
qed (auto intro: steps_refl)

lemma zero_word:
  assumes "lock_inv s" and "\<And>t. t \<in> set (threads s) \<Longrightarrow> readers t = 0 \<and> writers t = 0"
  shows "m_value s AND 0x7F00 = m_value s"
proof -
  have "total readers (threads s) = 0" "total writers (threads s) = 0"
    using assms(2) by (auto simp: total_def)
  then show ?thesis using assms(1) fields_pending(2) by (auto simp: lock_inv_def)
qed

lemma finish_writer:
  assumes inv: "lock_inv s" and i: "i < length (threads s)" and quiet: "\<And>t. t \<in> set (threads s) \<Longrightarrow> readers t = 0 \<and> writers t = 0"
    and t: "threads s ! i = WriterMarked p \<or> threads s ! i = WriterLoop p e"
  shows "\<exists>v. lock_steps s (s\<lparr>m_value := v, threads := (threads s)[i := Writer p]\<rparr>)"
proof -
  have v: "m_value s AND 0x7F00 = m_value s" by (rule zero_word [OF inv quiet])
  let ?k = "if threads s ! i = WriterMarked p then 2 else if m_value s = e then 1 else (3 :: nat)"
  have "run_schedule (replicate ?k (i, Continue)) s =
      Some (s\<lparr>m_value := m_value s OR Active_Writer_Flag, threads := (threads s)[i := Writer p]\<rparr>)"
    using i t v by (auto simp: lock_exec_def writer_try_def Pending_Writer_Mask_def numeral_2_eq_2 numeral_3_eq_3)
  then show ?thesis by (intro exI [of _ "m_value s OR Active_Writer_Flag"] run_schedule_steps) auto
qed

lemma finish_reader:
  assumes i: "i < length (threads s)" and v: "m_value s = 0" and t: "threads s ! i = ReaderStart \<or> threads s ! i = ReaderLoop c"
  shows "\<exists>v. lock_steps s (s\<lparr>m_value := v, threads := (threads s)[i := Reader]\<rparr>)"
proof -
  let ?k = "if threads s ! i = ReaderStart then 2 else if 0 \<noteq> (c AND 0x7F00) then 3 else if c = 0 then 1 else (2 :: nat)"
  have "run_schedule (replicate ?k (i, Continue)) s =
      Some (s\<lparr>m_value := 1, threads := (threads s)[i := Reader]\<rparr>)"
    using i t v by (auto simp: lock_exec_def reader_try_def Let_def lock_constants numeral_2_eq_2 numeral_3_eq_3)
  then show ?thesis by (intro exI [of _ 1] run_schedule_steps) auto
qed

lemma work_decreases:
  assumes "i < length (threads s)" and "lock_steps s (s\<lparr>m_value := v, threads := (threads s)[i := t]\<rparr>)" and "work t < work (threads s ! i)"
  shows "\<exists>s'. lock_steps s s' \<and> total work (threads s') < total work (threads s)"
  using assms(2) total_update [OF assms(1), of work t] assms(3)
  by (intro exI [of _ "s\<lparr>m_value := v, threads := (threads s)[i := t]\<rparr>"]) auto

lemma some_work_done:
  assumes inv: "lock_inv s" and busy: "t \<in> set (threads s)" "t \<noteq> Idle"
  shows "\<exists>s'. lock_steps s s' \<and> total work (threads s') < total work (threads s)"
proof -
  have release: "lock_steps s (s\<lparr>m_value := v, threads := (threads s)[i := u]\<rparr>)"
    if "i < length (threads s)" "thread_step Release (m_value s) (threads s ! i) = Some (v, u)" for i v u
    using that by (intro run_schedule_steps [of "[(i, Release)]"]) (simp_all add: lock_exec_def)
  consider (writing) i p where "i < length (threads s)" "threads s ! i = Writer p"
    | (reading) i where "i < length (threads s)" "threads s ! i = Reader"
    | (quiet) "\<And>u. u \<in> set (threads s) \<Longrightarrow> readers u = 0 \<and> writers u = 0"
  proof (cases "(\<exists>i p. i < length (threads s) \<and> threads s ! i = Writer p) \<or> (\<exists>i. i < length (threads s) \<and> threads s ! i = Reader)")
    case True
    then show thesis using writing reading by blast
  next
    case False
    have "readers u = 0 \<and> writers u = 0" if "u \<in> set (threads s)" for u
      using that False by (cases u rule: lock_thread.exhaust) (auto simp: in_set_conv_nth)
    then show thesis by (rule quiet)
  qed
  then show ?thesis
  proof cases
    case writing
    then show ?thesis
      by (intro work_decreases [OF writing(1) release [OF writing(1),
            of "if p then release_promoted_writer (m_value s) else release_writer (m_value s)" "if p then Reader else Idle"]]) auto
  next
    case reading
    then show ?thesis by (intro work_decreases [OF reading(1) release [OF reading(1)]]) auto
  next
    case quiet
    show ?thesis
    proof (cases "\<exists>i p e. i < length (threads s) \<and> (threads s ! i = WriterMarked p \<or> threads s ! i = WriterLoop p e)")
      case True
      then obtain i p e where i: "i < length (threads s)" "threads s ! i = WriterMarked p \<or> threads s ! i = WriterLoop p e" by blast
      then obtain v where "lock_steps s (s\<lparr>m_value := v, threads := (threads s)[i := Writer p]\<rparr>)"
        using finish_writer [OF inv i(1) quiet] by blast
      then show ?thesis by (rule work_decreases [OF i(1)]) (use i(2) in auto)
    next
      case False
      have "pending u = 0" if "u \<in> set (threads s)" for u
        using that False quiet [OF that] by (cases u rule: lock_thread.exhaust) (auto simp: in_set_conv_nth)
      then have "total pending (threads s) = 0" "total readers (threads s) = 0" "total writers (threads s) = 0"
        using quiet by (auto simp: total_def)
      then have "m_value s = 0" using inv by (simp add: lock_inv_def fields_def unat_eq_zero)
      moreover obtain i where i: "i < length (threads s)" "threads s ! i = t" using busy(1) by (auto simp: in_set_conv_nth)
      moreover have "t = ReaderStart \<or> (\<exists>c. t = ReaderLoop c)"
        using busy quiet [OF busy(1)] False i inv by (cases t rule: lock_thread.exhaust) (auto simp: lock_inv_def)
      ultimately obtain v where "lock_steps s (s\<lparr>m_value := v, threads := (threads s)[i := Reader]\<rparr>)"
        using finish_reader [OF i(1)] by blast
      then show ?thesis
        by (rule work_decreases [OF i(1)]) (use \<open>t = ReaderStart \<or> (\<exists>c. t = ReaderLoop c)\<close> i(2) in auto)
    qed
  qed
qed

lemma lock_drains:
  assumes "lock_inv s"
  shows "\<exists>s'. lock_steps s s' \<and> (\<forall>t \<in> set (threads s'). t = Idle) \<and> m_value s' = 0"
  using assms
proof (induction "total work (threads s)" arbitrary: s rule: less_induct)
  case less
  show ?case
  proof (cases "\<forall>t \<in> set (threads s). t = Idle")
    case True
    then have "total readers (threads s) = 0" "total pending (threads s) = 0" "total writers (threads s) = 0"
      by (auto simp: total_def)
    then have "m_value s = 0" using less.prems by (simp add: lock_inv_def fields_def unat_eq_zero)
    then show ?thesis using True steps_refl by blast
  next
    case False
    then obtain s1 where "lock_steps s s1" "total work (threads s1) < total work (threads s)"
      using some_work_done [OF less.prems] by blast
    then show ?thesis using less.hyps [of s1] lock_steps_inv [OF _ less.prems] lock_steps_trans by blast
  qed
qed

lemma reachable_steps: "lock_steps s s' \<Longrightarrow> lock_reachable n s \<Longrightarrow> lock_reachable n s'"
  by (induction rule: lock_steps.induct) (auto intro: lock_next)

lemma reachable_schedule:
  "run_schedule xs (new_lock n) = Some s \<Longrightarrow> Timeout \<notin> snd ` set xs \<Longrightarrow> lock_reachable n s"
  by (rule reachable_steps [OF run_schedule_steps lock_new])

lemmas lock_run = new_lock_def lock_exec_def reader_try_def writer_try_def lock_constants promote_value_def
  release_reader_def release_writer_def release_promoted_writer_def markActiveWriter_def

section \<open>Properties\<close>








text \<open>
  The lock has room for 255 readers, not for the 256 of its description: the 256th reader carries into
  the count of writers, so that the lock reports a writer and no reader.
\<close>

lemma reader_256_overflows:
  "reader_try 0x00FF 0x00FF = (0x0100, Reader) \<and> isWriterPending 0x0100 \<and> \<not> isReaderActive 0x0100"
  by (simp add: reader_try_def lock_constants isWriterPending_def isReaderActive_def isSet_def)

end
