(* ===== verification/Identifier_Groups.thy ===== *)
theory Identifier_Groups
  imports Catapult_Prelude
begin

text \<open>
  Groups of identifiers that share a height (\<^verbatim>\<open>utils/IdentifierGroup.h\<close>) and the helpers through which the
  caches maintain them (\<^verbatim>\<open>cache/IdentifierGroupCacheUtils.h\<close>). A grouped set is a map from the grouping
  key to the identifiers of its group, kept without repetition; the interface that the caches of
  namespaces and locks rely on is the locale \<open>expiry_groups\<close>.
\<close>

section \<open>Groups\<close>

type_synonym 'i group = "'i list"
type_synonym ('g, 'i) grouped_set = "'g \<rightharpoonup> 'i group"

definition group_add :: "'i \<Rightarrow> 'i group \<Rightarrow> 'i group" where
  "group_add identifier m_identifiers =
     (if identifier \<in> set m_identifiers then m_identifiers else m_identifiers @ [identifier])"

definition group_remove :: "'i \<Rightarrow> 'i group \<Rightarrow> 'i group" where
  "group_remove identifier m_identifiers = removeAll identifier m_identifiers"

definition group_empty :: "'i group \<Rightarrow> bool" where
  "group_empty m_identifiers = (m_identifiers = [])"

section \<open>Cache helpers\<close>

definition AddIdentifierWithGroup :: "('g, 'i) grouped_set \<Rightarrow> 'g \<Rightarrow> 'i \<Rightarrow> ('g, 'i) grouped_set" where
  "AddIdentifierWithGroup groupedSet key identifier =
     (let groupedSet = (if groupedSet key = None then groupedSet(key \<mapsto> []) else groupedSet)
      in case groupedSet key of
           None \<Rightarrow> groupedSet
         | Some pGroup \<Rightarrow> groupedSet(key \<mapsto> group_add identifier pGroup))"

definition RemoveIdentifierWithGroup :: "('g, 'i) grouped_set \<Rightarrow> 'g \<Rightarrow> 'i \<Rightarrow> ('g, 'i) grouped_set" where
  "RemoveIdentifierWithGroup groupedSet key identifier =
     (case groupedSet key of
        None \<Rightarrow> groupedSet
      | Some pGroup \<Rightarrow>
          let pGroup = group_remove identifier pGroup
          in if group_empty pGroup then groupedSet(key := None) else groupedSet(key \<mapsto> pGroup))"

definition GetAllIdentifiersWithGroup :: "('g, 'i) grouped_set \<Rightarrow> 'g \<Rightarrow> 'i list" where
  "GetAllIdentifiersWithGroup groupedSet key = (case groupedSet key of None \<Rightarrow> [] | Some pGroup \<Rightarrow> pGroup)"

text \<open>
  \<^verbatim>\<open>ForEachIdentifierWithGroup\<close> hands each value of a group to an action that may change the cache it
  iterates over; \<open>lookup\<close> finds the value in the current cache.
\<close>

fun for_each_identifier :: "('s \<Rightarrow> 'i \<Rightarrow> 'v option) \<Rightarrow> ('v \<Rightarrow> 's \<Rightarrow> 's) \<Rightarrow> 'i list \<Rightarrow> 's \<Rightarrow> 's" where
  "for_each_identifier lookup act [] s = s"
| "for_each_identifier lookup act (i # is) s =
     for_each_identifier lookup act is (case lookup s i of None \<Rightarrow> s | Some v \<Rightarrow> act v s)"

definition ForEachIdentifierWithGroup ::
  "('s \<Rightarrow> 'i \<Rightarrow> 'v option) \<Rightarrow> ('g, 'i) grouped_set \<Rightarrow> 'g \<Rightarrow> ('v \<Rightarrow> 's \<Rightarrow> 's) \<Rightarrow> 's \<Rightarrow> 's" where
  "ForEachIdentifierWithGroup lookup groupedSet key act s =
     (case groupedSet key of None \<Rightarrow> s | Some pGroup \<Rightarrow> for_each_identifier lookup act pGroup s)"

definition RemoveAllIdentifiersWithGroup ::
  "('i \<rightharpoonup> 'v) \<Rightarrow> ('g, 'i) grouped_set \<Rightarrow> 'g \<Rightarrow> ('i \<rightharpoonup> 'v) \<times> ('g, 'i) grouped_set" where
  "RemoveAllIdentifiersWithGroup vals groupedSet key =
     (case groupedSet key of
        None \<Rightarrow> (vals, groupedSet)
      | Some pGroup \<Rightarrow> (fold (\<lambda>i m. m(i := None)) pGroup vals, groupedSet(key := None)))"

definition FindDeactivatingIdentifiersAtHeight ::
  "('v \<Rightarrow> height \<Rightarrow> bool) \<Rightarrow> ('i \<rightharpoonup> 'v) \<Rightarrow> (height, 'i) grouped_set \<Rightarrow> height \<Rightarrow> 'i list" where
  "FindDeactivatingIdentifiersAtHeight isActive vals groupedSet h =
     (case groupedSet h of
        None \<Rightarrow> []
      | Some pGroup \<Rightarrow> filter (\<lambda>i. case vals i of
            None \<Rightarrow> False
          | Some v \<Rightarrow> \<not> isActive v h \<and> isActive v (h - 1)) pGroup)"

section \<open>The interface of the groups\<close>

locale expiry_groups =
  fixes add :: "'t \<Rightarrow> 'g \<Rightarrow> 'i \<Rightarrow> 't" and rem :: "'t \<Rightarrow> 'g \<Rightarrow> 'i \<Rightarrow> 't" and ids :: "'t \<Rightarrow> 'g \<Rightarrow> 'i list"
    and ok :: "'t \<Rightarrow> bool"
  assumes ids_add: "ok t \<Longrightarrow> set (ids (add t g i) g') = (if g' = g then insert i (set (ids t g)) else set (ids t g'))"
    and ids_rem: "ok t \<Longrightarrow> set (ids (rem t g i) g') = (if g' = g then set (ids t g) - {i} else set (ids t g'))"
    and ok_add: "ok t \<Longrightarrow> ok (add t g i)"
    and ok_rem: "ok t \<Longrightarrow> ok (rem t g i)"
    and rem_add: "ok t \<Longrightarrow> i \<notin> set (ids t g) \<Longrightarrow> rem (add t g i) g i = t"
begin

text \<open>Moving an identifier to another group and back is the identity; a moved identifier is in one group only.\<close>

lemma move_back:
  assumes "ok t" and "i \<in> set (ids t g)" and "g \<noteq> g'" and "i \<notin> set (ids t g')"
  shows "rem (add t g' i) g' i = t" and "set (ids (rem (add t g' i) g i) g') = insert i (set (ids t g'))"
  using assms by (simp_all add: rem_add ids_add ids_rem ok_add)

lemma not_in_after_rem: "ok t \<Longrightarrow> i \<notin> set (ids (rem t g i) g)"
  by (simp add: ids_rem)

end

definition groups_ok :: "('g, 'i) grouped_set \<Rightarrow> bool" where
  "groups_ok groupedSet \<longleftrightarrow> (\<forall>g is. groupedSet g = Some is \<longrightarrow> is \<noteq> [] \<and> distinct is)"

lemma groups_ok_empty: "groups_ok Map.empty"
  by (simp add: groups_ok_def)

lemma AddIdentifierWithGroup_eq:
  "AddIdentifierWithGroup t g i = t(g \<mapsto> group_add i (GetAllIdentifiersWithGroup t g))"
  by (cases "t g") (simp_all add: AddIdentifierWithGroup_def GetAllIdentifiersWithGroup_def Let_def)

interpretation grp: expiry_groups AddIdentifierWithGroup RemoveIdentifierWithGroup GetAllIdentifiersWithGroup groups_ok
proof unfold_locales
  fix t :: "('a, 'b) grouped_set" and g g' i
  assume t: "groups_ok t"
  show "set (GetAllIdentifiersWithGroup (AddIdentifierWithGroup t g i) g') =
      (if g' = g then insert i (set (GetAllIdentifiersWithGroup t g)) else set (GetAllIdentifiersWithGroup t g'))"
    by (auto simp: AddIdentifierWithGroup_eq group_add_def GetAllIdentifiersWithGroup_def)
  show "set (GetAllIdentifiersWithGroup (RemoveIdentifierWithGroup t g i) g') =
      (if g' = g then set (GetAllIdentifiersWithGroup t g) - {i} else set (GetAllIdentifiersWithGroup t g'))"
    by (cases "t g") (auto simp: RemoveIdentifierWithGroup_def GetAllIdentifiersWithGroup_def group_remove_def
        group_empty_def Let_def removeAll_filter_not_eq filter_empty_conv)
  show "groups_ok (AddIdentifierWithGroup t g i)"
    using t by (cases "t g") (auto simp: groups_ok_def AddIdentifierWithGroup_eq group_add_def GetAllIdentifiersWithGroup_def)
  show "groups_ok (RemoveIdentifierWithGroup t g i)"
    using t by (cases "t g") (auto simp: groups_ok_def RemoveIdentifierWithGroup_def group_remove_def group_empty_def Let_def
        distinct_removeAll)
  assume new: "i \<notin> set (GetAllIdentifiersWithGroup t g)"
  show "RemoveIdentifierWithGroup (AddIdentifierWithGroup t g i) g i = t"
  proof (cases "t g")
    case None
    then show ?thesis
      by (simp add: AddIdentifierWithGroup_eq RemoveIdentifierWithGroup_def GetAllIdentifiersWithGroup_def group_add_def
          group_remove_def group_empty_def Let_def fun_upd_idem)
  next
    case (Some xs)
    then have "i \<notin> set xs" "xs \<noteq> []" using new t by (auto simp: GetAllIdentifiersWithGroup_def groups_ok_def)
    then show ?thesis
      using Some by (simp add: AddIdentifierWithGroup_eq RemoveIdentifierWithGroup_def GetAllIdentifiersWithGroup_def group_add_def
          group_remove_def group_empty_def Let_def fun_upd_idem)
  qed
qed

end
