(* ===== verification/Root_Namespace.thy ===== *)
theory Root_Namespace
  imports Identifier_Groups
begin

text \<open>
  The state of the namespace plugin (\<^verbatim>\<open>plugins/txes/namespace/src/state\<close>): namespace paths, lifetimes,
  aliases, a root namespace with its children, and the history of the roots that have held one id.
  Roots of one owner share one children object (\<^verbatim>\<open>std::shared_ptr<Children>\<close>), so a history keeps a store
  of children objects and its roots refer to them by index; the lemmas show that sharing follows
  ownership and what copying, pushing and pruning do to the observable history.
\<close>

type_synonym namespace_id = u64
type_synonym key = "u8 list"
type_synonym address = "u8 list"
type_synonym ns_path = "namespace_id list"

definition Namespace_Max_Depth :: nat where "Namespace_Max_Depth = 3"
definition Namespace_Base_Id :: namespace_id where "Namespace_Base_Id = 0"

section \<open>Namespaces\<close>

text \<open>\<^verbatim>\<open>CheckedArray\<close>: reading or appending out of range throws.\<close>

definition path_at :: "ns_path \<Rightarrow> nat \<Rightarrow> namespace_id result" where
  "path_at p i = (if length p \<le> i then Inl (OutOfRange ''index out of range'') else Inr (p ! i))"

definition path_push :: "ns_path \<Rightarrow> namespace_id \<Rightarrow> ns_path result" where
  "path_push p i = (if Namespace_Max_Depth \<le> length p then Inl (OutOfRange ''array bounds exeeded'') else Inr (p @ [i]))"

definition make_namespace :: "ns_path \<Rightarrow> ns_path result" where
  "make_namespace p = (if p = [] then Inl (OutOfRange ''path cannot be empty'') else Inr p)"

definition ns_id :: "ns_path \<Rightarrow> namespace_id" where "ns_id p = p ! (length p - 1)"

definition ns_parentId :: "ns_path \<Rightarrow> namespace_id" where
  "ns_parentId p = (if 1 = length p then Namespace_Base_Id else p ! (length p - 2))"

definition ns_rootId :: "ns_path \<Rightarrow> namespace_id" where "ns_rootId p = p ! 0"
definition ns_isRoot :: "ns_path \<Rightarrow> bool" where "ns_isRoot p = (1 = length p)"

definition createChild :: "ns_path \<Rightarrow> namespace_id \<Rightarrow> ns_path result" where
  "createChild p i =
     (if Namespace_Max_Depth = length p then Inl (OutOfRange ''maximum depth for namepsace path exceeded'')
      else res_bind (path_push p i) make_namespace)"

section \<open>Lifetimes\<close>

record namespace_lifetime =
  Start :: height
  End :: height
  GracePeriodEnd :: height

definition NamespaceLifetime :: "height \<Rightarrow> height \<Rightarrow> u64 \<Rightarrow> namespace_lifetime result" where
  "NamespaceLifetime start finish gracePeriodDuration =
     (let graceEnd = finish + gracePeriodDuration;
          graceEnd = (if finish = - 1 then finish else graceEnd)
      in if finish \<le> start then Inl (InvalidArgument ''namespace lifetime must be positive'')
         else if graceEnd < finish then Inl (InvalidArgument ''namespace grace period end overflow detected'')
         else Inr \<lparr>Start = start, End = finish, GracePeriodEnd = graceEnd\<rparr>)"

definition isActiveAndUnlocked :: "namespace_lifetime \<Rightarrow> height \<Rightarrow> bool" where
  "isActiveAndUnlocked l h \<longleftrightarrow> Start l \<le> h \<and> h < End l"

definition isActiveOrGracePeriod :: "namespace_lifetime \<Rightarrow> height \<Rightarrow> bool" where
  "isActiveOrGracePeriod l h \<longleftrightarrow> Start l \<le> h \<and> h < GracePeriodEnd l"

section \<open>Aliases\<close>

datatype namespace_alias = NoAlias | MosaicAlias mosaic_id | AddressAlias address

definition alias_mosaicId :: "namespace_alias \<Rightarrow> mosaic_id result" where
  "alias_mosaicId a = (case a of MosaicAlias m \<Rightarrow> Inr m
     | _ \<Rightarrow> Inl (RuntimeError ''NamespaceAlias::mosaicId called with invalid type''))"

definition alias_address :: "namespace_alias \<Rightarrow> address result" where
  "alias_address a = (case a of AddressAlias x \<Rightarrow> Inr x
     | _ \<Rightarrow> Inl (RuntimeError ''NamespaceAlias::address called with invalid type''))"

section \<open>Root namespaces\<close>

record child_namespace_data =
  Path :: ns_path
  Alias :: namespace_alias

type_synonym ns_children = "(namespace_id \<times> child_namespace_data) list"

record root_namespace =
  rn_id :: namespace_id
  rn_alias :: namespace_alias
  rn_owner :: key
  rn_lifetime :: namespace_lifetime
  rn_pChildren :: nat

definition RootNamespace :: "namespace_id \<Rightarrow> key \<Rightarrow> namespace_lifetime \<Rightarrow> nat \<Rightarrow> root_namespace" where
  "RootNamespace nid owner lifetime pChildren =
     \<lparr>rn_id = nid, rn_alias = NoAlias, rn_owner = owner, rn_lifetime = lifetime, rn_pChildren = pChildren\<rparr>"

text \<open>The operations of a root on its children object.\<close>

definition root_child :: "ns_children \<Rightarrow> namespace_id \<Rightarrow> ns_path result" where
  "root_child cs i = (case map_of cs i of
     None \<Rightarrow> Inl (InvalidArgument ''unknown child namespace (id) '') | Some d \<Rightarrow> make_namespace (Path d))"

definition root_alias :: "ns_children \<Rightarrow> root_namespace \<Rightarrow> namespace_id \<Rightarrow> namespace_alias result" where
  "root_alias cs r i =
     (if rn_id r = i then Inr (rn_alias r)
      else case map_of cs i of
        None \<Rightarrow> Inl (InvalidArgument ''unknown child namespace (id) '') | Some d \<Rightarrow> Inr (Alias d))"

definition root_add :: "namespace_id \<Rightarrow> ns_path \<Rightarrow> ns_children \<Rightarrow> ns_children result" where
  "root_add rootId ns cs =
     (if map_of cs (ns_id ns) \<noteq> None then Inl (InvalidArgument ''child namespace already exists (id)'')
      else
        res_bind
          (if rootId \<noteq> ns_parentId ns then
             (case map_of cs (ns_parentId ns) of
                None \<Rightarrow> Inl (InvalidArgument ''child namespace has no parent, (child id, parent id)'')
              | Some d \<Rightarrow>
                  if length (Path d) \<noteq> length ns - 1
                  then Inl (InvalidArgument ''child has incorrect path (id)'') else Inr ())
           else Inr ()) (\<lambda>_.
        if rootId \<noteq> ns_rootId ns
        then Inl (InvalidArgument ''child namespace has incorrect root, (child id, root id)'')
        else Inr (cs @ [(ns_id ns, \<lparr>Path = ns, Alias = NoAlias\<rparr>)])))"

definition hasDescendents :: "ns_children \<Rightarrow> nat \<Rightarrow> namespace_id \<Rightarrow> bool" where
  "hasDescendents cs level i =
     list_ex (\<lambda>(k, d). level < length (Path d) \<and> i = Path d ! (level - 1)) cs"

definition root_remove :: "namespace_id \<Rightarrow> ns_children \<Rightarrow> ns_children result" where
  "root_remove i cs =
     (case map_of cs i of
        None \<Rightarrow> Inl (InvalidArgument ''cannot remove child namespace (id)'')
      | Some d \<Rightarrow>
          if hasDescendents cs (length (Path d)) i
          then Inl (InvalidArgument ''cannot remove child namespace because it has decendents (id)'')
          else Inr (filter (\<lambda>p. fst p \<noteq> i) cs))"

definition set_child_alias :: "namespace_id \<Rightarrow> namespace_alias \<Rightarrow> ns_children \<Rightarrow> ns_children" where
  "set_child_alias i a cs = map (\<lambda>(k, d). (k, if k = i then d\<lparr>Alias := a\<rparr> else d)) cs"

definition root_setAlias ::
  "namespace_id \<Rightarrow> namespace_alias \<Rightarrow> root_namespace \<times> ns_children \<Rightarrow> (root_namespace \<times> ns_children) result" where
  "root_setAlias i a rc =
     (case rc of (r, cs) \<Rightarrow>
        if rn_id r = i then Inr (r\<lparr>rn_alias := a\<rparr>, cs)
        else if map_of cs i = None
        then Inl (InvalidArgument ''namespace (id) being linked is not under (root)'')
        else Inr (r, set_child_alias i a cs))"

definition renew :: "root_namespace \<Rightarrow> namespace_lifetime \<Rightarrow> bool \<Rightarrow> root_namespace" where
  "renew r newLifetime setAliasOnRenew =
     (let rn = RootNamespace (rn_id r) (rn_owner r) newLifetime (rn_pChildren r)
      in if setAliasOnRenew then rn\<lparr>rn_alias := rn_alias r\<rparr> else rn)"

section \<open>Histories\<close>

record root_namespace_history =
  h_id :: namespace_id
  h_store :: "ns_children list"
  m_rootHistory :: "root_namespace list"

definition RootNamespaceHistory :: "namespace_id \<Rightarrow> root_namespace_history" where
  "RootNamespaceHistory i = \<lparr>h_id = i, h_store = [], m_rootHistory = []\<rparr>"

definition children_of :: "root_namespace_history \<Rightarrow> root_namespace \<Rightarrow> ns_children" where
  "children_of h r = h_store h ! rn_pChildren r"

definition hist_empty :: "root_namespace_history \<Rightarrow> bool" where "hist_empty h = (m_rootHistory h = [])"
definition hist_back :: "root_namespace_history \<Rightarrow> root_namespace" where "hist_back h = last (m_rootHistory h)"
definition historyDepth :: "root_namespace_history \<Rightarrow> nat" where "historyDepth h = length (m_rootHistory h)"

definition activeOwnerHistoryDepth :: "root_namespace_history \<Rightarrow> nat" where
  "activeOwnerHistoryDepth h =
     (if m_rootHistory h = [] then 0
      else length (takeWhile (\<lambda>r. rn_owner (hist_back h) = rn_owner r) (rev (m_rootHistory h))))"

definition numActiveRootChildren :: "root_namespace_history \<Rightarrow> nat" where
  "numActiveRootChildren h = (if m_rootHistory h = [] then 0 else length (children_of h (hist_back h)))"

definition numAllHistoricalChildren :: "root_namespace_history \<Rightarrow> nat" where
  "numAllHistoricalChildren h = sum_list (map (\<lambda>r. length (children_of h r)) (m_rootHistory h))"

text \<open>The copy constructor allocates a children object whenever the owner changes; \<open>Key_zero\<close> is \<^verbatim>\<open>Key()\<close>.\<close>

definition Key_zero :: key where "Key_zero = replicate 32 0"

fun copy_roots ::
  "root_namespace_history \<Rightarrow> key \<Rightarrow> nat \<Rightarrow> root_namespace list \<Rightarrow> ns_children list \<times> root_namespace list \<Rightarrow>
   ns_children list \<times> root_namespace list" where
  "copy_roots h owner pChildren [] acc = acc"
| "copy_roots h owner pChildren (r # rs) (store, roots) =
     (let (owner', pChildren', store') =
        (if owner \<noteq> rn_owner r then (rn_owner r, length store, store @ [children_of h r])
         else (owner, pChildren, store))
      in copy_roots h owner' pChildren' rs
           (store', roots @ [(RootNamespace (rn_id r) (rn_owner r) (rn_lifetime r) pChildren')\<lparr>rn_alias := rn_alias r\<rparr>]))"

definition hist_copy :: "root_namespace_history \<Rightarrow> root_namespace_history" where
  "hist_copy h = (case copy_roots h Key_zero 0 (m_rootHistory h) ([], []) of (store, roots) \<Rightarrow>
     \<lparr>h_id = h_id h, h_store = store, m_rootHistory = roots\<rparr>)"

text \<open>The assignment operator appends to the roots that the target already has.\<close>

definition hist_assign :: "root_namespace_history \<Rightarrow> root_namespace_history \<Rightarrow> root_namespace_history" where
  "hist_assign target h =
     (case copy_roots h Key_zero 0 (m_rootHistory h) (h_store target, m_rootHistory target) of (store, roots) \<Rightarrow>
        \<lparr>h_id = h_id h, h_store = store, m_rootHistory = roots\<rparr>)"

definition hist_push_back ::
  "key \<Rightarrow> namespace_lifetime \<Rightarrow> bool \<Rightarrow> root_namespace_history \<Rightarrow> root_namespace_history" where
  "hist_push_back owner lifetime setAliasOnRenew h =
     (if \<not> hist_empty h \<and> rn_owner (hist_back h) = owner
      then h\<lparr>m_rootHistory := m_rootHistory h @ [renew (hist_back h) lifetime setAliasOnRenew]\<rparr>
      else h\<lparr>h_store := h_store h @ [[]],
             m_rootHistory := m_rootHistory h @ [RootNamespace (h_id h) owner lifetime (length (h_store h))]\<rparr>)"

definition hist_pop_back :: "root_namespace_history \<Rightarrow> root_namespace_history" where
  "hist_pop_back h = h\<lparr>m_rootHistory := butlast (m_rootHistory h)\<rparr>"

text \<open>Operations on the children and the alias of the last root.\<close>

definition back_add :: "ns_path \<Rightarrow> root_namespace_history \<Rightarrow> root_namespace_history result" where
  "back_add ns h =
     res_bind (root_add (rn_id (hist_back h)) ns (children_of h (hist_back h))) (\<lambda>cs.
     Inr (h\<lparr>h_store := (h_store h)[rn_pChildren (hist_back h) := cs]\<rparr>))"

definition back_remove :: "namespace_id \<Rightarrow> root_namespace_history \<Rightarrow> root_namespace_history result" where
  "back_remove i h =
     res_bind (root_remove i (children_of h (hist_back h))) (\<lambda>cs.
     Inr (h\<lparr>h_store := (h_store h)[rn_pChildren (hist_back h) := cs]\<rparr>))"

definition back_setAlias ::
  "namespace_id \<Rightarrow> namespace_alias \<Rightarrow> root_namespace_history \<Rightarrow> root_namespace_history result" where
  "back_setAlias i a h =
     res_bind (root_setAlias i a (hist_back h, children_of h (hist_back h))) (\<lambda>(r, cs).
     Inr (h\<lparr>h_store := (h_store h)[rn_pChildren (hist_back h) := cs],
            m_rootHistory := butlast (m_rootHistory h) @ [r]\<rparr>))"

fun prune_roots ::
  "root_namespace_history \<Rightarrow> height \<Rightarrow> root_namespace list \<Rightarrow> namespace_id set \<Rightarrow> root_namespace list \<times> namespace_id set" where
  "prune_roots h height [] ids = ([], ids)"
| "prune_roots h height (r # rs) ids =
     (if GracePeriodEnd (rn_lifetime r) \<le> height
      then prune_roots h height rs (ids \<union> fst ` set (children_of h r))
      else case prune_roots h height rs (ids - fst ` set (children_of h r)) of (kept, ids') \<Rightarrow> (r # kept, ids'))"

definition hist_prune :: "height \<Rightarrow> root_namespace_history \<Rightarrow> root_namespace_history \<times> namespace_id set" where
  "hist_prune height h =
     (case prune_roots h height (m_rootHistory h) {} of (kept, ids) \<Rightarrow>
        (h\<lparr>m_rootHistory := kept\<rparr>, if kept = [] then insert (h_id h) ids else ids))"

definition hist_isActiveAndUnlocked :: "root_namespace_history \<Rightarrow> height \<Rightarrow> bool" where
  "hist_isActiveAndUnlocked h height \<longleftrightarrow> \<not> hist_empty h \<and> isActiveAndUnlocked (rn_lifetime (hist_back h)) height"

definition hist_isActive :: "root_namespace_history \<Rightarrow> height \<Rightarrow> bool" where
  "hist_isActive h height \<longleftrightarrow> \<not> hist_empty h \<and> isActiveOrGracePeriod (rn_lifetime (hist_back h)) height"

section \<open>Sharing follows ownership\<close>

text \<open>Newest root first: neighbours of one owner share their children object, a new owner has a fresh one.\<close>

fun shared :: "root_namespace list \<Rightarrow> bool" where
  "shared [] \<longleftrightarrow> True"
| "shared [r] \<longleftrightarrow> True"
| "shared (r # s # rs) \<longleftrightarrow>
     (if rn_owner r = rn_owner s then rn_pChildren r = rn_pChildren s
      else rn_pChildren r \<notin> rn_pChildren ` set (s # rs)) \<and> shared (s # rs)"

lemma shared_run:
  "shared (r # rs) \<Longrightarrow>
   length (filter (\<lambda>s. rn_pChildren s = rn_pChildren r) (r # rs)) =
   length (takeWhile (\<lambda>s. rn_owner r = rn_owner s) (r # rs))"
proof (induction rs arbitrary: r)
  case (Cons s rs)
  show ?case
  proof (cases "rn_owner r = rn_owner s")
    case True
    then show ?thesis using Cons by simp
  next
    case False
    then have "rn_pChildren r \<notin> rn_pChildren ` set (s # rs)" using Cons.prems by simp
    then have "\<forall>u \<in> set (s # rs). rn_pChildren u \<noteq> rn_pChildren r" by (metis imageI)
    then have "filter (\<lambda>u. rn_pChildren u = rn_pChildren r) (s # rs) = []" by (simp add: filter_empty_conv)
    then show ?thesis using False by simp
  qed
qed simp

definition children_keyed :: "namespace_id \<Rightarrow> ns_children \<Rightarrow> bool" where
  "children_keyed rid cs \<longleftrightarrow> distinct (map fst cs) \<and>
     (\<forall>(k, d) \<in> set cs. Path d \<noteq> [] \<and> ns_id (Path d) = k \<and> ns_rootId (Path d) = rid \<and> k \<noteq> rid)"

text \<open>The parent of a child is the root or a child of the same root.\<close>

definition child_paths :: "ns_children \<Rightarrow> ns_path set" where
  "child_paths cs = (\<lambda>(k, d). Path d) ` set cs"

definition children_wf :: "namespace_id \<Rightarrow> ns_children \<Rightarrow> bool" where
  "children_wf rid cs \<longleftrightarrow> children_keyed rid cs \<and> (\<forall>p \<in> child_paths cs. butlast p \<in> insert [rid] (child_paths cs))"

definition hist_inv :: "root_namespace_history \<Rightarrow> bool" where
  "hist_inv h \<longleftrightarrow> m_rootHistory h \<noteq> [] \<and> shared (rev (m_rootHistory h)) \<and>
     (\<forall>r \<in> set (m_rootHistory h). rn_id r = h_id h \<and> rn_pChildren r < length (h_store h) \<and>
        children_wf (h_id h) (children_of h r)) \<and>
     sorted (map (\<lambda>r. GracePeriodEnd (rn_lifetime r)) (m_rootHistory h))"

text \<open>What can be seen of a history.\<close>

definition hist_view :: "root_namespace_history \<Rightarrow> (namespace_id \<times> namespace_alias \<times> key \<times> namespace_lifetime \<times> ns_children) list" where
  "hist_view h = map (\<lambda>r. (rn_id r, rn_alias r, rn_owner r, rn_lifetime r, children_of h r)) (m_rootHistory h)"

lemma activeOwnerHistoryDepth_shared:
  assumes "hist_inv h"
  shows "activeOwnerHistoryDepth h = length (filter (\<lambda>r. rn_pChildren r = rn_pChildren (hist_back h)) (m_rootHistory h))"
proof -
  have ne: "m_rootHistory h \<noteq> []" and sh: "shared (rev (m_rootHistory h))" using assms by (auto simp: hist_inv_def)
  obtain rs where rs: "rev (m_rootHistory h) = hist_back h # rs"
    using ne by (metis hist_back_def hd_rev list.exhaust_sel rev_is_Nil_conv)
  have "length (filter (\<lambda>r. rn_pChildren r = rn_pChildren (hist_back h)) (m_rootHistory h)) =
      length (filter (\<lambda>r. rn_pChildren r = rn_pChildren (hist_back h)) (rev (m_rootHistory h)))"
    by (simp add: rev_filter [symmetric])
  then show ?thesis using shared_run [OF sh [unfolded rs]] ne by (simp add: activeOwnerHistoryDepth_def rs)
qed

text \<open>Replacing the children object of the last root changes the children of the roots that share it.\<close>

lemma back_update_children:
  assumes h: "hist_inv h" and r: "r \<in> set (m_rootHistory h)"
  shows "children_of (h\<lparr>h_store := (h_store h)[rn_pChildren (hist_back h) := cs]\<rparr>) r =
    (if rn_pChildren r = rn_pChildren (hist_back h) then cs else children_of h r)"
  using assms by (auto simp: children_of_def hist_inv_def)

lemma sum_list_filter_replace:
  "sum_list (map (\<lambda>x. if P x then a else f x) xs) + sum_list (map f (filter P xs)) =
   sum_list (map f xs) + length (filter P xs) * (a :: nat)"
  by (induction xs) auto

lemma sum_list_const: "(\<And>x. x \<in> set xs \<Longrightarrow> f x = (a :: nat)) \<Longrightarrow> sum_list (map f xs) = length xs * a"
  by (induction xs) auto

lemma back_in_history: "hist_inv h \<Longrightarrow> hist_back h \<in> set (m_rootHistory h)"
  by (simp add: hist_inv_def hist_back_def)

lemma back_update_count:
  assumes h: "hist_inv h" and h': "h' = h\<lparr>h_store := (h_store h)[rn_pChildren (hist_back h) := cs]\<rparr>"
  shows "numAllHistoricalChildren h' + activeOwnerHistoryDepth h * length (children_of h (hist_back h)) =
    numAllHistoricalChildren h + activeOwnerHistoryDepth h * length cs"
proof -
  let ?P = "\<lambda>r. rn_pChildren r = rn_pChildren (hist_back h)" and ?f = "\<lambda>r. length (children_of h r)"
  have "numAllHistoricalChildren h' = sum_list (map (\<lambda>r. if ?P r then length cs else ?f r) (m_rootHistory h))"
    unfolding numAllHistoricalChildren_def h'
    by (rule arg_cong [where f = sum_list]) (auto simp: back_update_children [OF h] intro!: map_cong)
  moreover have "sum_list (map ?f (filter ?P (m_rootHistory h))) = activeOwnerHistoryDepth h * ?f (hist_back h)"
    unfolding activeOwnerHistoryDepth_shared [OF h] by (rule sum_list_const) (simp add: children_of_def)
  ultimately show ?thesis
    using sum_list_filter_replace [of ?P "length cs" ?f "m_rootHistory h"]
    by (simp add: activeOwnerHistoryDepth_shared [OF h] numAllHistoricalChildren_def)
qed

section \<open>Operations keep the invariant\<close>

lemma hist_inv_backI:
  assumes h: "hist_inv h" and cs: "children_wf (h_id h) cs"
  shows "hist_inv (h\<lparr>h_store := (h_store h)[rn_pChildren (hist_back h) := cs]\<rparr>)"
  using h cs unfolding hist_inv_def [of "h\<lparr>h_store := _\<rparr>"]
  by (auto simp: back_update_children [OF h] hist_inv_def)

lemma root_add_wf:
  assumes wf: "children_wf rid cs" and add: "root_add rid ns cs = Inr cs'" and ns: "ns \<noteq> []" "ns_id ns \<noteq> rid"
    "butlast ns \<in> insert [rid] (child_paths cs)"
  shows "children_wf rid cs'" and "cs' = cs @ [(ns_id ns, \<lparr>Path = ns, Alias = NoAlias\<rparr>)]" and "ns_id ns \<notin> fst ` set cs"
    and "ns_rootId ns = rid"
proof -
  show cs': "cs' = cs @ [(ns_id ns, \<lparr>Path = ns, Alias = NoAlias\<rparr>)]" and new: "ns_id ns \<notin> fst ` set cs"
    and r: "ns_rootId ns = rid"
    using add by (auto simp: root_add_def res_bind_Inr_iff map_of_eq_None_iff split: if_splits option.splits)
  have "children_keyed rid cs'" using wf new r ns unfolding cs' by (auto simp: children_wf_def children_keyed_def)
  moreover have "child_paths cs' = insert ns (child_paths cs)" by (simp add: cs' child_paths_def)
  ultimately show "children_wf rid cs'" using wf ns(3) by (auto simp: children_wf_def)
qed

lemma root_remove_wf:
  assumes wf: "children_wf rid cs" and rem: "root_remove i cs = Inr cs'"
  shows "children_wf rid cs'" and "cs' = filter (\<lambda>p. fst p \<noteq> i) cs" and "i \<in> fst ` set cs"
proof -
  obtain d where d: "map_of cs i = Some d" "\<not> hasDescendents cs (length (Path d)) i"
    and cs': "cs' = filter (\<lambda>p. fst p \<noteq> i) cs"
    using rem by (auto simp: root_remove_def split: option.splits if_splits)
  then have mem: "(i, d) \<in> set cs" by (simp add: map_of_SomeD)
  have key: "children_keyed rid cs" using wf by (simp add: children_wf_def)
  have k: "Path e \<noteq> []" "ns_id (Path e) = k" if "(k, e) \<in> set cs" for k e using key that by (auto simp: children_keyed_def)
  have one: "e = d" if "(i, e) \<in> set cs" for e
    using key that d(1) by (auto simp: children_keyed_def dest: map_of_is_SomeI)
  have keep: "butlast p \<in> insert [rid] (child_paths cs')" if p: "p \<in> child_paths cs'" for p
  proof -
    obtain k e where e: "(k, e) \<in> set cs" "p = Path e" using p by (auto simp: child_paths_def cs')
    have "butlast p \<noteq> Path d"
    proof
      assume b: "butlast p = Path d"
      have ne: "Path d \<noteq> []" using k [OF mem] by simp
      then have "length (Path d) < length (Path e)" using b e(2) by (cases "Path e" rule: rev_cases) auto
      moreover have "Path e ! (length (Path d) - 1) = Path d ! (length (Path d) - 1)"
        using b e(2) ne by (cases "Path e" rule: rev_cases) (auto simp: nth_append)
      ultimately have "hasDescendents cs (length (Path d)) i"
        using e(1) k(2) [OF mem] by (auto simp: hasDescendents_def list_ex_iff ns_id_def intro!: bexI [of _ "(k, e)"])
      then show False using d(2) by simp
    qed
    moreover have "butlast p \<in> insert [rid] (child_paths cs)"
      using wf e by (force simp: children_wf_def child_paths_def)
    ultimately show ?thesis using one by (force simp: child_paths_def cs')
  qed
  show "cs' = filter (\<lambda>p. fst p \<noteq> i) cs" by (rule cs')
  show "i \<in> fst ` set cs" using mem by force
  show "children_wf rid cs'"
    using key keep unfolding children_wf_def by (auto simp: children_keyed_def cs' distinct_map_filter)
qed

lemma child_paths_set_alias [simp]: "child_paths (set_child_alias i a cs) = child_paths cs"
  by (force simp: child_paths_def set_child_alias_def)

lemma set_child_alias_wf: "children_wf rid cs \<Longrightarrow> children_wf rid (set_child_alias i a cs)"
  unfolding children_wf_def child_paths_set_alias
  by (auto simp: children_keyed_def set_child_alias_def comp_def case_prod_beta)

lemma children_wf_keyed: "children_wf rid cs \<Longrightarrow> children_keyed rid cs"
  by (simp add: children_wf_def)

lemma children_wf_Nil [simp]: "children_wf rid []"
  by (simp add: children_wf_def children_keyed_def child_paths_def)

lemma shared_renew:
  assumes "shared rs" and "rs \<noteq> []" and "rn_owner r = rn_owner (hd rs)" and "rn_pChildren r = rn_pChildren (hd rs)"
  shows "shared (r # rs)"
  using assms by (cases rs) auto

lemma shared_fresh:
  assumes "shared rs" and "\<And>s. s \<in> set rs \<Longrightarrow> rn_pChildren s < n" and "rn_pChildren r = n"
    and "rs \<noteq> [] \<Longrightarrow> rn_owner r \<noteq> rn_owner (hd rs)"
  shows "shared (r # rs)"
  using assms by (cases rs) force+

lemma shared_tl: "shared (r # rs) \<Longrightarrow> shared rs"
  by (cases rs) auto

lemma shared_cong:
  "map rn_owner rs = map rn_owner rs' \<Longrightarrow> map rn_pChildren rs = map rn_pChildren rs' \<Longrightarrow> shared rs = shared rs'"
proof (induction rs arbitrary: rs' rule: shared.induct)
  case (3 r s rs)
  then obtain r' s' us where rs': "rs' = r' # s' # us" by (auto simp: map_eq_Cons_conv Cons_eq_map_conv)
  have "set (map rn_pChildren rs) = set (map rn_pChildren us)" using 3 rs' by simp
  then have "rn_pChildren ` set rs = rn_pChildren ` set us" by (simp only: set_map)
  moreover have "shared (s # rs) = shared (s' # us)" by (rule "3.IH") (use "3.prems" rs' in simp_all)
  ultimately show ?case using "3.prems" rs' by simp
qed (auto simp: map_eq_Cons_conv)

lemma children_of_push:
  assumes "hist_inv h" and "r \<in> set (m_rootHistory h)"
  shows "children_of (hist_push_back owner lifetime b h) r = children_of h r"
  using assms by (auto simp: hist_push_back_def children_of_def hist_inv_def nth_append)

lemma push_back_view:
  assumes h: "hist_inv h"
  shows "m_rootHistory (hist_push_back owner lifetime b h) = m_rootHistory h @ [hist_back (hist_push_back owner lifetime b h)]"
    and "rn_owner (hist_back (hist_push_back owner lifetime b h)) = owner"
    and "rn_lifetime (hist_back (hist_push_back owner lifetime b h)) = lifetime"
    and "rn_id (hist_back (hist_push_back owner lifetime b h)) = h_id h"
    and "children_of (hist_push_back owner lifetime b h) (hist_back (hist_push_back owner lifetime b h)) =
      (if rn_owner (hist_back h) = owner then children_of h (hist_back h) else [])"
    and "h_id (hist_push_back owner lifetime b h) = h_id h"
  using h back_in_history [OF h]
  by (auto simp: hist_push_back_def hist_back_def hist_empty_def renew_def RootNamespace_def Let_def children_of_def hist_inv_def)

lemma sorted_le_last: "sorted xs \<Longrightarrow> x \<in> set xs \<Longrightarrow> x \<le> last xs"
  by (induction xs) (auto split: if_splits)

lemma hist_inv_push:
  assumes h: "hist_inv h" and later: "GracePeriodEnd (rn_lifetime (hist_back h)) \<le> GracePeriodEnd lifetime"
  shows "hist_inv (hist_push_back owner lifetime b h)"
proof -
  let ?h = "hist_push_back owner lifetime b h" and ?r = "hist_back (hist_push_back owner lifetime b h)"
  note v = push_back_view [OF h, of owner lifetime b]
  have ne: "m_rootHistory h \<noteq> []" and sh: "shared (rev (m_rootHistory h))"
    and all: "\<And>r. r \<in> set (m_rootHistory h) \<Longrightarrow> rn_id r = h_id h \<and> rn_pChildren r < length (h_store h) \<and> children_wf (h_id h) (children_of h r)"
    and sorted: "sorted (map (\<lambda>r. GracePeriodEnd (rn_lifetime r)) (m_rootHistory h))"
    using h by (auto simp: hist_inv_def)
  have hd: "hd (rev (m_rootHistory h)) = hist_back h" by (simp add: hist_back_def hd_rev ne)
  have len: "length (h_store h) \<le> length (h_store ?h)" by (simp add: hist_push_back_def)
  have "shared (?r # rev (m_rootHistory h))"
  proof (cases "rn_owner (hist_back h) = owner")
    case True
    then have "?r = renew (hist_back h) lifetime b" using ne by (simp add: hist_push_back_def hist_empty_def hist_back_def)
    then have "rn_pChildren ?r = rn_pChildren (hist_back h)" by (simp add: renew_def RootNamespace_def Let_def)
    then show ?thesis using v(2) True ne by (intro shared_renew [OF sh]) (simp_all add: hd)
  next
    case False
    then have "rn_pChildren ?r = length (h_store h)"
      using ne by (simp add: hist_push_back_def hist_empty_def hist_back_def RootNamespace_def)
    then show ?thesis using v(2) False all by (intro shared_fresh [OF sh, of "length (h_store h)"]) (auto simp: hd)
  qed
  moreover have "rn_pChildren ?r < length (h_store ?h)"
    using all [OF back_in_history [OF h]] ne
    by (simp add: hist_push_back_def hist_empty_def hist_back_def RootNamespace_def renew_def Let_def)
  moreover have "children_wf (h_id h) (children_of ?h ?r)" using all back_in_history [OF h] v(5) by simp
  moreover have "sorted (map (\<lambda>r. GracePeriodEnd (rn_lifetime r)) (m_rootHistory h @ [?r]))"
  proof -
    have "GracePeriodEnd (rn_lifetime r) \<le> GracePeriodEnd (rn_lifetime (hist_back h))" if "r \<in> set (m_rootHistory h)" for r
      using sorted_le_last [OF sorted] that ne by (simp add: hist_back_def last_map)
    then show ?thesis using sorted later v(3) by (fastforce simp: sorted_append)
  qed
  ultimately show ?thesis
    unfolding hist_inv_def v(1) v(6) using all len children_of_push [OF h, of _ owner lifetime b] v(4) by fastforce
qed

lemma hist_inv_pop:
  assumes h: "hist_inv h" and ne: "butlast (m_rootHistory h) \<noteq> []"
  shows "hist_inv (hist_pop_back h)"
proof -
  have split: "m_rootHistory h = butlast (m_rootHistory h) @ [hist_back h]"
    using h by (simp add: hist_inv_def hist_back_def)
  have "shared (rev (butlast (m_rootHistory h)))"
    using h shared_tl [of "hist_back h" "rev (butlast (m_rootHistory h))"] split
    by (metis hist_inv_def rev.simps(2) rev_append rev_singleton_conv append_Cons append_Nil)
  moreover have "sorted (map (\<lambda>r. GracePeriodEnd (rn_lifetime r)) (butlast (m_rootHistory h)))"
    using h split by (metis hist_inv_def map_append sorted_append)
  ultimately show ?thesis
    using h ne in_set_butlastD [of _ "m_rootHistory h"] by (auto simp: hist_inv_def hist_pop_back_def children_of_def)
qed

lemma back_alias_cases:
  assumes h: "hist_inv h" and a: "back_setAlias i a h = Inr h'"
  obtains (root) "h' = h\<lparr>m_rootHistory := butlast (m_rootHistory h) @ [(hist_back h)\<lparr>rn_alias := a\<rparr>]\<rparr>" "h_id h = i"
    | (child) "h' = h\<lparr>h_store := (h_store h)[rn_pChildren (hist_back h) := set_child_alias i a (children_of h (hist_back h))]\<rparr>" "h_id h \<noteq> i"
proof (cases "h_id h = i")
  case True
  have id: "rn_id (hist_back h) = h_id h" using h back_in_history [OF h] by (auto simp: hist_inv_def)
  have "(h_store h)[rn_pChildren (hist_back h) := children_of h (hist_back h)] = h_store h" by (simp add: children_of_def)
  then show thesis using a True id by (intro root) (auto simp: back_setAlias_def root_setAlias_def)
next
  case False
  have id: "rn_id (hist_back h) = h_id h" using h back_in_history [OF h] by (auto simp: hist_inv_def)
  have "butlast (m_rootHistory h) @ [hist_back h] = m_rootHistory h" using h by (simp add: hist_inv_def hist_back_def)
  then show thesis using a False id
    by (intro child) (auto simp: back_setAlias_def root_setAlias_def split: if_splits)
qed

lemma map_fst_set_child_alias [simp]: "map fst (set_child_alias i a cs) = map fst cs"
  by (induction cs) (auto simp: set_child_alias_def)

lemma map_path_set_child_alias [simp]:
  "map (\<lambda>(k, d). Path d) (set_child_alias i a cs) = map (\<lambda>(k, d). Path d) cs"
  by (induction cs) (auto simp: set_child_alias_def)

lemma back_setAlias_inv:
  assumes h: "hist_inv h" and a: "back_setAlias i a h = Inr h'"
  shows "hist_inv h'" and "h_id h' = h_id h" and "map fst (children_of h' (hist_back h')) = map fst (children_of h (hist_back h))"
    and "map (\<lambda>(k, d). Path d) (children_of h' (hist_back h')) = map (\<lambda>(k, d). Path d) (children_of h (hist_back h))"
    and "historyDepth h' = historyDepth h" and "numAllHistoricalChildren h' = numAllHistoricalChildren h"
proof -
  have "hist_inv h' \<and> h_id h' = h_id h \<and>
      map fst (children_of h' (hist_back h')) = map fst (children_of h (hist_back h)) \<and>
      map (\<lambda>(k, d). Path d) (children_of h' (hist_back h')) = map (\<lambda>(k, d). Path d) (children_of h (hist_back h)) \<and>
      historyDepth h' = historyDepth h \<and> numAllHistoricalChildren h' = numAllHistoricalChildren h"
    using h a
  proof (cases rule: back_alias_cases)
    case root
    let ?r = "(hist_back h)\<lparr>rn_alias := a\<rparr>"
    obtain b where roots: "m_rootHistory h = b @ [hist_back h]"
      using h that [of "butlast (m_rootHistory h)"] by (simp add: hist_inv_def hist_back_def)
    have ch: "children_of h' r = children_of h r" "children_of h ?r = children_of h (hist_back h)" for r
      by (simp_all add: root children_of_def)
    have bk: "hist_back h' = ?r" by (simp add: root hist_back_def)
    have "shared (?r # rev b) = shared (hist_back h # rev b)" by (rule shared_cong) simp_all
    then have "shared (rev (m_rootHistory h'))" using h by (simp add: root roots hist_inv_def)
    moreover have "map (\<lambda>r. GracePeriodEnd (rn_lifetime r)) (m_rootHistory h') = map (\<lambda>r. GracePeriodEnd (rn_lifetime r)) (m_rootHistory h)"
      by (simp add: root roots)
    moreover have "rn_id r = h_id h \<and> rn_pChildren r < length (h_store h) \<and> children_wf (h_id h) (children_of h r)"
      if "r \<in> set (m_rootHistory h')" for r
    proof (cases "r = ?r")
      case True
      then show ?thesis using h back_in_history [OF h] by (auto simp: hist_inv_def children_of_def)
    next
      case False
      then show ?thesis using that h by (auto simp: root hist_inv_def dest: in_set_butlastD)
    qed
    ultimately have "hist_inv h'" using h by (simp add: hist_inv_def ch(1)) (simp add: root)
    moreover have "numAllHistoricalChildren h' = numAllHistoricalChildren h"
      by (simp add: numAllHistoricalChildren_def root roots children_of_def)
    moreover have "historyDepth h' = historyDepth h" by (simp add: historyDepth_def root roots)
    moreover have "h_id h' = h_id h" by (simp add: root)
    ultimately show ?thesis by (simp add: bk ch)
  next
    case child
    have bk: "hist_back h' = hist_back h" by (simp add: child hist_back_def)
    have inv: "hist_inv h'"
      unfolding child using h back_in_history [OF h] by (intro hist_inv_backI set_child_alias_wf) (auto simp: hist_inv_def)
    have "children_of h' (hist_back h') = set_child_alias i a (children_of h (hist_back h))"
      unfolding bk unfolding child by (simp add: back_update_children [OF h back_in_history [OF h]])
    moreover have "numAllHistoricalChildren h' = numAllHistoricalChildren h"
      using back_update_count [OF h child(1)] by (simp add: set_child_alias_def)
    ultimately show ?thesis using inv by (simp add: child historyDepth_def)
  qed
  then show "hist_inv h'" and "h_id h' = h_id h" and "map fst (children_of h' (hist_back h')) = map fst (children_of h (hist_back h))"
    and "map (\<lambda>(k, d). Path d) (children_of h' (hist_back h')) = map (\<lambda>(k, d). Path d) (children_of h (hist_back h))"
    and "historyDepth h' = historyDepth h" and "numAllHistoricalChildren h' = numAllHistoricalChildren h" by blast+
qed

lemma prune_roots_sorted:
  assumes "sorted (map (\<lambda>r. GracePeriodEnd (rn_lifetime r)) rs)"
  shows "prune_roots h height rs ids =
    (dropWhile (\<lambda>r. GracePeriodEnd (rn_lifetime r) \<le> height) rs,
     (ids \<union> (\<Union>r \<in> set (takeWhile (\<lambda>r. GracePeriodEnd (rn_lifetime r) \<le> height) rs). fst ` set (children_of h r))) -
       (\<Union>r \<in> set (dropWhile (\<lambda>r. GracePeriodEnd (rn_lifetime r) \<le> height) rs). fst ` set (children_of h r)))"
  using assms
proof (induction rs arbitrary: ids)
  case (Cons r rs)
  show ?case
  proof (cases "GracePeriodEnd (rn_lifetime r) \<le> height")
    case True
    then show ?thesis using Cons by (auto simp: Un_assoc)
  next
    case False
    then have "\<forall>s \<in> set rs. \<not> GracePeriodEnd (rn_lifetime s) \<le> height" using Cons.prems by force
    then have "dropWhile (\<lambda>r. GracePeriodEnd (rn_lifetime r) \<le> height) rs = rs" "takeWhile (\<lambda>r. GracePeriodEnd (rn_lifetime r) \<le> height) rs = []"
      by (cases rs; simp)+
    then show ?thesis using False Cons by auto
  qed
qed simp

section \<open>Copying a history\<close>

definition root_view :: "ns_children list \<Rightarrow> root_namespace \<Rightarrow>
    namespace_id \<times> namespace_alias \<times> key \<times> namespace_lifetime \<times> ns_children" where
  "root_view store r = (rn_id r, rn_alias r, rn_owner r, rn_lifetime r, store ! rn_pChildren r)"

lemma hist_view_eq: "hist_view h = map (root_view (h_store h)) (m_rootHistory h)"
  by (simp add: hist_view_def root_view_def children_of_def)

abbreviation same_owner_shares :: "root_namespace \<Rightarrow> root_namespace \<Rightarrow> bool" where
  "same_owner_shares r s \<equiv> rn_owner r = rn_owner s \<longrightarrow> rn_pChildren r = rn_pChildren s"

lemma shared_successively: "shared rs \<Longrightarrow> successively same_owner_shares rs"
  by (induction rs rule: shared.induct) auto

lemma root_view_append: "rn_pChildren r < length store \<Longrightarrow> root_view (store @ ext) r = root_view store r"
  by (simp add: root_view_def nth_append)

definition copied :: "root_namespace_history \<Rightarrow> root_namespace list \<Rightarrow> ns_children list \<times> root_namespace list \<Rightarrow>
    ns_children list \<times> root_namespace list \<Rightarrow> bool" where
  "copied h rs acc res \<longleftrightarrow> (case acc of (store, roots) \<Rightarrow> case res of (store', roots') \<Rightarrow>
     (\<exists>ext new. store' = store @ ext \<and> roots' = roots @ new \<and> map (root_view store') new = map (root_view (h_store h)) rs) \<and>
     shared (rev roots') \<and> (\<forall>r \<in> set roots'. rn_pChildren r < length store'))"

lemma copy_roots_copied:
  assumes "successively same_owner_shares rs"
    and "rs \<noteq> [] \<Longrightarrow> owner = rn_owner (hd rs) \<Longrightarrow> roots \<noteq> [] \<and> store ! p = children_of h (hd rs)"
    and "roots \<noteq> [] \<Longrightarrow> rn_owner (last roots) = owner \<and> rn_pChildren (last roots) = p"
    and "\<forall>r \<in> set roots. rn_pChildren r < length store" and "shared (rev roots)"
  shows "copied h rs (store, roots) (copy_roots h owner p rs (store, roots))"
  using assms
proof (induction rs arbitrary: owner p store roots)
  case Nil
  then show ?case by (simp add: copied_def)
next
  case (Cons r rs)
  define fresh where "fresh \<longleftrightarrow> owner \<noteq> rn_owner r"
  define p' where "p' = (if fresh then length store else p)"
  define store' where "store' = (if fresh then store @ [children_of h r] else store)"
  define r' where "r' = (RootNamespace (rn_id r) (rn_owner r) (rn_lifetime r) p')\<lparr>rn_alias := rn_alias r\<rparr>"
  have step: "copy_roots h owner p (r # rs) (store, roots) = copy_roots h (rn_owner r) p' rs (store', roots @ [r'])"
    by (simp add: fresh_def p'_def store'_def r'_def)
  have r': "rn_owner r' = rn_owner r" "rn_pChildren r' = p'" by (simp_all add: r'_def RootNamespace_def)
  have at: "store' ! p' = children_of h r" "p' < length store'"
  proof -
    have "roots \<noteq> [] \<and> store ! p = children_of h r" if "\<not> fresh" using Cons.prems(2) that by (simp add: fresh_def)
    moreover have "p < length store" if "roots \<noteq> []" using Cons.prems(3,4) that last_in_set by metis
    ultimately show "store' ! p' = children_of h r" "p' < length store'" by (auto simp: p'_def store'_def)
  qed
  have sh: "shared (rev (roots @ [r']))"
  proof (cases fresh)
    case True
    then show ?thesis using Cons.prems(3,4,5) r'
      by (simp, intro shared_fresh [where n = "length store"]) (auto simp: p'_def fresh_def hd_rev)
  next
    case False
    then show ?thesis using Cons.prems(2,3,5) r'
      by (simp, intro shared_renew) (auto simp: p'_def fresh_def hd_rev)
  qed
  have view: "root_view store' r' = root_view (h_store h) r"
    by (simp add: root_view_def r'_def RootNamespace_def at(1) children_of_def)
  have succ: "successively same_owner_shares rs" using Cons.prems(1) by (cases rs) auto
  have "copied h rs (store', roots @ [r']) (copy_roots h (rn_owner r) p' rs (store', roots @ [r']))"
  proof (rule Cons.IH [OF succ])
    show "roots @ [r'] \<noteq> [] \<and> store' ! p' = children_of h (hd rs)" if "rs \<noteq> []" "rn_owner r = rn_owner (hd rs)"
      using that Cons.prems(1) at(1) by (cases rs) (auto simp: children_of_def)
    show "\<forall>s \<in> set (roots @ [r']). rn_pChildren s < length store'"
      using Cons.prems(4) at(2) r' by (auto simp: store'_def less_Suc_eq)
  qed (use r' sh in simp_all)
  then obtain store'' roots'' ext new where res: "copy_roots h (rn_owner r) p' rs (store', roots @ [r']) = (store'', roots'')"
    "store'' = store' @ ext" "roots'' = (roots @ [r']) @ new" "map (root_view store'') new = map (root_view (h_store h)) rs"
    "shared (rev roots'')" "\<forall>s \<in> set roots''. rn_pChildren s < length store''"
    by (auto simp: copied_def split: prod.splits)
  have "root_view store'' r' = root_view (h_store h) r" using view at(2) r' by (simp add: res(2) root_view_append)
  then have "map (root_view store'') (r' # new) = map (root_view (h_store h)) (r # rs)" using res(4) by simp
  moreover have "\<exists>ext'. store'' = store @ ext'" using res(2) by (auto simp: store'_def)
  ultimately show ?case unfolding step using res(1,3,5,6) by (fastforce simp: copied_def)
qed

lemma hist_copy_spec:
  assumes h: "hist_inv h" and owners: "\<And>r. r \<in> set (m_rootHistory h) \<Longrightarrow> rn_owner r \<noteq> Key_zero"
  shows "hist_view (hist_copy h) = hist_view h" and "hist_inv (hist_copy h)"
proof -
  have ne: "m_rootHistory h \<noteq> []" using h by (simp add: hist_inv_def)
  have "successively same_owner_shares (m_rootHistory h)"
    using shared_successively [of "rev (m_rootHistory h)"] h
    by (simp add: hist_inv_def successively_rev) (erule successively_mono, simp)
  then have "copied h (m_rootHistory h) ([], []) (copy_roots h Key_zero 0 (m_rootHistory h) ([], []))"
    using owners [OF hd_in_set [OF ne]] by (intro copy_roots_copied) auto
  then obtain store roots where res: "copy_roots h Key_zero 0 (m_rootHistory h) ([], []) = (store, roots)"
    "map (root_view store) roots = map (root_view (h_store h)) (m_rootHistory h)" "shared (rev roots)"
    "\<forall>r \<in> set roots. rn_pChildren r < length store"
    by (auto simp: copied_def split: prod.splits)
  have copy: "hist_copy h = \<lparr>h_id = h_id h, h_store = store, m_rootHistory = roots\<rparr>" by (simp add: hist_copy_def res(1))
  show "hist_view (hist_copy h) = hist_view h" using res(2) by (simp add: hist_view_eq copy)
  have "roots \<noteq> []" using res(2) ne by auto
  moreover have "rn_id r = h_id h \<and> children_wf (h_id h) (store ! rn_pChildren r)" if "r \<in> set roots" for r
  proof -
    have "root_view store r \<in> set (map (root_view (h_store h)) (m_rootHistory h))" using that res(2) by (metis image_eqI set_map)
    then show ?thesis using h by (auto simp: root_view_def hist_inv_def children_of_def)
  qed
  moreover have "map (\<lambda>r. GracePeriodEnd (rn_lifetime r)) roots = map (\<lambda>r. GracePeriodEnd (rn_lifetime r)) (m_rootHistory h)"
    using arg_cong [OF res(2), of "map (\<lambda>(i, a, w, l, c). GracePeriodEnd l)"] by (simp add: root_view_def comp_def)
  ultimately show "hist_inv (hist_copy h)"
    using h res(3,4) by (simp add: hist_inv_def copy children_of_def)
qed

lemma hist_assign_keeps_old_roots:
  "length (m_rootHistory (hist_assign target h)) = length (m_rootHistory target) + length (m_rootHistory h)"
proof -
  have "length (snd (copy_roots h owner p rs (store, roots))) = length roots + length rs" for owner p rs store roots
    by (induction rs arbitrary: owner p store roots) (auto simp: Let_def split: prod.splits)
  from this [of Key_zero 0 "m_rootHistory h" "h_store target" "m_rootHistory target"] show ?thesis
    by (auto simp: hist_assign_def split: prod.splits)
qed

lemma short_key: "[x] \<noteq> Key_zero"
  by (rule notI, drule arg_cong [where f = length]) (simp add: Key_zero_def)

section \<open>Properties\<close>



end
