(* ===== verification/Namespace_Cache.thy ===== *)
theory Namespace_Cache
  imports Root_Namespace
begin

text \<open>
  The namespace cache (\<^verbatim>\<open>cache/NamespaceCacheDelta.cpp\<close>, \<^verbatim>\<open>cache/NamespaceCacheMixins.h\<close>). The cache keeps,
  beside the histories, a flat map from every active namespace to its path, the expiry groups and two
  counters; the theory shows that every operation keeps them in step with the histories.
\<close>

section \<open>The cache\<close>

record namespace_cache =
  m_historyById :: "namespace_id \<rightharpoonup> root_namespace_history"
  m_namespaceById :: "namespace_id \<rightharpoonup> ns_path"
  m_rootNamespaceIdsByExpiryHeight :: "(height, namespace_id) grouped_set"
  activeSize :: u64
  deepSize :: u64

definition empty_namespace_cache :: namespace_cache where
  "empty_namespace_cache = \<lparr>m_historyById = Map.empty, m_namespaceById = Map.empty,
     m_rootNamespaceIdsByExpiryHeight = Map.empty, activeSize = 0, deepSize = 0\<rparr>"

text \<open>The configuration at the height of the cache.\<close>

record namespace_config =
  gracePeriodDuration :: u64
  maxNamespaceDuration :: u64
  blockchainVersion :: u64
  networkPublicKey :: key
  maxNameSize :: u8
  reservedRootNamespaceNames :: "u8 list list"
  maxChildNamespaces :: u16

definition AliasFixVersion_cache :: u64 where "AliasFixVersion_cache = 0x0001000200000000"
definition AliasFixVersion_observer :: u64 where "AliasFixVersion_observer = 0x0001000000000000"

definition incrementActiveSize :: "nat \<Rightarrow> namespace_cache \<Rightarrow> namespace_cache" where
  "incrementActiveSize delta c = c\<lparr>activeSize := activeSize c + of_nat delta\<rparr>"
definition decrementActiveSize :: "nat \<Rightarrow> namespace_cache \<Rightarrow> namespace_cache" where
  "decrementActiveSize delta c = c\<lparr>activeSize := activeSize c - of_nat delta\<rparr>"
definition incrementDeepSize :: "nat \<Rightarrow> namespace_cache \<Rightarrow> namespace_cache" where
  "incrementDeepSize delta c = c\<lparr>deepSize := deepSize c + of_nat delta\<rparr>"
definition decrementDeepSize :: "nat \<Rightarrow> namespace_cache \<Rightarrow> namespace_cache" where
  "decrementDeepSize delta c = c\<lparr>deepSize := deepSize c - of_nat delta\<rparr>"

definition AddAll :: "ns_children \<Rightarrow> (namespace_id \<rightharpoonup> ns_path) \<Rightarrow> (namespace_id \<rightharpoonup> ns_path)" where
  "AddAll cs m = fold (\<lambda>(k, d) m. m(ns_id (Path d) \<mapsto> Path d)) cs m"

definition RemoveAll :: "ns_children \<Rightarrow> (namespace_id \<rightharpoonup> ns_path) \<Rightarrow> (namespace_id \<rightharpoonup> ns_path)" where
  "RemoveAll cs m = fold (\<lambda>(k, d) m. m(k := None)) cs m"

definition put_history :: "root_namespace_history \<Rightarrow> namespace_cache \<Rightarrow> namespace_cache" where
  "put_history h c = c\<lparr>m_historyById := (m_historyById c)(h_id h \<mapsto> h)\<rparr>"

definition cache_insert_root ::
  "namespace_config \<Rightarrow> namespace_id \<Rightarrow> key \<Rightarrow> namespace_lifetime \<Rightarrow> namespace_cache \<Rightarrow> namespace_cache result" where
  "cache_insert_root cfg nid owner lifetime c =
     res_bind (NamespaceLifetime (Start lifetime) (End lifetime) (gracePeriodDuration cfg)) (\<lambda>nsLifetimeWithGracePeriod.
     let c = c\<lparr>m_rootNamespaceIdsByExpiryHeight :=
           AddIdentifierWithGroup (m_rootNamespaceIdsByExpiryHeight c) (GracePeriodEnd nsLifetimeWithGracePeriod) nid\<rparr>;
         setAliasOnRenew = (AliasFixVersion_cache \<le> blockchainVersion cfg)
     in case m_historyById c nid of
          Some pHistory \<Rightarrow>
           (let activeChildren = children_of pHistory (hist_back pHistory);
                c = (if rn_owner (hist_back pHistory) \<noteq> owner
                     then decrementActiveSize (length activeChildren)
                       (c\<lparr>m_namespaceById := RemoveAll activeChildren (m_namespaceById c)\<rparr>)
                     else incrementDeepSize (length activeChildren) c)
            in Inr (incrementDeepSize 1
                 (put_history (hist_push_back owner nsLifetimeWithGracePeriod setAliasOnRenew pHistory) c)))
        | None \<Rightarrow>
            let h = hist_push_back owner nsLifetimeWithGracePeriod setAliasOnRenew (RootNamespaceHistory nid);
                c = incrementDeepSize 1 (incrementActiveSize 1 (put_history h c))
            in res_bind (res_bind (path_push [] nid) make_namespace) (\<lambda>ns.
               Inr (c\<lparr>m_namespaceById := (m_namespaceById c)(ns_id ns \<mapsto> ns)\<rparr>)))"

definition cache_insert_child :: "ns_path \<Rightarrow> namespace_cache \<Rightarrow> namespace_cache result" where
  "cache_insert_child ns c =
     (case m_historyById c (ns_rootId ns) of
        None \<Rightarrow> Inl (InvalidArgument ''no root namespace exists for namespace'')
      | Some pHistory \<Rightarrow>
          res_bind (back_add ns pHistory) (\<lambda>h.
          let c = incrementDeepSize (activeOwnerHistoryDepth h) (incrementActiveSize 1 (put_history h c))
          in Inr (c\<lparr>m_namespaceById := (m_namespaceById c)(ns_id ns \<mapsto> ns)\<rparr>)))"

definition cache_setAlias :: "namespace_id \<Rightarrow> namespace_alias \<Rightarrow> namespace_cache \<Rightarrow> namespace_cache result" where
  "cache_setAlias i a c =
     (case m_namespaceById c i of
        None \<Rightarrow> Inl (InvalidArgument ''no namespace exists'')
      | Some pNamespace \<Rightarrow>
         (case m_historyById c (ns_rootId pNamespace) of
            None \<Rightarrow> Inl (RuntimeError ''null history'')
          | Some pHistory \<Rightarrow> res_bind (back_setAlias i a pHistory) (\<lambda>h. Inr (put_history h c))))"

definition removeRoot :: "namespace_id \<Rightarrow> namespace_cache \<Rightarrow> namespace_cache result" where
  "removeRoot i c =
     (case m_historyById c i of
        None \<Rightarrow> Inl (RuntimeError ''null history'')
      | Some pHistory \<Rightarrow>
          if 1 = historyDepth pHistory \<and> children_of pHistory (hist_back pHistory) \<noteq> []
          then Inl (RuntimeError ''cannot remove non-empty root namespace'')
          else
            let removedRoot = hist_back pHistory;
                removedChildren = children_of pHistory removedRoot;
                h = hist_pop_back pHistory;
                c = (put_history h c)\<lparr>m_rootNamespaceIdsByExpiryHeight :=
                  RemoveIdentifierWithGroup (m_rootNamespaceIdsByExpiryHeight c) (GracePeriodEnd (rn_lifetime removedRoot)) i\<rparr>
            in if hist_empty h
               then Inr (decrementDeepSize 1 (decrementActiveSize 1
                 (c\<lparr>m_historyById := (m_historyById c)(i := None), m_namespaceById := (m_namespaceById c)(i := None)\<rparr>)))
               else
                 let currentRoot = hist_back h;
                     currentChildren = children_of h currentRoot;
                     c = (if rn_owner removedRoot \<noteq> rn_owner currentRoot
                          then incrementActiveSize (length currentChildren)
                            (decrementActiveSize (length removedChildren)
                              (c\<lparr>m_namespaceById := AddAll currentChildren (RemoveAll removedChildren (m_namespaceById c))\<rparr>))
                          else c)
                 in Inr (decrementDeepSize (1 + length removedChildren) c))"

definition removeChild :: "ns_path \<Rightarrow> namespace_cache \<Rightarrow> namespace_cache result" where
  "removeChild ns c =
     (case m_historyById c (ns_rootId ns) of
        None \<Rightarrow> Inl (RuntimeError ''null history'')
      | Some pHistory \<Rightarrow>
          res_bind (back_remove (ns_id ns) pHistory) (\<lambda>h.
          let c = (put_history h c)\<lparr>m_namespaceById := (m_namespaceById c)(ns_id ns := None)\<rparr>
          in Inr (decrementDeepSize (activeOwnerHistoryDepth h) (decrementActiveSize 1 c))))"

definition cache_remove :: "namespace_id \<Rightarrow> namespace_cache \<Rightarrow> namespace_cache result" where
  "cache_remove i c =
     (case m_namespaceById c i of
        None \<Rightarrow> Inl (InvalidArgument ''no namespace exists'')
      | Some pNamespace \<Rightarrow> if ns_rootId pNamespace = i then removeRoot i c else removeChild pNamespace c)"

definition GetNamespaceSizes :: "root_namespace_history \<Rightarrow> nat \<times> nat" where
  "GetNamespaceSizes h =
     ((if hist_empty h then 0 else 1) + numActiveRootChildren h, historyDepth h + numAllHistoricalChildren h)"

definition prune_history ::
  "height \<Rightarrow> root_namespace_history \<Rightarrow> namespace_cache \<times> namespace_id set \<Rightarrow> namespace_cache \<times> namespace_id set" where
  "prune_history height pHistory s =
     (case s of (c, collectedIds) \<Rightarrow>
        let originalSizes = GetNamespaceSizes pHistory
        in case hist_prune height pHistory of (h, removedIds) \<Rightarrow>
             let newSizes = GetNamespaceSizes h;
                 c = (put_history h c)\<lparr>m_namespaceById := (\<lambda>i. if i \<in> removedIds then None else m_namespaceById c i)\<rparr>;
                 c = (if hist_empty h then c\<lparr>m_historyById := (m_historyById c)(h_id h := None)\<rparr> else c)
             in (c\<lparr>activeSize := activeSize c - (of_nat (fst originalSizes) - of_nat (fst newSizes)),
                   deepSize := deepSize c - (of_nat (snd originalSizes) - of_nat (snd newSizes))\<rparr>,
                 collectedIds \<union> removedIds))"

definition cache_prune :: "height \<Rightarrow> namespace_cache \<Rightarrow> namespace_cache \<times> namespace_id set" where
  "cache_prune height c =
     ForEachIdentifierWithGroup (\<lambda>s. m_historyById (fst s)) (m_rootNamespaceIdsByExpiryHeight c) height
       (prune_history height) (c, {})"

section \<open>Lookups\<close>

definition cache_contains :: "namespace_id \<Rightarrow> namespace_cache \<Rightarrow> bool" where
  "cache_contains i c \<longleftrightarrow> m_namespaceById c i \<noteq> None"

text \<open>The entry of a namespace: its path and the root, with its history, that holds it.\<close>

definition cache_find :: "namespace_id \<Rightarrow> namespace_cache \<Rightarrow> (ns_path \<times> root_namespace_history) result" where
  "cache_find i c =
     (case m_namespaceById c i of
        None \<Rightarrow> Inl (InvalidArgument ''unknown namespace'')
      | Some ns \<Rightarrow>
         (case m_historyById c (ns_rootId ns) of
            None \<Rightarrow> Inl (RuntimeError ''null history'')
          | Some h \<Rightarrow> if ns_rootId ns \<noteq> rn_id (hist_back h)
              then Inl (InvalidArgument ''ns and root parameters are incompatible'') else Inr (ns, h)))"

definition cache_isActive :: "namespace_id \<Rightarrow> height \<Rightarrow> namespace_cache \<Rightarrow> bool result" where
  "cache_isActive i height c =
     (case m_namespaceById c i of
        None \<Rightarrow> Inr False
      | Some ns \<Rightarrow>
         (case m_historyById c (ns_rootId ns) of
            None \<Rightarrow> Inl (RuntimeError ''no history for root namespace found'')
          | Some h \<Rightarrow> Inr (hist_isActiveAndUnlocked h height)))"

section \<open>The cache is in step with its histories\<close>

text \<open>
  Namespace ids are hashes of the parent's id and the name, so an id belongs to one root;
  \<open>root_of\<close> names that root.
\<close>

definition owned_ids :: "(namespace_id \<Rightarrow> namespace_id) \<Rightarrow> root_namespace_history \<Rightarrow> bool" where
  "owned_ids root_of h \<longleftrightarrow> root_of (h_id h) = h_id h \<and>
     (\<forall>r \<in> set (m_rootHistory h). \<forall>k \<in> fst ` set (children_of h r). root_of k = h_id h)"

definition active_children :: "root_namespace_history \<Rightarrow> ns_children" where
  "active_children h = children_of h (hist_back h)"

definition flat_of :: "(namespace_id \<Rightarrow> namespace_id) \<Rightarrow> (namespace_id \<rightharpoonup> root_namespace_history) \<Rightarrow> (namespace_id \<rightharpoonup> ns_path)" where
  "flat_of root_of H i =
     (case H (root_of i) of
        None \<Rightarrow> None
      | Some h \<Rightarrow> if i = root_of i then Some [i] else map_option Path (map_of (active_children h) i))"

definition active_count :: "root_namespace_history \<Rightarrow> u64" where
  "active_count h = 1 + of_nat (length (active_children h))"

definition deep_count :: "root_namespace_history \<Rightarrow> u64" where
  "deep_count h = of_nat (historyDepth h + numAllHistoricalChildren h)"

definition hsum :: "(root_namespace_history \<Rightarrow> u64) \<Rightarrow> (namespace_id \<rightharpoonup> root_namespace_history) \<Rightarrow> u64" where
  "hsum f H = (\<Sum>i \<in> dom H. f (the (H i)))"

definition cache_inv :: "(namespace_id \<Rightarrow> namespace_id) \<Rightarrow> namespace_cache \<Rightarrow> bool" where
  "cache_inv root_of c \<longleftrightarrow> finite (dom (m_historyById c)) \<and>
     (\<forall>i h. m_historyById c i = Some h \<longrightarrow> h_id h = i \<and> hist_inv h \<and> owned_ids root_of h) \<and>
     m_namespaceById c = flat_of root_of (m_historyById c) \<and>
     activeSize c = hsum active_count (m_historyById c) \<and> deepSize c = hsum deep_count (m_historyById c) \<and>
     groups_ok (m_rootNamespaceIdsByExpiryHeight c)"

lemma hsum_put:
  assumes "finite (dom H)"
  shows "hsum f (H(i \<mapsto> h)) = hsum f H - (case H i of None \<Rightarrow> 0 | Some g \<Rightarrow> f g) + f h"
proof (cases "i \<in> dom H")
  case True
  then have "hsum f (H(i \<mapsto> h)) = f h + (\<Sum>j \<in> dom H - {i}. f (the (H j)))" "hsum f H = f (the (H i)) + (\<Sum>j \<in> dom H - {i}. f (the (H j)))"
    using assms by (auto simp: hsum_def insert_absorb sum.remove [of "dom H" i] intro!: sum.cong)
  then show ?thesis using True by (auto split: option.splits)
next
  case False
  then have "(\<Sum>j \<in> dom H. f (the ((H(i \<mapsto> h)) j))) = hsum f H"
    unfolding hsum_def by (intro sum.cong) auto
  then show ?thesis using assms False by (simp add: hsum_def sum.insert domIff)
qed

lemma hsum_del:
  assumes "finite (dom H)" and "H i = Some g"
  shows "hsum f (H(i := None)) = hsum f H - f g"
proof -
  have "hsum f H = f g + (\<Sum>j \<in> dom H - {i}. f (the (H j)))"
    using assms sum.remove [of "dom H" i "\<lambda>j. f (the (H j))"] by (auto simp: hsum_def)
  moreover have "hsum f (H(i := None)) = (\<Sum>j \<in> dom H - {i}. f (the (H j)))"
    unfolding hsum_def by (intro sum.cong) auto
  ultimately show ?thesis by simp
qed

lemma flat_of_put:
  assumes "root_of (h_id h) = h_id h"
  shows "flat_of root_of (H(h_id h \<mapsto> h)) j =
    (if root_of j = h_id h then (if j = h_id h then Some [j] else map_option Path (map_of (active_children h) j))
     else flat_of root_of H j)"
  using assms by (auto simp: flat_of_def)

lemma flat_of_del: "flat_of root_of (H(i := None)) j = (if root_of j = i then None else flat_of root_of H j)"
  by (simp add: flat_of_def)

lemma RemoveAll_eq: "RemoveAll cs m = (\<lambda>j. if j \<in> fst ` set cs then None else m j)"
  unfolding RemoveAll_def by (induction cs arbitrary: m) (auto simp: fun_eq_iff)

lemma AddAll_eq:
  assumes "children_keyed rid cs"
  shows "AddAll cs m = (\<lambda>j. case map_of cs j of None \<Rightarrow> m j | Some d \<Rightarrow> Some (Path d))"
  using assms
proof (induction cs arbitrary: m)
  case (Cons kd cs)
  obtain k d where kd: "kd = (k, d)" by fastforce
  have cs: "children_keyed rid cs" "map_of cs k = None" and k: "ns_id (Path d) = k"
    using Cons.prems by (auto simp: kd children_keyed_def map_of_eq_None_iff)
  have "AddAll (kd # cs) m = AddAll cs (m(k \<mapsto> Path d))" by (simp add: AddAll_def kd k)
  then show ?case using Cons.IH [OF cs(1)] cs(2) by (auto simp: kd fun_eq_iff split: option.splits)
qed (simp add: AddAll_def)

text \<open>The general step: one history is replaced, and everything else follows it.\<close>

lemma cache_inv_put:
  assumes c: "cache_inv root_of c" and h: "hist_inv h" "owned_ids root_of h"
    and flat: "\<And>j. root_of j = h_id h \<Longrightarrow> F j = (if j = h_id h then Some [j] else map_option Path (map_of (active_children h) j))"
      "\<And>j. root_of j \<noteq> h_id h \<Longrightarrow> F j = m_namespaceById c j"
    and a: "a = activeSize c - (case m_historyById c (h_id h) of None \<Rightarrow> 0 | Some g \<Rightarrow> active_count g) + active_count h"
    and d: "d = deepSize c - (case m_historyById c (h_id h) of None \<Rightarrow> 0 | Some g \<Rightarrow> deep_count g) + deep_count h"
    and g: "groups_ok G"
  shows "cache_inv root_of (c\<lparr>m_historyById := (m_historyById c)(h_id h \<mapsto> h), m_namespaceById := F,
    m_rootNamespaceIdsByExpiryHeight := G, activeSize := a, deepSize := d\<rparr>)"
proof -
  have r: "root_of (h_id h) = h_id h" using h(2) by (simp add: owned_ids_def)
  have "F = flat_of root_of ((m_historyById c)(h_id h \<mapsto> h))"
  proof
    fix j
    show "F j = flat_of root_of ((m_historyById c)(h_id h \<mapsto> h)) j"
      using c flat [of j] by (cases "root_of j = h_id h") (auto simp: flat_of_put [of root_of h, OF r] cache_inv_def)
  qed
  then show ?thesis using c h g by (auto simp: cache_inv_def hsum_put a d)
qed

lemma cache_invD:
  assumes "cache_inv root_of c" and "m_historyById c i = Some h"
  shows "h_id h = i" "hist_inv h" "owned_ids root_of h" "children_wf i (active_children h)"
  using assms back_in_history [of h] by (auto simp: cache_inv_def hist_inv_def active_children_def)

lemma cache_inv_groups: "cache_inv root_of c \<Longrightarrow> groups_ok (m_rootNamespaceIdsByExpiryHeight c)"
  by (simp add: cache_inv_def)

lemma cache_inv_flat: "cache_inv root_of c \<Longrightarrow> m_namespaceById c j = flat_of root_of (m_historyById c) j"
  by (simp add: cache_inv_def)

lemma deep_count_push:
  assumes h: "hist_inv h"
  shows "deep_count (hist_push_back owner l b h) =
    deep_count h + 1 + (if rn_owner (hist_back h) = owner then of_nat (length (active_children h)) else 0)"
proof -
  let ?h = "hist_push_back owner l b h"
  note v = push_back_view [OF h, of owner l b]
  have "numAllHistoricalChildren ?h = numAllHistoricalChildren h + length (children_of ?h (hist_back ?h))"
    unfolding numAllHistoricalChildren_def by (subst v(1)) (simp add: children_of_push [OF h] cong: map_cong)
  moreover have "historyDepth ?h = Suc (historyDepth h)" unfolding historyDepth_def by (subst v(1)) simp
  ultimately show ?thesis by (simp add: deep_count_def v(5) active_children_def)
qed

lemma owned_ids_push:
  assumes h: "hist_inv h" and "owned_ids root_of h"
  shows "owned_ids root_of (hist_push_back owner l b h)"
  using assms(2) push_back_view [OF h, of owner l b] children_of_push [OF h, of _ owner l b] back_in_history [OF h]
  unfolding owned_ids_def by (subst push_back_view(1) [OF h]) (auto split: if_splits)

lemma insert_root_new:
  assumes c: "cache_inv root_of c" and new: "m_historyById c nid = None" and r: "root_of nid = nid"
    and ins: "cache_insert_root cfg nid owner lifetime c = Inr c'"
  shows "cache_inv root_of c'"
proof -
  obtain l where l: "NamespaceLifetime (Start lifetime) (End lifetime) (gracePeriodDuration cfg) = Inr l"
    using ins by (auto simp: cache_insert_root_def res_bind_Inr_iff)
  let ?h = "\<lparr>h_id = nid, h_store = [[]], m_rootHistory = [RootNamespace nid owner l 0]\<rparr>"
  have push: "hist_push_back owner l b (RootNamespaceHistory nid) = ?h" for b
    by (simp add: hist_push_back_def RootNamespaceHistory_def hist_empty_def)
  have h: "hist_inv ?h" "owned_ids root_of ?h" and act: "active_children ?h = []" and deep: "deep_count ?h = 1"
    using r by (simp_all add: hist_inv_def owned_ids_def children_of_def RootNamespace_def active_children_def
        hist_back_def deep_count_def historyDepth_def numAllHistoricalChildren_def)
  have c': "c' = c\<lparr>m_historyById := (m_historyById c)(h_id ?h \<mapsto> ?h), m_namespaceById := (m_namespaceById c)(nid \<mapsto> [nid]),
      m_rootNamespaceIdsByExpiryHeight := AddIdentifierWithGroup (m_rootNamespaceIdsByExpiryHeight c) (GracePeriodEnd l) nid,
      activeSize := activeSize c + 1, deepSize := deepSize c + 1\<rparr>"
    using ins new by (cases c) (auto simp: cache_insert_root_def l push put_history_def incrementDeepSize_def
        incrementActiveSize_def path_push_def Namespace_Max_Depth_def make_namespace_def ns_id_def Let_def)
  show ?thesis
    unfolding c'
  proof (rule cache_inv_put [OF c h])
    fix j
    show "root_of j = h_id ?h \<Longrightarrow> ((m_namespaceById c)(nid \<mapsto> [nid])) j =
        (if j = h_id ?h then Some [j] else map_option Path (map_of (active_children ?h) j))"
      using c new by (auto simp: act cache_inv_def flat_of_def)
    show "root_of j \<noteq> h_id ?h \<Longrightarrow> ((m_namespaceById c)(nid \<mapsto> [nid])) j = m_namespaceById c j" using r by auto
  next
    show "groups_ok (AddIdentifierWithGroup (m_rootNamespaceIdsByExpiryHeight c) (GracePeriodEnd l) nid)"
      using c by (intro grp.ok_add) (simp add: cache_inv_def)
  qed (simp_all add: new deep active_count_def act)
qed

lemma insert_root_existing:
  assumes c: "cache_inv root_of c" and old: "m_historyById c nid = Some h"
    and ins: "cache_insert_root cfg nid owner lifetime c = Inr c'"
    and later: "\<And>l. NamespaceLifetime (Start lifetime) (End lifetime) (gracePeriodDuration cfg) = Inr l \<Longrightarrow>
      GracePeriodEnd (rn_lifetime (hist_back h)) \<le> GracePeriodEnd l"
  shows "cache_inv root_of c'"
proof -
  note hh = cache_invD [OF c old]
  obtain l where l: "NamespaceLifetime (Start lifetime) (End lifetime) (gracePeriodDuration cfg) = Inr l"
    using ins by (auto simp: cache_insert_root_def res_bind_Inr_iff)
  let ?h = "hist_push_back owner l (AliasFixVersion_cache \<le> blockchainVersion cfg) h"
  have h': "hist_inv ?h" "owned_ids root_of ?h"
    by (rule hist_inv_push [OF hh(2) later [OF l]], rule owned_ids_push [OF hh(2,3)])
  have id: "h_id ?h = nid" using push_back_view(6) [OF hh(2)] hh(1) by simp
  have act: "active_children ?h = (if rn_owner (hist_back h) = owner then active_children h else [])"
    using push_back_view(5) [OF hh(2)] by (simp add: active_children_def)
  let ?F = "if rn_owner (hist_back h) = owner then m_namespaceById c else RemoveAll (active_children h) (m_namespaceById c)"
  have c': "c' = c\<lparr>m_historyById := (m_historyById c)(h_id ?h \<mapsto> ?h), m_namespaceById := ?F,
      m_rootNamespaceIdsByExpiryHeight := AddIdentifierWithGroup (m_rootNamespaceIdsByExpiryHeight c) (GracePeriodEnd l) nid,
      activeSize := (if rn_owner (hist_back h) = owner then activeSize c else activeSize c - of_nat (length (active_children h))),
      deepSize := deepSize c + (if rn_owner (hist_back h) = owner then of_nat (length (active_children h)) else 0) + 1\<rparr>"
    using ins old by (auto simp: cache_insert_root_def l put_history_def incrementDeepSize_def decrementActiveSize_def
        active_children_def Let_def)
  show ?thesis
    unfolding c'
  proof (rule cache_inv_put [OF c h'])
    fix j
    have flat: "m_namespaceById c j = flat_of root_of (m_historyById c) j" by (rule cache_inv_flat [OF c])
    have keys: "j \<in> fst ` set (active_children h) \<longleftrightarrow> map_of (active_children h) j \<noteq> None" by (simp add: map_of_eq_None_iff)
    show "root_of j = h_id ?h \<Longrightarrow> ?F j = (if j = h_id ?h then Some [j] else map_option Path (map_of (active_children ?h) j))"
      using hh(3,4) old by (auto simp: id act flat flat_of_def RemoveAll_eq keys owned_ids_def children_wf_def children_keyed_def hh(1) dest!: map_of_SomeD)
    have "root_of k = nid" if "k \<in> fst ` set (active_children h)" for k
      using that hh(1,3) back_in_history [OF hh(2)] by (auto simp: owned_ids_def active_children_def)
    then show "root_of j \<noteq> h_id ?h \<Longrightarrow> ?F j = m_namespaceById c j" by (auto simp: id RemoveAll_eq)
  next
    show "groups_ok (AddIdentifierWithGroup (m_rootNamespaceIdsByExpiryHeight c) (GracePeriodEnd l) nid)"
      using c by (intro grp.ok_add) (simp add: cache_inv_def)
  qed (simp_all add: id old active_count_def act deep_count_push [OF hh(2)])
qed

lemma back_children:
  assumes h: "hist_inv h" "owned_ids root_of h" and cs: "children_wf (h_id h) cs" "\<forall>k \<in> fst ` set cs. root_of k = h_id h"
    and h': "h' = h\<lparr>h_store := (h_store h)[rn_pChildren (hist_back h) := cs]\<rparr>"
  shows "hist_inv h'" and "owned_ids root_of h'" and "h_id h' = h_id h" and "active_children h' = cs"
    and "activeOwnerHistoryDepth h' = activeOwnerHistoryDepth h"
    and "deep_count h' = deep_count h + of_nat (activeOwnerHistoryDepth h) * (of_nat (length cs) - of_nat (length (active_children h)))"
proof -
  show "hist_inv h'" unfolding h' by (rule hist_inv_backI [OF h(1) cs(1)])
  have ch: "children_of h' r = (if rn_pChildren r = rn_pChildren (hist_back h) then cs else children_of h r)"
    if "r \<in> set (m_rootHistory h)" for r
    unfolding h' by (rule back_update_children [OF h(1) that])
  have roots: "m_rootHistory h' = m_rootHistory h" "hist_back h' = hist_back h" "h_id h' = h_id h" by (simp_all add: h' hist_back_def)
  show "h_id h' = h_id h" "activeOwnerHistoryDepth h' = activeOwnerHistoryDepth h"
    by (simp_all add: roots activeOwnerHistoryDepth_def)
  show "owned_ids root_of h'" using h(2) cs(2) by (auto simp: owned_ids_def roots ch)
  show "active_children h' = cs" using ch [OF back_in_history [OF h(1)]] by (simp add: active_children_def roots)
  have "numAllHistoricalChildren h' + activeOwnerHistoryDepth h * length (active_children h) =
      numAllHistoricalChildren h + activeOwnerHistoryDepth h * length cs"
    using back_update_count [OF h(1) h'] by (simp only: active_children_def)
  from arg_cong [OF this, of "of_nat :: nat \<Rightarrow> u64"]
  have "(of_nat (numAllHistoricalChildren h') :: u64) =
      of_nat (numAllHistoricalChildren h) + of_nat (activeOwnerHistoryDepth h) * (of_nat (length cs) - of_nat (length (active_children h)))"
    by (simp only: of_nat_add of_nat_mult right_diff_distrib eq_diff_eq add_diff_eq)
  then show "deep_count h' = deep_count h + of_nat (activeOwnerHistoryDepth h) * (of_nat (length cs) - of_nat (length (active_children h)))"
    by (simp only: deep_count_def historyDepth_def roots of_nat_add add.assoc)
qed

lemma active_key_owned: "hist_inv h \<Longrightarrow> owned_ids root_of h \<Longrightarrow> k \<in> fst ` set (active_children h) \<Longrightarrow> root_of k = h_id h"
  using back_in_history [of h] by (auto simp: owned_ids_def active_children_def)

lemma map_of_snoc: "k \<notin> fst ` set cs \<Longrightarrow> map_of (cs @ [(k, d)]) j = (if j = k then Some d else map_of cs j)"
  by (induction cs) auto

lemma flat_at:
  assumes c: "cache_inv root_of c" and h: "m_historyById c i = Some h" and j: "root_of j = i"
  shows "m_namespaceById c j = (if j = i then Some [j] else map_option Path (map_of (active_children h) j))"
  unfolding cache_inv_flat [OF c] flat_of_def j h by simp

lemma insert_child_inv:
  assumes c: "cache_inv root_of c" and ins: "cache_insert_child ns c = Inr c'"
    and ns: "ns \<noteq> []" "m_namespaceById c (ns_id ns) = None" "root_of (ns_id ns) = ns_rootId ns"
    and parent: "m_namespaceById c p = Some (butlast ns)" "root_of p = ns_rootId ns"
  shows "cache_inv root_of c'"
proof -
  obtain h cs where h: "m_historyById c (ns_rootId ns) = Some h"
    and add: "root_add (rn_id (hist_back h)) ns (active_children h) = Inr cs"
    using ins by (auto simp: cache_insert_child_def back_add_def active_children_def res_bind_Inr_iff split: option.splits)
  note hh = cache_invD [OF c h]
  have rid: "rn_id (hist_back h) = h_id h" using hh(2) back_in_history [OF hh(2)] by (auto simp: hist_inv_def)
  have "m_namespaceById c (h_id h) \<noteq> None" using c h hh(1,3) by (simp add: cache_inv_flat flat_of_def owned_ids_def)
  then have ne: "ns_id ns \<noteq> h_id h" using ns(2) by auto
  have "butlast ns \<in> insert [h_id h] (child_paths (active_children h))"
    using parent(1) flat_at [OF c h parent(2)] hh(1) by (force simp: child_paths_def dest!: map_of_SomeD split: if_splits)
  note cs = root_add_wf [OF _ add [unfolded rid] ns(1) ne this]
  have wf: "children_wf (h_id h) (active_children h)" using hh(1,4) by simp
  define h' where h': "h' = h\<lparr>h_store := (h_store h)[rn_pChildren (hist_back h) := cs]\<rparr>"
  have r: "root_of (h_id h) = h_id h" using hh(3) by (simp add: owned_ids_def)
  have keys: "\<forall>k \<in> fst ` set cs. root_of k = h_id h"
    using cs(2) [OF wf] active_key_owned [OF hh(2,3)] ns(3) hh(1) by auto
  note b = back_children [OF hh(2,3) cs(1) [OF wf] keys h']
  have "(of_nat (length cs) :: u64) - of_nat (length (active_children h)) = 1" by (simp add: cs(2) [OF wf])
  then have deep: "deep_count h' = deep_count h + of_nat (activeOwnerHistoryDepth h)" by (simp only: b(6) mult_1_right)
  have act: "active_count h' = active_count h + 1" by (simp only: active_count_def b(4)) (simp add: cs(2) [OF wf])
  have c': "c' = c\<lparr>m_historyById := (m_historyById c)(h_id h' \<mapsto> h'), m_namespaceById := (m_namespaceById c)(ns_id ns \<mapsto> ns),
      m_rootNamespaceIdsByExpiryHeight := m_rootNamespaceIdsByExpiryHeight c,
      activeSize := activeSize c + 1, deepSize := deepSize c + of_nat (activeOwnerHistoryDepth h)\<rparr>"
    using ins h add b(5) by (cases c) (auto simp: cache_insert_child_def back_add_def active_children_def put_history_def h'
        incrementDeepSize_def incrementActiveSize_def Let_def)
  show ?thesis
    unfolding c'
  proof (rule cache_inv_put [OF c b(1,2)])
    fix j
    show "root_of j = h_id h' \<Longrightarrow> ((m_namespaceById c)(ns_id ns \<mapsto> ns)) j =
        (if j = h_id h' then Some [j] else map_option Path (map_of (active_children h') j))"
    proof -
      assume j: "root_of j = h_id h'"
      have flat: "m_namespaceById c j = (if j = h_id h then Some [j] else map_option Path (map_of (active_children h) j))"
        using j h by (simp add: cache_inv_flat [OF c] flat_of_def b(3) hh(1))
      have "map_of cs j = (if j = ns_id ns then Some \<lparr>Path = ns, Alias = NoAlias\<rparr> else map_of (active_children h) j)"
        unfolding cs(2) [OF wf] by (rule map_of_snoc [OF cs(3) [OF wf]])
      then show ?thesis using flat ne by (auto simp: b(3,4))
    qed
    show "root_of j \<noteq> h_id h' \<Longrightarrow> ((m_namespaceById c)(ns_id ns \<mapsto> ns)) j = m_namespaceById c j"
      using ns(3) hh(1) b(3) by auto
  qed (use cache_inv_groups [OF c] h hh(1) in \<open>simp_all add: b(3) act deep\<close>)
qed

lemma flat_of_SomeD:
  assumes "flat_of root_of H i = Some p"
  shows "\<exists>h. H (root_of i) = Some h \<and> (if i = root_of i then p = [i]
    else \<exists>d. map_of (active_children h) i = Some d \<and> p = Path d)"
proof (cases "H (root_of i)")
  case None
  then show ?thesis using assms by (simp add: flat_of_def)
next
  case (Some h)
  then show ?thesis using assms unfolding flat_of_def by (cases "i = root_of i") (auto split: if_splits)
qed

lemma flat_child:
  assumes c: "cache_inv root_of c" and flat: "m_namespaceById c i = Some p" and ne: "ns_rootId p \<noteq> i"
  obtains h where "m_historyById c (ns_rootId p) = Some h" "ns_id p = i" "i \<noteq> h_id h" "root_of i = h_id h"
proof -
  have "flat_of root_of (m_historyById c) i = Some p" using flat unfolding cache_inv_flat [OF c] .
  from flat_of_SomeD [OF this] obtain h where h: "m_historyById c (root_of i) = Some h"
    and p: "if i = root_of i then p = [i] else \<exists>d. map_of (active_children h) i = Some d \<and> p = Path d" by blast
  have i: "i \<noteq> root_of i" using p ne by (metis ns_rootId_def nth_Cons_0)
  then obtain d where d: "map_of (active_children h) i = Some d" "p = Path d" using p by metis
  note hh = cache_invD [OF c h]
  have "(i, d) \<in> set (active_children h)" by (rule map_of_SomeD [OF d(1)])
  then have p': "ns_id p = i" "ns_rootId p = root_of i" using hh(4) unfolding children_wf_def children_keyed_def d(2) by fast+
  show thesis
    by (rule that [of h]) (use h i hh(1) p' in metis)+
qed

lemma length_filter_key:
  "distinct (map fst cs) \<Longrightarrow> i \<in> fst ` set cs \<Longrightarrow> length cs = Suc (length (filter (\<lambda>p. fst p \<noteq> i) cs))"
proof (induction cs)
  case (Cons p cs)
  show ?case
  proof (cases "fst p = i")
    case True
    then have "\<forall>q \<in> set cs. fst q \<noteq> i" using Cons.prems(1) by (metis distinct.simps(2) image_eqI list.set_map list.simps(9))
    then show ?thesis using True by (simp add: filter_True)
  next
    case False
    then show ?thesis using Cons by auto
  qed
qed simp

lemma map_of_filter_key: "map_of (filter (\<lambda>p. fst p \<noteq> i) cs) j = (if j = i then None else map_of cs j)"
  by (induction cs) auto

lemma remove_child_inv:
  assumes c: "cache_inv root_of c" and flat: "m_namespaceById c i = Some p" "ns_rootId p \<noteq> i"
    and rem: "removeChild p c = Inr c'"
  shows "cache_inv root_of c'"
proof -
  obtain h where h: "m_historyById c (ns_rootId p) = Some h" "ns_id p = i" "i \<noteq> h_id h" "root_of i = h_id h"
    by (rule flat_child [OF c flat])
  note hh = cache_invD [OF c h(1)]
  obtain cs where cs0: "root_remove i (active_children h) = Inr cs"
    using rem h by (auto simp: removeChild_def back_remove_def active_children_def res_bind_Inr_iff)
  have wf: "children_wf (h_id h) (active_children h)" using hh(1,4) by simp
  note cs = root_remove_wf [OF wf cs0]
  define h' where h': "h' = h\<lparr>h_store := (h_store h)[rn_pChildren (hist_back h) := cs]\<rparr>"
  have keys: "\<forall>k \<in> fst ` set cs. root_of k = h_id h" using cs(2) active_key_owned [OF hh(2,3)] by auto
  note b = back_children [OF hh(2,3) cs(1) keys h']
  have "length (active_children h) = Suc (length cs)" 
    unfolding cs(2) using wf by (intro length_filter_key [OF _ cs(3)]) (simp add: children_wf_def children_keyed_def)
  then have len: "(of_nat (length (active_children h)) :: u64) = of_nat (length cs) + 1" by simp
  have "(of_nat (length cs) :: u64) - of_nat (length (active_children h)) = - 1" by (simp add: len)
  then have deep: "deep_count h' = deep_count h - of_nat (activeOwnerHistoryDepth h)"
    by (simp only: b(6) mult_minus1_right add_uminus_conv_diff)
  have act: "active_count h' = active_count h - 1" by (simp only: active_count_def b(4) len) simp
  have c': "c' = c\<lparr>m_historyById := (m_historyById c)(h_id h' \<mapsto> h'), m_namespaceById := (m_namespaceById c)(i := None),
      m_rootNamespaceIdsByExpiryHeight := m_rootNamespaceIdsByExpiryHeight c,
      activeSize := activeSize c - 1, deepSize := deepSize c - of_nat (activeOwnerHistoryDepth h)\<rparr>"
    using rem h cs0 b(5) by (cases c) (auto simp: removeChild_def back_remove_def active_children_def put_history_def h'
        decrementDeepSize_def decrementActiveSize_def Let_def)
  show ?thesis
    unfolding c'
  proof (rule cache_inv_put [OF c b(1,2)])
    fix j
    show "((m_namespaceById c)(i := None)) j =
        (if j = h_id h' then Some [j] else map_option Path (map_of (active_children h') j))" if j: "root_of j = h_id h'"
    proof -
      have "m_namespaceById c j = (if j = h_id h then Some [j] else map_option Path (map_of (active_children h) j))"
        using flat_at [OF c h(1)] j b(3) hh(1) by metis
      then show ?thesis using h(3) unfolding b(3,4) cs(2) map_of_filter_key by auto
    qed
    show "root_of j \<noteq> h_id h' \<Longrightarrow> ((m_namespaceById c)(i := None)) j = m_namespaceById c j" using h(4) b(3) by auto
  qed (use cache_inv_groups [OF c] h hh(1) in \<open>simp_all add: b(3) act deep\<close>)
qed

lemma same_paths_lookup:
  "map fst xs = map fst ys \<Longrightarrow> map (\<lambda>(k, d). Path d) xs = map (\<lambda>(k, d). Path d) ys \<Longrightarrow>
   map_option Path (map_of xs j) = map_option Path (map_of ys j)"
proof (induction xs arbitrary: ys)
  case (Cons x xs)
  then obtain y zs where "ys = y # zs" by (cases ys) auto
  then show ?case using Cons by (cases x; cases y) auto
qed simp

lemma owned_ids_alias:
  assumes h: "hist_inv h" "owned_ids root_of h" and a: "back_setAlias i a h = Inr h'"
  shows "owned_ids root_of h'"
  using h(1) a
proof (cases rule: back_alias_cases)
  case root
  have "children_of h' r = children_of h r" for r by (simp add: root children_of_def)
  moreover have "children_of h ((hist_back h)\<lparr>rn_alias := a\<rparr>) = children_of h (hist_back h)" by (simp add: children_of_def)
  ultimately show ?thesis
    using h(2) back_in_history [OF h(1)] unfolding owned_ids_def by (auto simp: root dest: in_set_butlastD)
next
  case child
  have wf: "children_wf (h_id h) (active_children h)" using h(1) back_in_history [OF h(1)] by (auto simp: hist_inv_def active_children_def)
  have "fst ` set (set_child_alias i a (active_children h)) = fst ` set (active_children h)"
    by (metis list.set_map map_fst_set_child_alias)
  then show ?thesis
    using active_key_owned [OF h]
    by (intro back_children(2) [OF h set_child_alias_wf [OF wf] _ child(1) [folded active_children_def]]) blast
qed

lemma set_alias_inv:
  assumes c: "cache_inv root_of c" and set: "cache_setAlias i a c = Inr c'"
  shows "cache_inv root_of c'"
proof -
  obtain p h h' where h: "m_historyById c (ns_rootId p) = Some h" and h': "back_setAlias i a h = Inr h'" and c': "c' = put_history h' c"
    using set by (auto simp: cache_setAlias_def res_bind_Inr_iff split: option.splits)
  note hh = cache_invD [OF c h]
  note b = back_setAlias_inv [OF hh(2) h']
  have len: "length (active_children h') = length (active_children h)"
    using arg_cong [OF b(3), of length] by (simp add: active_children_def)
  have c'': "c' = c\<lparr>m_historyById := (m_historyById c)(h_id h' \<mapsto> h'), m_namespaceById := m_namespaceById c,
      m_rootNamespaceIdsByExpiryHeight := m_rootNamespaceIdsByExpiryHeight c, activeSize := activeSize c, deepSize := deepSize c\<rparr>"
    by (cases c) (simp add: c' put_history_def)
  show ?thesis
    unfolding c''
  proof (rule cache_inv_put [OF c b(1) owned_ids_alias [OF hh(2,3) h']])
    fix j
    show "m_namespaceById c j = (if j = h_id h' then Some [j] else map_option Path (map_of (active_children h') j))"
      if "root_of j = h_id h'"
    proof -
      have "map_option Path (map_of (active_children h') j) = map_option Path (map_of (active_children h) j)"
        using b(3,4) unfolding active_children_def by (rule same_paths_lookup)
      then show ?thesis using flat_at [OF c h] that b(2) hh(1) by metis
    qed
  qed (use cache_inv_groups [OF c] h hh(1) b(2) in \<open>simp_all add: active_count_def deep_count_def len b(5,6)\<close>)
qed

lemma cache_inv_del:
  assumes c: "cache_inv root_of c" and h: "m_historyById c i = Some h"
    and flat: "\<And>j. root_of j = i \<Longrightarrow> F j = None" "\<And>j. root_of j \<noteq> i \<Longrightarrow> F j = m_namespaceById c j"
    and g: "groups_ok G"
  shows "cache_inv root_of (c\<lparr>m_historyById := (m_historyById c)(i := None), m_namespaceById := F,
    m_rootNamespaceIdsByExpiryHeight := G, activeSize := activeSize c - active_count h, deepSize := deepSize c - deep_count h\<rparr>)"
proof -
  have fin: "finite (dom (m_historyById c))" using c by (simp add: cache_inv_def)
  have "F = flat_of root_of ((m_historyById c)(i := None))"
  proof
    fix j
    show "F j = flat_of root_of ((m_historyById c)(i := None)) j"
      using flat [of j] by (simp add: flat_of_del cache_inv_flat [OF c])
  qed
  then show ?thesis using c g by (auto simp: cache_inv_def hsum_del [OF fin h])
qed

lemma history_split: "hist_inv h \<Longrightarrow> m_rootHistory h = butlast (m_rootHistory h) @ [hist_back h]"
  by (simp add: hist_inv_def hist_back_def)

lemma deep_count_pop:
  assumes "hist_inv h"
  shows "deep_count (hist_pop_back h) = deep_count h - of_nat (1 + length (active_children h))"
proof -
  obtain b where b: "m_rootHistory h = b @ [hist_back h]" using history_split [OF assms] by blast
  have "children_of (hist_pop_back h) = children_of h" by (simp add: fun_eq_iff children_of_def hist_pop_back_def)
  then show ?thesis
    by (simp add: deep_count_def historyDepth_def numAllHistoricalChildren_def hist_pop_back_def b active_children_def)
qed

lemma owned_ids_pop: "owned_ids root_of h \<Longrightarrow> owned_ids root_of (hist_pop_back h)"
  by (auto simp: owned_ids_def hist_pop_back_def children_of_def dest: in_set_butlastD)

lemma pop_same_owner:
  assumes h: "hist_inv h" and ne: "butlast (m_rootHistory h) \<noteq> []"
    and own: "rn_owner (hist_back h) = rn_owner (hist_back (hist_pop_back h))"
  shows "active_children (hist_pop_back h) = active_children h"
proof -
  obtain b r where b: "butlast (m_rootHistory h) = b @ [r]" using ne by (metis append_butlast_last_id)
  have pop: "hist_back (hist_pop_back h) = r" by (simp add: hist_back_def hist_pop_back_def b)
  have "m_rootHistory h = (b @ [r]) @ [hist_back h]" using history_split [OF h] unfolding b .
  then have "rn_pChildren (hist_back h) = rn_pChildren r"
    using h own by (simp add: hist_inv_def pop)
  then show ?thesis by (simp add: active_children_def children_of_def pop) (simp add: hist_pop_back_def)
qed

lemma remove_root_inv:
  assumes c: "cache_inv root_of c" and rem: "removeRoot i c = Inr c'"
  shows "cache_inv root_of c'"
proof -
  obtain h where h: "m_historyById c i = Some h" using rem by (auto simp: removeRoot_def split: option.splits)
  note hh = cache_invD [OF c h]
  let ?h = "hist_pop_back h" and ?G = "RemoveIdentifierWithGroup (m_rootNamespaceIdsByExpiryHeight c) (GracePeriodEnd (rn_lifetime (hist_back h))) i"
  have g: "groups_ok ?G" by (rule grp.ok_rem [OF cache_inv_groups [OF c]])
  have id: "h_id ?h = i" using hh(1) by (simp add: hist_pop_back_def)
  have r: "root_of i = i" using hh(1,3) by (simp add: owned_ids_def)
  have empty: "hist_empty ?h \<longleftrightarrow> butlast (m_rootHistory h) = []" by (simp add: hist_empty_def hist_pop_back_def)
  show ?thesis
  proof (cases "butlast (m_rootHistory h) = []")
    case True
    then have one: "m_rootHistory h = [hist_back h]" using history_split [OF hh(2)] by simp
    then have "historyDepth h = 1" by (simp add: historyDepth_def)
    then have no: "active_children h = []"
      using rem h by (simp add: removeRoot_def active_children_def split: if_splits)
    then have cnt: "active_count h = 1" "deep_count h = 1"
      by (simp_all add: active_count_def deep_count_def historyDepth_def numAllHistoricalChildren_def one active_children_def)
    have c': "c' = c\<lparr>m_historyById := (m_historyById c)(i := None), m_namespaceById := (m_namespaceById c)(i := None),
        m_rootNamespaceIdsByExpiryHeight := ?G, activeSize := activeSize c - active_count h, deepSize := deepSize c - deep_count h\<rparr>"
      using rem h no empty True by (cases c) (auto simp: removeRoot_def put_history_def id decrementDeepSize_def decrementActiveSize_def
          Let_def cnt active_children_def split: if_splits)
    show ?thesis
      unfolding c'
    proof (rule cache_inv_del [OF c h _ _ g])
      fix j
      show "root_of j = i \<Longrightarrow> ((m_namespaceById c)(i := None)) j = None" using flat_at [OF c h] no by simp
      show "root_of j \<noteq> i \<Longrightarrow> ((m_namespaceById c)(i := None)) j = m_namespaceById c j" using r by auto
    qed
  next
    case False
    have inv: "hist_inv ?h" by (rule hist_inv_pop [OF hh(2) False])
    have own: "owned_ids root_of ?h" by (rule owned_ids_pop [OF hh(3)])
    define diff where "diff \<longleftrightarrow> rn_owner (hist_back h) \<noteq> rn_owner (hist_back ?h)"
    define F where "F = (if diff then AddAll (active_children ?h) (RemoveAll (active_children h) (m_namespaceById c)) else m_namespaceById c)"
    have wf: "children_wf i (active_children ?h)"
      using inv back_in_history [OF inv] id by (auto simp: hist_inv_def active_children_def)
    have same: "\<not> diff \<Longrightarrow> active_children ?h = active_children h" using pop_same_owner [OF hh(2) False] by (simp add: diff_def)
    have depth: "historyDepth h \<noteq> 1" using False history_split [OF hh(2)] by (auto simp: historyDepth_def butlast_conv_take)
    have c': "c' = c\<lparr>m_historyById := (m_historyById c)(h_id ?h \<mapsto> ?h), m_namespaceById := F, m_rootNamespaceIdsByExpiryHeight := ?G,
        activeSize := (if diff then activeSize c - of_nat (length (active_children h)) + of_nat (length (active_children ?h)) else activeSize c),
        deepSize := deepSize c - of_nat (1 + length (active_children h))\<rparr>"
      using rem h empty False depth by (cases c) (auto simp: removeRoot_def put_history_def id decrementDeepSize_def decrementActiveSize_def
          incrementActiveSize_def Let_def active_children_def diff_def F_def)
    show ?thesis
      unfolding c'
    proof (rule cache_inv_put [OF c inv own])
      fix j
      have keys: "k \<in> fst ` set (active_children ?h) \<union> fst ` set (active_children h) \<Longrightarrow> root_of k = i" for k
        using active_key_owned [OF inv own] active_key_owned [OF hh(2,3)] id hh(1) by auto
      have F: "F j = (if diff then case map_of (active_children ?h) j of None \<Rightarrow>
          if j \<in> fst ` set (active_children h) then None else m_namespaceById c j | Some d \<Rightarrow> Some (Path d) else m_namespaceById c j)"
        by (simp add: F_def AddAll_eq [OF children_wf_keyed [OF wf]] RemoveAll_eq)
      have root: "i \<notin> fst ` set (active_children ?h)" "i \<notin> fst ` set (active_children h)"
        using wf hh(4) by (auto simp: children_wf_def children_keyed_def)
      show "F j = (if j = h_id ?h then Some [j] else map_option Path (map_of (active_children ?h) j))" if "root_of j = h_id ?h"
      proof -
        have fl: "m_namespaceById c j = (if j = i then Some [j] else map_option Path (map_of (active_children h) j))"
          using flat_at [OF c h] that id by metis
        have k: "map_of xs j = None \<longleftrightarrow> j \<notin> fst ` set xs" for xs :: ns_children by (rule map_of_eq_None_iff)
        show ?thesis
          unfolding F id using fl root same k [of "active_children h"] k [of "active_children ?h"]
          by (cases "j = i"; cases "map_of (active_children ?h) j"; cases diff) auto
      qed
      have "map_of (active_children ?h) j = None" "j \<notin> fst ` set (active_children h)" if "root_of j \<noteq> i"
        using keys [of j] that by (auto simp: map_of_eq_None_iff)
      then show "root_of j \<noteq> h_id ?h \<Longrightarrow> F j = m_namespaceById c j" unfolding F id by simp
    next
      show "(if diff then activeSize c - of_nat (length (active_children h)) + of_nat (length (active_children ?h)) else activeSize c) =
          activeSize c - (case m_historyById c (h_id ?h) of None \<Rightarrow> 0 | Some g \<Rightarrow> active_count g) + active_count ?h"
        unfolding id h option.case active_count_def by (cases diff) (simp_all add: same)
      show "deepSize c - of_nat (1 + length (active_children h)) =
          deepSize c - (case m_historyById c (h_id ?h) of None \<Rightarrow> 0 | Some g \<Rightarrow> deep_count g) + deep_count ?h"
        unfolding id h option.case deep_count_pop [OF hh(2)] by simp
    qed (rule g)
  qed
qed

section \<open>Pruning\<close>

lemma shared_append: "shared (xs @ ys) \<Longrightarrow> shared xs"
proof (induction xs rule: shared.induct)
  case (3 r s rs)
  then show ?case by (auto split: if_splits)
qed auto

definition expired :: "height \<Rightarrow> root_namespace \<Rightarrow> bool" where
  "expired height r \<longleftrightarrow> GracePeriodEnd (rn_lifetime r) \<le> height"

text \<open>Roots expire in order: pruning drops the oldest ones, and the ids that go belong to them alone.\<close>

lemma hist_prune_eq:
  assumes "hist_inv h"
  shows "fst (hist_prune height h) = h\<lparr>m_rootHistory := dropWhile (expired height) (m_rootHistory h)\<rparr>"
    and "snd (hist_prune height h) =
      ((\<Union>r \<in> set (takeWhile (expired height) (m_rootHistory h)). fst ` set (children_of h r)) -
       (\<Union>r \<in> set (dropWhile (expired height) (m_rootHistory h)). fst ` set (children_of h r))) \<union>
      (if dropWhile (expired height) (m_rootHistory h) = [] then {h_id h} else {})"
proof -
  have "sorted (map (\<lambda>r. GracePeriodEnd (rn_lifetime r)) (m_rootHistory h))" using assms by (simp add: hist_inv_def)
  note eq = prune_roots_sorted [OF this, of h height "{}", folded expired_def]
  show "fst (hist_prune height h) = h\<lparr>m_rootHistory := dropWhile (expired height) (m_rootHistory h)\<rparr>"
    unfolding hist_prune_def eq by simp
  show "snd (hist_prune height h) =
      ((\<Union>r \<in> set (takeWhile (expired height) (m_rootHistory h)). fst ` set (children_of h r)) -
       (\<Union>r \<in> set (dropWhile (expired height) (m_rootHistory h)). fst ` set (children_of h r))) \<union>
      (if dropWhile (expired height) (m_rootHistory h) = [] then {h_id h} else {})"
    unfolding hist_prune_def eq by auto
qed

lemma hist_inv_suffix:
  assumes h: "hist_inv h" and h': "h' = h\<lparr>m_rootHistory := rs\<rparr>" and split: "m_rootHistory h = qs @ rs" and ne: "rs \<noteq> []"
  shows "hist_inv h'" and "hist_back h' = hist_back h" and "active_children h' = active_children h"
proof -
  have "shared (rev rs @ rev qs)" using h by (simp add: hist_inv_def split)
  then have "shared (rev rs)" by (rule shared_append)
  moreover have "children_of h' r = children_of h r" for r by (simp add: h' children_of_def)
  ultimately show "hist_inv h'" using h ne by (auto simp: hist_inv_def h' split sorted_append)
  show b: "hist_back h' = hist_back h" using ne by (simp add: h' hist_back_def split)
  show "active_children h' = active_children h" unfolding active_children_def b by (simp add: h' children_of_def)
qed

lemma prune_history_inv:
  assumes c: "cache_inv root_of c" and h: "m_historyById c i = Some h"
  shows "cache_inv root_of (fst (prune_history height h (c, ids)))"
proof -
  note hh = cache_invD [OF c h]
  define ps where "ps = takeWhile (expired height) (m_rootHistory h)"
  define rs where "rs = dropWhile (expired height) (m_rootHistory h)"
  have split: "m_rootHistory h = ps @ rs" by (simp add: ps_def rs_def)
  define h' where h': "h' = h\<lparr>m_rootHistory := rs\<rparr>"
  define gone where "gone = snd (hist_prune height h)"
  have pr: "hist_prune height h = (h', gone)"
    using hist_prune_eq(1) [OF hh(2), of height] by (simp add: gone_def h' rs_def prod_eq_iff)
  have gone: "gone = ((\<Union>r \<in> set ps. fst ` set (children_of h r)) - (\<Union>r \<in> set rs. fst ` set (children_of h r))) \<union>
      (if rs = [] then {i} else {})"
    unfolding gone_def using hist_prune_eq(2) [OF hh(2), of height] hh(1) by (simp add: ps_def rs_def)
  have id: "h_id h' = i" using hh(1) by (simp add: h')
  have r: "root_of i = i" using hh(1,3) by (simp add: owned_ids_def)
  have owned: "root_of k = i" if "k \<in> gone" for k
    using that hh(1,3) r by (auto simp: gone owned_ids_def split split: if_splits)
  let ?F = "\<lambda>j. if j \<in> gone then None else m_namespaceById c j"
  have other: "?F j = m_namespaceById c j" if "root_of j \<noteq> i" for j using owned that by auto
  have act: "hist_back h \<in> set (m_rootHistory h)" by (rule back_in_history [OF hh(2)])
  have sizes: "GetNamespaceSizes h = (1 + length (active_children h), historyDepth h + numAllHistoricalChildren h)"
    using hh(2) by (simp add: GetNamespaceSizes_def hist_empty_def numActiveRootChildren_def active_children_def hist_inv_def)
  show ?thesis
  proof (cases "rs = []")
    case True
    then have "GetNamespaceSizes h' = (0, 0)"
      by (simp add: GetNamespaceSizes_def h' hist_empty_def numActiveRootChildren_def historyDepth_def numAllHistoricalChildren_def)
    then have res: "fst (prune_history height h (c, ids)) = c\<lparr>m_historyById := (m_historyById c)(i := None), m_namespaceById := ?F,
        m_rootNamespaceIdsByExpiryHeight := m_rootNamespaceIdsByExpiryHeight c,
        activeSize := activeSize c - active_count h, deepSize := deepSize c - deep_count h\<rparr>"
      using True id by (intro namespace_cache.equality)
        (simp_all add: prune_history_def pr sizes put_history_def Let_def hist_empty_def h' active_count_def deep_count_def)
    have "?F j = None" if j: "root_of j = i" for j
    proof (cases "j \<in> gone")
      case False
      then have "j \<noteq> i" "j \<notin> fst ` set (active_children h)" using True act split by (auto simp: gone active_children_def)
      then show ?thesis using flat_at [OF c h j] by (simp add: map_of_eq_None_iff)
    qed simp
    then show ?thesis unfolding res by (intro cache_inv_del [OF c h _ other cache_inv_groups [OF c]])
  next
    case False
    note s = hist_inv_suffix [OF hh(2) h' split False]
    have own: "owned_ids root_of h'" using hh(3) by (auto simp: owned_ids_def h' children_of_def split)
    have sizes': "GetNamespaceSizes h' = (1 + length (active_children h), historyDepth h' + numAllHistoricalChildren h')"
      using s False by (simp add: GetNamespaceSizes_def hist_empty_def numActiveRootChildren_def active_children_def h')
    have res: "fst (prune_history height h (c, ids)) = c\<lparr>m_historyById := (m_historyById c)(h_id h' \<mapsto> h'), m_namespaceById := ?F,
        m_rootNamespaceIdsByExpiryHeight := m_rootNamespaceIdsByExpiryHeight c,
        activeSize := activeSize c, deepSize := deepSize c - (deep_count h - deep_count h')\<rparr>"
    proof -
      have "m_rootHistory h' \<noteq> []" using False by (simp add: h')
      then show ?thesis
        by (intro namespace_cache.equality)
          (simp_all add: prune_history_def pr sizes sizes' put_history_def Let_def hist_empty_def deep_count_def)
    qed
    have kept: "hist_back h \<in> set rs" using s(2) False by (metis hist_back_def h' last_in_set root_namespace_history.select_convs(3)
          root_namespace_history.surjective root_namespace_history.update_convs(3))
    have "j \<notin> gone" if "j = i \<or> j \<in> fst ` set (active_children h)" for j
    proof -
      have "i \<notin> fst ` set (children_of h q)" if "q \<in> set (m_rootHistory h)" for q
        using hh(1,2) that by (force simp: hist_inv_def children_wf_def children_keyed_def)
      then show ?thesis using that kept False split by (auto simp: gone active_children_def)
    qed
    then have fl: "?F j = (if j = h_id h' then Some [j] else map_option Path (map_of (active_children h') j))" if "root_of j = h_id h'" for j
      using flat_at [OF c h, of j] that unfolding id s(3) by (auto simp: map_of_eq_None_iff)
    show ?thesis
      unfolding res
      by (rule cache_inv_put [OF c s(1) own fl]) (use other cache_inv_groups [OF c] in \<open>auto simp: id h active_count_def s(3)\<close>)
  qed
qed

lemma cache_prune_inv:
  assumes "cache_inv root_of c"
  shows "cache_inv root_of (fst (cache_prune height c))"
proof -
  have "cache_inv root_of (fst (for_each_identifier (\<lambda>s. m_historyById (fst s)) (prune_history height) xs s))"
    if "cache_inv root_of (fst s)" for xs s
    using that
  proof (induction xs arbitrary: s)
    case (Cons x xs)
    then show ?case
      using prune_history_inv [of root_of "fst s" x _ height "snd s"] by (cases "m_historyById (fst s) x") simp_all
  qed simp
  then show ?thesis using assms by (simp add: cache_prune_def ForEachIdentifierWithGroup_def split: option.split)
qed

lemma cache_inv_empty: "cache_inv root_of empty_namespace_cache"
  by (simp add: cache_inv_def empty_namespace_cache_def flat_of_def hsum_def groups_ok_def fun_eq_iff)

text \<open>Every ancestor of an active namespace is active, at its own path.\<close>

lemma ancestors_active:
  assumes c: "cache_inv root_of c" and p: "m_namespaceById c i = Some p"
  shows "ns_id p = i" "p \<noteq> []" "ns_rootId p = root_of i" "length p = 1 \<or> (\<exists>j. m_namespaceById c j = Some (butlast p) \<and> root_of j = root_of i)"
proof -
  obtain h where h: "m_historyById c (root_of i) = Some h" using p by (auto simp: cache_inv_flat [OF c] flat_of_def split: option.splits)
  note hh = cache_invD [OF c h]
  have flat: "m_namespaceById c j = (if j = root_of i then Some [j] else map_option Path (map_of (active_children h) j))"
    if "root_of j = root_of i" for j
    by (rule flat_at [OF c h that])
  have own: "root_of (root_of i) = root_of i" using hh(1,3) by (simp add: owned_ids_def)
  have "ns_id p = i \<and> p \<noteq> [] \<and> ns_rootId p = root_of i \<and>
      (length p = 1 \<or> (\<exists>j. m_namespaceById c j = Some (butlast p) \<and> root_of j = root_of i))"
  proof (cases "i = root_of i")
    case True
    then show ?thesis using p flat [of i] by (auto simp: ns_id_def ns_rootId_def)
  next
    case False
    then obtain d where d: "(i, d) \<in> set (active_children h)" "p = Path d" using p flat [of i] by (auto dest: map_of_SomeD)
    then have k: "ns_id p = i" "p \<noteq> []" "ns_rootId p = root_of i"
      using hh(4) by (auto simp: children_wf_def children_keyed_def)
    have "p \<in> child_paths (active_children h)" using d by (force simp: child_paths_def)
    then consider "butlast p = [root_of i]" | k e where "(k, e) \<in> set (active_children h)" "butlast p = Path e"
      using hh(4) by (force simp: children_wf_def child_paths_def)
    then show ?thesis
    proof cases
      case 1
      then show ?thesis using k flat [OF own] own by auto
    next
      case (2 j e)
      have j: "root_of j = root_of i" using active_key_owned [OF hh(2,3), of j] 2(1) hh(1) by force
      have "map_of (active_children h) j = Some e" "j \<noteq> root_of i"
        using 2(1) hh(4) by (auto simp: children_wf_def children_keyed_def)
      then show ?thesis using k flat [OF j] 2(2) j by auto
    qed
  qed
  then show "ns_id p = i" "p \<noteq> []" "ns_rootId p = root_of i"
    "length p = 1 \<or> (\<exists>j. m_namespaceById c j = Some (butlast p) \<and> root_of j = root_of i)" by blast+
qed

end
