(* ===== verification/Processing.thy ===== *)
theory Processing
  imports Catapult_Prelude
begin

text \<open>
  What validators return and how observers are called: the packed validation result of
  \<^verbatim>\<open>validators/ValidationResult.h\<close>, the aggregation of results (\<^verbatim>\<open>AggregateValidationResult.cpp\<close>), the
  aggregate validator of \<^verbatim>\<open>AggregateValidatorBuilder.h\<close>, the parallel validation of entities
  (\<^verbatim>\<open>ParallelValidationPolicy.cpp\<close>, \<^verbatim>\<open>thread/ParallelFor.h\<close>), and the notification modes and helpers of
  \<^verbatim>\<open>observers/ObserverUtils.h\<close>. Parallel validation is modelled access by access, because its tasks share one
  atomic result.
\<close>

unbundle bit_operations_syntax

section \<open>Validation results\<close>

type_synonym validation_result = u32

datatype result_severity = SeveritySuccess | SeverityNeutral | SeverityFailure

fun severity_bits :: "result_severity \<Rightarrow> u32" where
  "severity_bits SeveritySuccess = 0"
| "severity_bits SeverityNeutral = 1"
| "severity_bits SeverityFailure = 2"

definition Result_Success :: validation_result where "Result_Success = 0x00000000"
definition Result_Neutral :: validation_result where "Result_Neutral = 0x40000000"
definition Result_Failure :: validation_result where "Result_Failure = 0x80000000"

definition MakeValidationResult :: "result_severity \<Rightarrow> u8 \<Rightarrow> u16 \<Rightarrow> u8 \<Rightarrow> validation_result" where
  "MakeValidationResult severity facility code flags =
     push_bit 30 (severity_bits severity AND 0x03) OR
     push_bit 24 (ucast flags AND 0x3F) OR
     push_bit 16 (ucast facility) OR
     ucast code"

text \<open>\<^verbatim>\<open>GetSeverity\<close> yields the two highest bits; comparisons of severities compare them as numbers.\<close>

definition GetSeverity :: "validation_result \<Rightarrow> u32" where
  "GetSeverity result = drop_bit 30 result"

definition IsSet :: "validation_result \<Rightarrow> u8 \<Rightarrow> bool" where
  "IsSet result flags \<longleftrightarrow> (ucast flags :: u32) = (ucast flags AND (drop_bit 24 result AND 0x3F))"

definition IsValidationResultSuccess :: "validation_result \<Rightarrow> bool" where
  "IsValidationResultSuccess result \<longleftrightarrow> severity_bits SeveritySuccess = GetSeverity result"

definition IsValidationResultFailure :: "validation_result \<Rightarrow> bool" where
  "IsValidationResultFailure result \<longleftrightarrow> severity_bits SeverityFailure = GetSeverity result"

section \<open>Aggregating results\<close>

definition CompareExchange :: "validation_result \<Rightarrow> validation_result \<Rightarrow> validation_result \<Rightarrow> validation_result" where
  "CompareExchange aggregate current val = (if aggregate = current then val else aggregate)"

definition AggregateResult :: "validation_result \<Rightarrow> validation_result \<Rightarrow> validation_result" where
  "AggregateResult aggregate val =
     (let current = aggregate
      in if GetSeverity val \<le> GetSeverity current then aggregate else CompareExchange aggregate current val)"

text \<open>
  The parallel policy splits the entities into partitions, one posted task each. Partitioning divides by the number of
  partitions left, so no partitions at all with items to do (None) is a division by zero.
\<close>

function parallel_partitions :: "nat \<Rightarrow> 'a list \<Rightarrow> 'a list list option" where
  "parallel_partitions numRemainingPartitions items =
     (if items = [] then Some []
      else if numRemainingPartitions = 0 then None
      else let isDivisible = (0 = length items mod numRemainingPartitions);
               size = length items div numRemainingPartitions + (if isDivisible then 0 else 1)
           in map_option ((#) (take size items)) (parallel_partitions (numRemainingPartitions - 1) (drop size items)))"
  by pat_completeness auto
termination
  by (relation "measure fst") auto

text \<open>
  A task calls every validation function on every entity of its partition. Under \<^verbatim>\<open>ShortCircuitTraits\<close> all tasks share
  one atomic result; a worker is a task between two accesses to it: about to look at it before the next call, about to
  load it in \<^verbatim>\<open>AggregateResult\<close>, or about to exchange it.
\<close>

datatype worker =
    WorkerReady "validation_result list"
  | WorkerAggregate validation_result "validation_result list"
  | WorkerExchange validation_result validation_result "validation_result list"

definition validation_calls :: "('e \<Rightarrow> validation_result) list \<Rightarrow> 'e list \<Rightarrow> validation_result list" where
  "validation_calls validationFunctions entityInfos =
     concat (map (\<lambda>entityInfo. map (\<lambda>f. f entityInfo) validationFunctions) entityInfos)"

fun worker_step :: "validation_result \<Rightarrow> worker \<Rightarrow> validation_result \<times> worker" where
  "worker_step aggregate (WorkerReady []) = (aggregate, WorkerReady [])"
| "worker_step aggregate (WorkerReady (val # vals)) =
     (if IsValidationResultFailure aggregate then (aggregate, WorkerReady []) else (aggregate, WorkerAggregate val vals))"
| "worker_step aggregate (WorkerAggregate val vals) =
     (let current = aggregate
      in if GetSeverity val \<le> GetSeverity current then (aggregate, WorkerReady vals)
         else (aggregate, WorkerExchange val current vals))"
| "worker_step aggregate (WorkerExchange val current vals) = (CompareExchange aggregate current val, WorkerReady vals)"

text \<open>A schedule says which worker moves next.\<close>

fun run_workers :: "nat list \<Rightarrow> validation_result \<times> worker list \<Rightarrow> validation_result \<times> worker list" where
  "run_workers [] s = s"
| "run_workers (i # schedule) (aggregate, ws) =
     (if i < length ws
      then case worker_step aggregate (ws ! i) of (aggregate', w) \<Rightarrow> run_workers schedule (aggregate', ws[i := w])
      else run_workers schedule (aggregate, ws))"

definition validateShortCircuit ::
  "nat \<Rightarrow> ('e \<Rightarrow> validation_result) list \<Rightarrow> 'e list \<Rightarrow> nat list \<Rightarrow> (validation_result \<times> worker list) option" where
  "validateShortCircuit numWorkerThreads validationFunctions entityInfos schedule =
     map_option
       (\<lambda>partitions. run_workers schedule
          (Result_Success, map (\<lambda>p. WorkerReady (validation_calls validationFunctions p)) partitions))
       (parallel_partitions numWorkerThreads entityInfos)"

text \<open>Under \<^verbatim>\<open>AllTraits\<close> each entity has a result of its own, which only its task touches.\<close>

fun validateEntity_all :: "('e \<Rightarrow> validation_result) list \<Rightarrow> 'e \<Rightarrow> validation_result \<Rightarrow> validation_result" where
  "validateEntity_all [] entityInfo result = result"
| "validateEntity_all (f # fs) entityInfo result =
     (let result' = AggregateResult result (f entityInfo)
      in if \<not> IsValidationResultFailure result' then validateEntity_all fs entityInfo result' else result')"

definition validateAll :: "('e \<Rightarrow> validation_result) list \<Rightarrow> 'e list \<Rightarrow> validation_result list" where
  "validateAll validationFunctions entityInfos =
     map (\<lambda>entityInfo. validateEntity_all validationFunctions entityInfo Result_Success) entityInfos"

declare parallel_partitions.simps [simp del]

section \<open>The aggregate validator\<close>

text \<open>The validators of one notification type run in order; a suppressed failure counts as nothing.\<close>

fun validate_all ::
  "(validation_result \<Rightarrow> bool) \<Rightarrow> ('n \<Rightarrow> validation_result) list \<Rightarrow> 'n \<Rightarrow> validation_result \<Rightarrow> validation_result" where
  "validate_all isSuppressedFailure [] notification aggregateResult = aggregateResult"
| "validate_all isSuppressedFailure (v # vs) notification aggregateResult =
     (let result = v notification
      in if isSuppressedFailure result then validate_all isSuppressedFailure vs notification aggregateResult
         else if IsValidationResultFailure result then result
         else validate_all isSuppressedFailure vs notification (AggregateResult aggregateResult result))"

definition aggregate_validate ::
  "(validation_result \<Rightarrow> bool) \<Rightarrow> ('t \<rightharpoonup> ('n \<Rightarrow> validation_result) list) \<Rightarrow> ('n \<Rightarrow> 't) \<Rightarrow> 'n \<Rightarrow> validation_result" where
  "aggregate_validate isSuppressedFailure m_validators typeOf notification =
     (case m_validators (typeOf notification) of
        None \<Rightarrow> Result_Success
      | Some vs \<Rightarrow> validate_all isSuppressedFailure vs notification Result_Success)"

section \<open>Observers\<close>

datatype notify_mode = Commit | Rollback

definition ShouldPrune :: "notify_mode \<Rightarrow> height \<Rightarrow> u64 \<Rightarrow> bool" where
  "ShouldPrune mode height pruneInterval \<longleftrightarrow> Commit = mode \<and> 0 = height mod pruneInterval"

datatype link_action = Link | Unlink

definition ShouldLink :: "link_action \<Rightarrow> notify_mode \<Rightarrow> bool" where
  "ShouldLink act mode = (if Commit = mode then Link = act else Unlink = act)"

text \<open>The pruning observers give the cache a height that lies a grace period back.\<close>

definition CacheBlockPruningObserver :: "u64 \<Rightarrow> u64 \<Rightarrow> (height \<Rightarrow> 'c \<Rightarrow> 'c) \<Rightarrow> notify_mode \<Rightarrow> height \<Rightarrow> 'c \<Rightarrow> 'c" where
  "CacheBlockPruningObserver interval gracePeriod prune mode height cache =
     (if \<not> ShouldPrune mode height interval then cache
      else if height \<le> gracePeriod then cache
      else prune (height - gracePeriod) cache)"

definition CacheTimePruningObserver :: "u64 \<Rightarrow> (timestamp \<Rightarrow> 'c \<Rightarrow> 'c) \<Rightarrow> notify_mode \<Rightarrow> height \<Rightarrow> timestamp \<Rightarrow> 'c \<Rightarrow> 'c" where
  "CacheTimePruningObserver blockPruneInterval prune mode height timestamp cache =
     (if \<not> ShouldPrune mode height blockPruneInterval then cache else prune timestamp cache)"

text \<open>
  The touch observer turns the identifiers that expire at the height into receipts, in ascending order and only when
  committing; \<^verbatim>\<open>touch\<close> is the cache's own.
\<close>

definition CacheBlockTouchObserver ::
  "(height \<Rightarrow> 'c \<Rightarrow> 'i::linorder list \<times> 'c) \<Rightarrow> notify_mode \<Rightarrow> height \<Rightarrow> 'c \<Rightarrow> 'i list \<times> 'c" where
  "CacheBlockTouchObserver touch mode height cache =
     (let (expiryIds, cache') = touch height cache
      in if Rollback = mode then ([], cache') else (sort (remdups expiryIds), cache'))"

section \<open>The layout of a result\<close>

lemma severity_and: "severity_bits s AND 0x03 = severity_bits s"
  by (cases s) simp_all

lemma bit_result:
  "bit (MakeValidationResult s f c fl) n \<longleftrightarrow>
     (if n < 16 then bit c n else if n < 24 then bit f (n - 16) else if n < 30 then bit fl (n - 24)
      else n < 32 \<and> bit (severity_bits s) (n - 30))"
proof -
  have m: "(0x3F :: u32) = mask 6" by (simp add: mask_eq_exp_minus_1)
  have out: "\<not> bit c k" if "16 \<le> k" for k using that bit_imp_le_length [of c k] by auto
  have out': "\<not> bit w k" if "8 \<le> k" for w :: u8 and k using that bit_imp_le_length [of w k] by auto
  show ?thesis
    unfolding MakeValidationResult_def severity_and m
    using out [of n] out' [of "n - 16" f]
    by (auto simp: bit_simps bit_push_bit_iff)
qed

lemma GetSeverity_Make [simp]: "GetSeverity (MakeValidationResult s f c fl) = severity_bits s"
proof (rule bit_eqI)
  fix n
  assume "possible_bit TYPE(32 word) n"
  have "bit (severity_bits s) n \<Longrightarrow> n < 2" by (cases s) (auto simp: bit_1_iff bit_simps numeral_eq_Suc less_Suc_eq)
  then show "bit (GetSeverity (MakeValidationResult s f c fl)) n = bit (severity_bits s) n"
    by (auto simp: GetSeverity_def bit_drop_bit_eq bit_result)
qed

lemma result_fields:
  "ucast (MakeValidationResult s f c fl) = c"
  "ucast (drop_bit 16 (MakeValidationResult s f c fl)) = f"
  "drop_bit 24 (MakeValidationResult s f c fl) AND 0x3F = ucast fl AND 0x3F"
proof -
  have m: "(0x3F :: u32) = mask 6" by (simp add: mask_eq_exp_minus_1)
  show "ucast (MakeValidationResult s f c fl) = c"
    by (rule bit_eqI) (auto simp: bit_result bit_simps)
  show "ucast (drop_bit 16 (MakeValidationResult s f c fl)) = f"
    by (rule bit_eqI) (auto simp: bit_result bit_simps bit_drop_bit_eq)
  show "drop_bit 24 (MakeValidationResult s f c fl) AND 0x3F = ucast fl AND 0x3F"
    unfolding m by (rule bit_eqI) (auto simp: bit_result bit_simps bit_drop_bit_eq)
qed

lemma severity_bits_inj: "severity_bits s = severity_bits s' \<Longrightarrow> s = s'"
  by (cases s; cases s') simp_all

text \<open>
  C27. A packed validation result loses nothing: severity, facility and code can be read back, the flags are set exactly
  as given (six of their bits are kept), and equal results come from equal fields.
\<close>

theorem validation_result_roundtrip:
  "GetSeverity (MakeValidationResult s f c fl) = severity_bits s \<and>
   ucast (drop_bit 16 (MakeValidationResult s f c fl)) = f \<and>
   ucast (MakeValidationResult s f c fl) = c \<and>
   (\<forall>flags. IsSet (MakeValidationResult s f c fl) flags = (flags = flags AND (fl AND 0x3F))) \<and>
   (MakeValidationResult s f c fl = MakeValidationResult s' f' c' fl'
      \<longleftrightarrow> s = s' \<and> f = f' \<and> c = c' \<and> fl AND 0x3F = fl' AND 0x3F)"
proof -
  have uc: "(ucast x :: u32) = ucast y \<longleftrightarrow> x = y" for x y :: u8
  proof -
    have "(ucast (ucast z :: u32) :: u8) = z" for z :: u8 by (rule bit_eqI) (auto simp: bit_simps)
    from this [of x] this [of y] show ?thesis by metis
  qed
  have ua: "(ucast (x AND y) :: u32) = ucast x AND ucast y" for x y :: u8
    by (rule bit_eqI) (auto simp: bit_simps)
  have k: "(0x3F :: u32) = ucast (0x3F :: u8)" by simp
  have flags: "IsSet (MakeValidationResult s f c fl) flags = (flags = flags AND (fl AND 0x3F))" for flags
    unfolding IsSet_def result_fields unfolding k ua [symmetric] uc ..
  have inj: "MakeValidationResult s f c fl = MakeValidationResult s' f' c' fl'
      \<longleftrightarrow> s = s' \<and> f = f' \<and> c = c' \<and> fl AND 0x3F = fl' AND 0x3F"
  proof
    assume e: "MakeValidationResult s f c fl = MakeValidationResult s' f' c' fl'"
    have "severity_bits s = severity_bits s'" using arg_cong [OF e, of GetSeverity] by simp
    moreover have "f = f'" using arg_cong [OF e, of "\<lambda>r. ucast (drop_bit 16 r) :: u8"] by (simp only: result_fields)
    moreover have "c = c'" using arg_cong [OF e, of "\<lambda>r. ucast r :: u16"] by (simp only: result_fields)
    moreover have "(ucast (fl AND 0x3F) :: u32) = ucast (fl' AND 0x3F)"
      using arg_cong [OF e, of "\<lambda>r. drop_bit 24 r AND 0x3F"] unfolding result_fields ua by simp
    ultimately show "s = s' \<and> f = f' \<and> c = c' \<and> fl AND 0x3F = fl' AND 0x3F"
      unfolding uc using severity_bits_inj by simp
  next
    assume a: "s = s' \<and> f = f' \<and> c = c' \<and> fl AND 0x3F = fl' AND 0x3F"
    have "(ucast fl :: u32) AND 0x3F = ucast fl' AND 0x3F" using a unfolding k ua [symmetric] by simp
    then show "MakeValidationResult s f c fl = MakeValidationResult s' f' c' fl'"
      using a by (simp add: MakeValidationResult_def)
  qed
  show ?thesis using flags inj by (simp add: result_fields)
qed

section \<open>Sequential aggregation\<close>

text \<open>The reference: the first failure if there is one, otherwise the first neutral result, otherwise success.\<close>

definition IsValidationResultNeutral :: "validation_result \<Rightarrow> bool" where
  "IsValidationResultNeutral result \<longleftrightarrow> severity_bits SeverityNeutral = GetSeverity result"

definition most_severe :: "validation_result list \<Rightarrow> validation_result" where
  "most_severe rs =
     (case find IsValidationResultFailure rs of
        Some r \<Rightarrow> r
      | None \<Rightarrow> (case find IsValidationResultNeutral rs of Some r \<Rightarrow> r | None \<Rightarrow> Result_Success))"

text \<open>Every result a validator makes has one of the three severities; the fourth bit pattern is unused.\<close>

definition proper_result :: "validation_result \<Rightarrow> bool" where
  "proper_result r \<longleftrightarrow> GetSeverity r \<in> {0, 1, 2}"

lemma proper_Make [simp]: "proper_result (MakeValidationResult s f c fl)"
  by (cases s) (simp_all add: proper_result_def)

lemmas severity_simps = IsValidationResultFailure_def IsValidationResultNeutral_def IsValidationResultSuccess_def

lemma severity_Success [simp]: "GetSeverity Result_Success = 0"
  and severity_Neutral [simp]: "GetSeverity Result_Neutral = 1"
  and severity_Failure [simp]: "GetSeverity Result_Failure = 2"
  by (simp_all add: GetSeverity_def Result_Success_def Result_Neutral_def Result_Failure_def)

lemma AggregateResult_def':
  "AggregateResult aggregate val = (if GetSeverity val \<le> GetSeverity aggregate then aggregate else val)"
  by (simp add: AggregateResult_def CompareExchange_def)

lemma validate_all_neutral:
  assumes "GetSeverity agg = 1" "\<forall>v \<in> set vs. proper_result (v n)"
  shows "validate_all suppressed vs n agg =
     (case find IsValidationResultFailure (filter (\<lambda>r. \<not> suppressed r) (map (\<lambda>v. v n) vs)) of Some r \<Rightarrow> r | None \<Rightarrow> agg)"
  using assms by (induction vs) (auto simp: proper_result_def severity_simps AggregateResult_def')

lemma validate_all_success:
  assumes "\<forall>v \<in> set vs. proper_result (v n)"
  shows "validate_all suppressed vs n Result_Success = most_severe (filter (\<lambda>r. \<not> suppressed r) (map (\<lambda>v. v n) vs))"
  using assms
proof (induction vs)
  case Nil
  then show ?case by (simp add: most_severe_def)
next
  case (Cons v vs)
  have p: "proper_result (v n)" "\<forall>v \<in> set vs. proper_result (v n)" using Cons.prems by simp_all
  then consider "suppressed (v n)" | "\<not> suppressed (v n)" "GetSeverity (v n) = 0" | "\<not> suppressed (v n)" "GetSeverity (v n) = 1"
    | "\<not> suppressed (v n)" "GetSeverity (v n) = 2" by (auto simp: proper_result_def)
  then show ?case
  proof cases
    case 3
    have "AggregateResult Result_Success (v n) = v n" using 3 by (simp add: AggregateResult_def')
    then have "validate_all suppressed (v # vs) n Result_Success = validate_all suppressed vs n (v n)"
      using 3 by (simp add: severity_simps)
    then show ?thesis using 3 validate_all_neutral [OF 3(2) p(2), of suppressed]
      by (simp add: most_severe_def severity_simps split: option.split)
  qed (use Cons.IH [OF p(2)] in \<open>simp_all add: most_severe_def severity_simps AggregateResult_def' split: option.splits\<close>)
qed

lemma validateEntity_all_eq:
  assumes "GetSeverity agg \<in> {0, 1}" "\<forall>f \<in> set fs. proper_result (f e)"
  shows "validateEntity_all fs e agg = validate_all (\<lambda>_. False) fs e agg"
proof -
  have "\<not> (2 :: u32) \<le> 1" by (simp add: word_le_nat_alt)
  then show ?thesis
    using assms by (induction fs arbitrary: agg) (auto simp: proper_result_def severity_simps AggregateResult_def')
qed

text \<open>
  C19. The aggregate validator and the parallel policy's validateAll compute the same reference: on validators that
  return results of the three severities, the aggregate validator returns the first failure that is not suppressed, else
  the first neutral result that is not suppressed, else success (success too for a notification type without
  validators), and validateAll returns that for every entity, nothing being suppressed.
\<close>

theorem aggregate_validation_equiv:
  assumes "\<forall>vs \<in> ran m_validators. \<forall>v \<in> set vs. \<forall>n. proper_result (v n)"
  shows "aggregate_validate suppressed m_validators typeOf n =
       most_severe (filter (\<lambda>r. \<not> suppressed r)
         (map (\<lambda>v. v n) (case m_validators (typeOf n) of None \<Rightarrow> [] | Some vs \<Rightarrow> vs))) \<and>
     (\<forall>vs \<in> ran m_validators. \<forall>es. validateAll vs es = map (\<lambda>e. most_severe (map (\<lambda>v. v e) vs)) es)"
proof
  have s: "validate_all suppressed vs n Result_Success = most_severe (filter (\<lambda>r. \<not> suppressed r) (map (\<lambda>v. v n) vs))"
    if "vs \<in> ran m_validators" for vs suppressed n
    using assms that by (intro validate_all_success) auto
  show "aggregate_validate suppressed m_validators typeOf n =
       most_severe (filter (\<lambda>r. \<not> suppressed r) (map (\<lambda>v. v n) (case m_validators (typeOf n) of None \<Rightarrow> [] | Some vs \<Rightarrow> vs)))"
    using s by (auto simp: aggregate_validate_def most_severe_def ranI split: option.split)
  show "\<forall>vs \<in> ran m_validators. \<forall>es. validateAll vs es = map (\<lambda>e. most_severe (map (\<lambda>v. v e) vs)) es"
    using s [of _ "\<lambda>_. False"] assms by (auto simp: validateAll_def validateEntity_all_eq)
qed

definition example_validators :: "nat \<rightharpoonup> (nat \<Rightarrow> validation_result) list" where
  "example_validators = [7 \<mapsto>
     [\<lambda>_. Result_Success,
      \<lambda>n. MakeValidationResult SeverityNeutral 3 5 0,
      \<lambda>n. if n = 0 then MakeValidationResult SeverityFailure 3 9 1 else Result_Success]]"

theorem aggregate_validation_witness:
  "aggregate_validate (\<lambda>_. False) example_validators (\<lambda>_. 7) 0 = MakeValidationResult SeverityFailure 3 9 1 \<and>
   aggregate_validate (\<lambda>r. r = MakeValidationResult SeverityFailure 3 9 1) example_validators (\<lambda>_. 7) 0
     = MakeValidationResult SeverityNeutral 3 5 0"
proof -
  have ok: "\<forall>vs \<in> ran example_validators. \<forall>v \<in> set vs. \<forall>n. proper_result (v n)"
    by (auto simp: example_validators_def proper_result_def)
  show ?thesis
    using aggregate_validation_equiv [OF ok, of "\<lambda>_. False" "\<lambda>_. 7" 0]
      aggregate_validation_equiv [OF ok, of "\<lambda>r. r = MakeValidationResult SeverityFailure 3 9 1" "\<lambda>_. 7" 0]
    by (simp add: example_validators_def most_severe_def severity_simps MakeValidationResult_def Result_Success_def
      GetSeverity_def)
qed

section \<open>Partitions of the work\<close>

lemma partition_arith:
  fixes L n :: nat
  assumes "0 < n" "0 < L"
  defines "k \<equiv> L div n + (if 0 = L mod n then 0 else 1)"
  shows "0 < k" "k \<le> L" "n = 1 \<Longrightarrow> k = L" "1 < n \<Longrightarrow> (L - k) div (n - 1) = L div n"
proof -
  define q r where "q = L div n" and "r = L mod n"
  have L: "L = q * n + r" "r < n" using assms by (simp_all add: q_def r_def)
  have n: "q * n = q * (n - 1) + q" using assms(1) by (cases n) simp_all
  have k: "k = q + (if r = 0 then 0 else 1)" by (auto simp: k_def q_def r_def)
  show "0 < k"
  proof (cases "q = 0")
    case True
    then show ?thesis using L assms(2) by (simp add: k)
  qed (simp add: k)
  show "k \<le> L" using L n by (simp add: k)
  show "n = 1 \<Longrightarrow> k = L" using L by (simp add: k)
  assume "1 < n"
  have "L - k = q * (n - 1) + (r - 1)" using L n by (auto simp: k)
  moreover have "r - 1 < n - 1" using L(2) \<open>1 < n\<close> by auto
  ultimately show "(L - k) div (n - 1) = L div n" using \<open>1 < n\<close> by (simp add: q_def)
qed

lemma parallel_partitions_ok:
  "0 < n \<Longrightarrow> \<exists>ps. parallel_partitions n items = Some ps \<and> concat ps = items \<and> length ps \<le> n \<and>
     (\<forall>p \<in> set ps. length p \<in> {length items div n, length items div n + 1} \<and> p \<noteq> [])"
proof (induction n items rule: parallel_partitions.induct)
  case (1 n items)
  show ?case
  proof (cases "items = []")
    case True
    then show ?thesis by (simp add: parallel_partitions.simps)
  next
    case False
    define k where "k = length items div n + (if 0 = length items mod n then 0 else 1)"
    have n: "n \<noteq> 0" "0 < length items" using False 1(2) by auto
    note ar = partition_arith [OF 1(2) n(2), folded k_def]
    have eq: "parallel_partitions n items
        = map_option ((#) (take k items)) (parallel_partitions (n - 1) (drop k items))"
      using False n(1) by (subst parallel_partitions.simps) (simp add: k_def Let_def)
    have first: "length (take k items) \<in> {length items div n, length items div n + 1}" "take k items \<noteq> []"
      using ar(1,2) n by (auto simp: k_def)
    show ?thesis
    proof (cases "n = 1")
      case True
      then show ?thesis using eq first ar(3) by (simp add: parallel_partitions.simps)
    next
      case m: False
      then have "1 < n" "0 < n - 1" using n by simp_all
      have "\<exists>ps. parallel_partitions (n - 1) (drop k items) = Some ps \<and> concat ps = drop k items \<and>
          length ps \<le> n - 1 \<and> (\<forall>p \<in> set ps. length p \<in>
            {length (drop k items) div (n - 1), length (drop k items) div (n - 1) + 1} \<and> p \<noteq> [])"
        by (rule 1(1)) (use False n(1) \<open>0 < n - 1\<close> in \<open>simp_all add: k_def\<close>)
      then show ?thesis using eq first ar(4) [OF \<open>1 < n\<close>] \<open>1 < n\<close> by auto
    qed
  qed
qed

section \<open>Parallel validation\<close>

fun pending :: "worker \<Rightarrow> validation_result list" where
  "pending (WorkerReady vals) = vals"
| "pending (WorkerAggregate val vals) = val # vals"
| "pending (WorkerExchange val current vals) = val # vals"

fun worker_ok :: "worker \<Rightarrow> bool" where
  "worker_ok (WorkerExchange val current vals) \<longleftrightarrow> IsValidationResultFailure val \<and> current = Result_Success"
| "worker_ok w \<longleftrightarrow> True"

definition binary_result :: "validation_result \<Rightarrow> bool" where
  "binary_result r \<longleftrightarrow> IsValidationResultSuccess r \<or> IsValidationResultFailure r"

definition parallel_inv :: "validation_result set \<Rightarrow> validation_result \<times> worker list \<Rightarrow> bool" where
  "parallel_inv R s \<longleftrightarrow>
     (fst s = Result_Success \<or> fst s \<in> R \<and> IsValidationResultFailure (fst s)) \<and>
     (\<forall>w \<in> set (snd s). worker_ok w \<and> set (pending w) \<subseteq> R)"

definition fails :: "validation_result \<times> worker list \<Rightarrow> bool" where
  "fails s \<longleftrightarrow> IsValidationResultFailure (fst s) \<or> (\<exists>w \<in> set (snd s). \<exists>r \<in> set (pending w). IsValidationResultFailure r)"

fun remaining :: "worker \<Rightarrow> nat" where
  "remaining (WorkerReady vals) = 3 * length vals"
| "remaining (WorkerAggregate val vals) = 3 * length vals + 2"
| "remaining (WorkerExchange val current vals) = 3 * length vals + 1"

lemma remaining_0 [simp]: "remaining w = 0 \<longleftrightarrow> w = WorkerReady []"
  by (cases w) auto

lemma failure_simps [simp]:
  "\<not> IsValidationResultFailure Result_Success" "IsValidationResultFailure Result_Failure"
  by (simp_all add: severity_simps)

lemma worker_step_ok:
  assumes "worker_step a w = (a', w')" "worker_ok w" "set (pending w) \<subseteq> R" "\<forall>r \<in> R. binary_result r"
    "a = Result_Success \<or> a \<in> R \<and> IsValidationResultFailure a"
  shows "worker_ok w' \<and> set (pending w') \<subseteq> R \<and> (a' = Result_Success \<or> a' \<in> R \<and> IsValidationResultFailure a') \<and>
     (IsValidationResultFailure a \<longrightarrow> IsValidationResultFailure a') \<and>
     (IsValidationResultFailure a' \<or> (\<exists>r \<in> set (pending w'). IsValidationResultFailure r) \<longleftrightarrow>
      IsValidationResultFailure a \<or> (\<exists>r \<in> set (pending w). IsValidationResultFailure r)) \<and>
     remaining w' \<le> remaining w - 1"
proof (cases "(a, w)" rule: worker_step.cases)
  case (1 aggregate)
  then show ?thesis using assms by auto
next
  case (2 aggregate val vals)
  then show ?thesis using assms by (auto split: if_splits)
next
  case (3 aggregate val vals)
  have "binary_result val" using assms 3 by auto
  then show ?thesis using assms 3
    by (auto simp: Let_def binary_result_def severity_simps split: if_splits)
next
  case (4 aggregate val current vals)
  then show ?thesis using assms by (auto simp: CompareExchange_def split: if_splits)
qed

lemma run_workers_ok:
  assumes "parallel_inv R s" "\<forall>r \<in> R. binary_result r"
  shows "parallel_inv R (run_workers schedule s) \<and> (fails (run_workers schedule s) \<longleftrightarrow> fails s) \<and>
    length (snd (run_workers schedule s)) = length (snd s) \<and>
    (\<forall>i < length (snd s). remaining (snd (run_workers schedule s) ! i) \<le> remaining (snd s ! i) - count_list schedule i)"
  using assms(1)
proof (induction schedule s rule: run_workers.induct)
  case (1 s)
  then show ?case by simp
next
  case (2 i schedule a ws)
  show ?case
  proof (cases "i < length ws")
    case False
    then show ?thesis using 2(2) [OF False 2(3)] by auto
  next
    case True
    obtain a' w where step: "worker_step a (ws ! i) = (a', w)" by (cases "worker_step a (ws ! i)")
    have mem: "ws ! i \<in> set ws" using True by simp
    then have ok: "worker_ok w \<and> set (pending w) \<subseteq> R \<and> (a' = Result_Success \<or> a' \<in> R \<and> IsValidationResultFailure a') \<and>
        (IsValidationResultFailure a \<longrightarrow> IsValidationResultFailure a') \<and>
        (IsValidationResultFailure a' \<or> (\<exists>r \<in> set (pending w). IsValidationResultFailure r) \<longleftrightarrow>
         IsValidationResultFailure a \<or> (\<exists>r \<in> set (pending (ws ! i)). IsValidationResultFailure r)) \<and>
        remaining w \<le> remaining (ws ! i) - 1"
      using 2(3) assms(2) by (intro worker_step_ok [OF step]) (auto simp: parallel_inv_def)
    have inv: "parallel_inv R (a', ws[i := w])"
      using ok 2(3) by (auto simp: parallel_inv_def dest!: set_update_subset_insert [THEN subsetD])
    have split: "ws = take i ws @ ws ! i # drop (Suc i) ws" using True by (simp add: id_take_nth_drop)
    have upd: "ws[i := w] = take i ws @ w # drop (Suc i) ws" using True by (simp add: upd_conv_take_nth_drop)
    have "fails (a', ws[i := w]) \<longleftrightarrow> fails (a, take i ws @ ws ! i # drop (Suc i) ws)"
      unfolding upd using ok by (auto simp: fails_def)
    then have f: "fails (a', ws[i := w]) \<longleftrightarrow> fails (a, ws)" by (simp add: split [symmetric])
    note IH = 2(1) [OF True step [symmetric] inv]
    have run: "run_workers (i # schedule) (a, ws) = run_workers schedule (a', ws[i := w])" using True step by simp
    have "remaining (snd (run_workers (i # schedule) (a, ws)) ! j) \<le> remaining (ws ! j) - count_list (i # schedule) j"
      if j: "j < length ws" for j
    proof -
      have "remaining (snd (run_workers (i # schedule) (a, ws)) ! j) \<le> remaining (ws[i := w] ! j) - count_list schedule j"
        unfolding run using IH j by simp
      moreover have "remaining w \<le> remaining (ws ! i) - 1" using ok by blast
      ultimately show ?thesis using j by (cases "i = j") (simp_all del: run_workers.simps)
    qed
    then show ?thesis using IH f unfolding run by simp
  qed
qed

lemma validation_calls_set [simp]: "set (validation_calls fs es) = {f e | e f. e \<in> set es \<and> f \<in> set fs}"
  by (auto simp: validation_calls_def)

lemma validation_calls_length [simp]: "length (validation_calls fs es) = length fs * length es"
  by (induction es) (simp_all add: validation_calls_def)

text \<open>
  C12. Short-circuit validation on worker threads: when every validation function only ever succeeds or fails, then for
  every interleaving that lets each worker take enough steps, all workers finish, the result is a failure exactly when
  some function fails for some entity, and it is then the result of such a call; otherwise it is success.
\<close>

theorem parallel_validation_correct:
  assumes "0 < numWorkerThreads"
    and "\<forall>f \<in> set fs. \<forall>e \<in> set es. binary_result (f e)"
    and "\<forall>i < numWorkerThreads. 3 * (length fs * length es) \<le> count_list schedule i"
  shows "\<exists>result ws. validateShortCircuit numWorkerThreads fs es schedule = Some (result, ws) \<and>
    (\<forall>w \<in> set ws. w = WorkerReady []) \<and>
    (IsValidationResultFailure result \<longleftrightarrow> (\<exists>e \<in> set es. \<exists>f \<in> set fs. IsValidationResultFailure (f e))) \<and>
    (result = Result_Success \<or> (\<exists>e \<in> set es. \<exists>f \<in> set fs. result = f e \<and> IsValidationResultFailure result))"
proof -
  obtain ps where ps: "parallel_partitions numWorkerThreads es = Some ps" "concat ps = es" "length ps \<le> numWorkerThreads"
    using parallel_partitions_ok [OF assms(1)] by blast
  define R where "R = {f e | e f. e \<in> set es \<and> f \<in> set fs}"
  define s where "s = (Result_Success, map (\<lambda>p. WorkerReady (validation_calls fs p)) ps)"
  have R: "\<forall>r \<in> R. binary_result r" using assms(2) by (auto simp: R_def)
  have inv: "parallel_inv R s" by (auto simp: parallel_inv_def s_def R_def ps(2) [symmetric])
  obtain result ws where run: "run_workers schedule s = (result, ws)" by (cases "run_workers schedule s")
  note ok = run_workers_ok [OF inv R, of schedule, unfolded run fst_conv snd_conv]
  have fin: "w = WorkerReady []" if w: "w \<in> set ws" for w
  proof -
    obtain i where i: "i < length ws" "w = ws ! i" using w by (auto simp: in_set_conv_nth)
    then have l: "i < length ps" using ok by (simp add: s_def)
    have "length (ps ! i) \<le> length es" using l ps(2) [symmetric] by (simp add: length_concat member_le_sum_list)
    then have "3 * (length fs * length (ps ! i)) \<le> count_list schedule i"
      using assms(3) l ps(3) by (meson le_trans less_le_trans mult_le_mono2)
    moreover have "remaining w \<le> 3 * (length fs * length (ps ! i)) - count_list schedule i"
      using ok i l by (simp add: s_def)
    ultimately show ?thesis using remaining_0 [of w] by simp
  qed
  have "pending w = []" if "w \<in> set ws" for w using fin [OF that] by simp
  then have "IsValidationResultFailure result \<longleftrightarrow> fails (result, ws)" by (auto simp: fails_def)
  also have "\<dots> \<longleftrightarrow> fails s" using ok by simp
  also have "\<dots> \<longleftrightarrow> (\<exists>e \<in> set es. \<exists>f \<in> set fs. IsValidationResultFailure (f e))"
    unfolding ps(2) [symmetric] by (auto simp: fails_def s_def)
  finally have iff: "IsValidationResultFailure result \<longleftrightarrow> (\<exists>e \<in> set es. \<exists>f \<in> set fs. IsValidationResultFailure (f e))" .
  have "result = Result_Success \<or> result \<in> R \<and> IsValidationResultFailure result"
    using ok by (simp add: parallel_inv_def)
  moreover have "validateShortCircuit numWorkerThreads fs es schedule = Some (result, ws)"
    using ps run by (simp add: validateShortCircuit_def s_def)
  ultimately show ?thesis using fin iff by (auto simp: R_def)
qed

theorem parallel_validation_witness:
  "\<exists>result ws. validateShortCircuit 2 [\<lambda>n. Result_Success, \<lambda>n. if n = 2 then Result_Failure else Result_Success]
      [1, 2, 3 :: nat] (concat (replicate 18 [0, 1])) = Some (result, ws) \<and> IsValidationResultFailure result"
proof -
  have b: "binary_result Result_Success" "binary_result Result_Failure" by (simp_all add: binary_result_def severity_simps)
  have "\<forall>i < 2 :: nat. 3 * (length [\<lambda>n. Result_Success, \<lambda>n. if n = 2 then Result_Failure else Result_Success] *
      length [1, 2, 3 :: nat]) \<le> count_list (concat (replicate 18 [0, 1])) i"
    by (auto simp: less_Suc_eq numeral_eq_Suc)
  from parallel_validation_correct [OF _ _ this] show ?thesis using b by auto
qed

text \<open>
  With neutral results the guarantee is lost: the exchange is tried only once, so a worker that loaded success before
  another one stored a neutral result drops its failure. No validator of the repository returns a neutral result.
\<close>

lemma parallel_failure_can_be_lost:
  "validateShortCircuit 2 [\<lambda>n. if n = 1 then Result_Neutral else Result_Failure] [1, 2 :: nat] [0, 1, 0, 1, 0, 1]
     = Some (Result_Neutral, [WorkerReady [], WorkerReady []])"
proof -
  have p: "parallel_partitions 2 [1, 2 :: nat] = Some [[1], [2]]"
    by (simp add: parallel_partitions.simps)
  show ?thesis
    unfolding validateShortCircuit_def p
    by (simp add: validation_calls_def severity_simps CompareExchange_def)
      (simp add: Result_Success_def Result_Neutral_def Result_Failure_def)
qed

section \<open>Pruning observers\<close>

text \<open>
  Heights are unsigned: the observer subtracts the grace period only from a height above it, so the cache never prunes
  at a height that is zero or has wrapped around; nothing is pruned on rollback.
\<close>

lemma pruning_height_bounds:
  assumes "\<not> (\<exists>h. 0 < unat h \<and> unat h = unat height - unat gracePeriod \<and> prune h cache \<noteq> cache)"
  shows "CacheBlockPruningObserver interval gracePeriod prune mode height cache = cache"
proof (rule ccontr)
  assume c: "\<not> ?thesis"
  then have g: "\<not> height \<le> gracePeriod" "prune (height - gracePeriod) cache \<noteq> cache"
    by (auto simp: CacheBlockPruningObserver_def split: if_splits)
  then have "unat (height - gracePeriod) = unat height - unat gracePeriod" "unat gracePeriod < unat height"
    by (simp_all add: unat_sub word_less_nat_alt word_le_nat_alt)
  then show False using assms g(2) by (metis zero_less_diff)
qed

end
