(* ===== verification/Namespace_Transactions.thy ===== *)
theory Namespace_Transactions
  imports Namespace_Cache Processing
begin

text \<open>
  What the namespace plugin does with transactions: the notifications a registration publishes
  (\<^verbatim>\<open>plugins/RegisterNamespaceTransactionPlugin.cpp\<close>), the validators that guard the cache
  (\<^verbatim>\<open>validators\<close>), the observers that change it (\<^verbatim>\<open>observers\<close>) and the resolvers of aliases
  (\<^verbatim>\<open>plugins/NamespacePlugin.cpp\<close>). The theory composes validators and observers into a step relation and shows
  what one accepted step does to the abstract content of the cache, the list of owners and lifetimes of every root.
\<close>

unbundle bit_operations_syntax

section \<open>Notifications\<close>

record root_namespace_notification =
  RootSigner :: key
  RootNamespaceId :: namespace_id
  RootDuration :: u64

record child_namespace_notification =
  ChildSigner :: key
  ChildNamespaceId :: namespace_id
  ChildParentId :: namespace_id

record namespace_name_notification =
  NameSigner :: key
  NameNamespaceId :: namespace_id
  NameParentId :: namespace_id
  NameBytes :: "u8 list"

record alias_owner_notification =
  AliasOwner :: key
  AliasOwnerNamespaceId :: namespace_id
  AliasOwnerAction :: link_action

text \<open>The aliased data is a mosaic id or an address.\<close>

record aliased_data_notification =
  AliasedNamespaceId :: namespace_id
  AliasedAction :: link_action
  AliasedData :: namespace_alias

record namespace_required_notification =
  RequiredOwner :: key
  RequiredNamespaceId :: namespace_id

datatype namespace_notification =
    AccountPublicKeyNotification key
  | BalanceTransferNotification key address mosaic_id amount
  | NamespaceRentalFeeNotification key address mosaic_id amount
  | NamespaceTypeNotification u8
  | RootNamespaceNotification root_namespace_notification
  | ChildNamespaceNotification child_namespace_notification
  | NamespaceNameNotification namespace_name_notification

section \<open>Publishing a registration\<close>

text \<open>The parent id and the duration are one field of the transaction (a union).\<close>

record register_namespace_transaction =
  TxEntityVersion :: u32
  TxSigner :: key
  TxNamespaceType :: u8
  TxParentIdOrDuration :: u64
  TxNamespaceId :: namespace_id
  TxName :: "u8 list"

record rental_fee_config =
  SinkPublicKey :: key
  CurrencyMosaicId :: mosaic_id
  SinkAddress :: address
  RootFeePerBlock :: amount
  ChildFee :: amount
  NemesisPublicKey :: key

definition Eternal_Artifact_Duration :: u64 where "Eternal_Artifact_Duration = 0"

definition IsRootRegistration :: "register_namespace_transaction \<Rightarrow> bool" where
  "IsRootRegistration tx \<longleftrightarrow> 0 = TxNamespaceType tx"

definition PublishBalanceTransfer ::
  "rental_fee_config \<Rightarrow> register_namespace_transaction \<Rightarrow> namespace_notification list" where
  "PublishBalanceTransfer cfg tx =
     (if TxEntityVersion tx \<noteq> 2 then []
      else if NemesisPublicKey cfg = TxSigner tx then []
      else if IsRootRegistration tx \<and> Eternal_Artifact_Duration = TxParentIdOrDuration tx then []
      else
        let rentalFee = (if IsRootRegistration tx then RootFeePerBlock cfg * TxParentIdOrDuration tx else ChildFee cfg)
        in [BalanceTransferNotification (TxSigner tx) (SinkAddress cfg) (CurrencyMosaicId cfg) rentalFee,
            NamespaceRentalFeeNotification (TxSigner tx) (SinkAddress cfg) (CurrencyMosaicId cfg) rentalFee])"

definition publish_register :: "rental_fee_config \<Rightarrow> register_namespace_transaction \<Rightarrow> namespace_notification list" where
  "publish_register cfg tx =
     (if TxEntityVersion tx = 2
      then [AccountPublicKeyNotification (SinkPublicKey cfg)] @
           PublishBalanceTransfer cfg tx @
           [NamespaceTypeNotification (TxNamespaceType tx)] @
           (let parentId = Namespace_Base_Id;
                (registration, parentId) =
                  (if IsRootRegistration tx
                   then (RootNamespaceNotification
                           \<lparr>RootSigner = TxSigner tx, RootNamespaceId = TxNamespaceId tx, RootDuration = TxParentIdOrDuration tx\<rparr>,
                         parentId)
                   else (ChildNamespaceNotification
                           \<lparr>ChildSigner = TxSigner tx, ChildNamespaceId = TxNamespaceId tx, ChildParentId = TxParentIdOrDuration tx\<rparr>,
                         TxParentIdOrDuration tx))
            in [registration,
                NamespaceNameNotification
                  \<lparr>NameSigner = TxSigner tx, NameNamespaceId = TxNamespaceId tx, NameParentId = parentId, NameBytes = TxName tx\<rparr>])
      else [])"

section \<open>Validators\<close>

definition namespace_failure :: "u16 \<Rightarrow> validation_result" where
  "namespace_failure code = MakeValidationResult SeverityFailure 0x4E code 0"

definition Failure_Namespace_Invalid_Duration :: validation_result where "Failure_Namespace_Invalid_Duration = namespace_failure 1"
definition Failure_Namespace_Invalid_Name :: validation_result where "Failure_Namespace_Invalid_Name = namespace_failure 2"
definition Failure_Namespace_Name_Id_Mismatch :: validation_result where "Failure_Namespace_Name_Id_Mismatch = namespace_failure 3"
definition Failure_Namespace_Expired :: validation_result where "Failure_Namespace_Expired = namespace_failure 4"
definition Failure_Namespace_Owner_Conflict :: validation_result where "Failure_Namespace_Owner_Conflict = namespace_failure 5"
definition Failure_Namespace_Invalid_Namespace_Type :: validation_result where "Failure_Namespace_Invalid_Namespace_Type = namespace_failure 100"
definition Failure_Namespace_Root_Name_Reserved :: validation_result where "Failure_Namespace_Root_Name_Reserved = namespace_failure 101"
definition Failure_Namespace_Too_Deep :: validation_result where "Failure_Namespace_Too_Deep = namespace_failure 102"
definition Failure_Namespace_Parent_Unknown :: validation_result where "Failure_Namespace_Parent_Unknown = namespace_failure 103"
definition Failure_Namespace_Already_Exists :: validation_result where "Failure_Namespace_Already_Exists = namespace_failure 150"
definition Failure_Namespace_Eternal_After_Nemesis_Block :: validation_result where "Failure_Namespace_Eternal_After_Nemesis_Block = namespace_failure 152"
definition Failure_Namespace_Max_Children_Exceeded :: validation_result where "Failure_Namespace_Max_Children_Exceeded = namespace_failure 153"
definition Failure_Namespace_Alias_Namespace_Unknown :: validation_result where "Failure_Namespace_Alias_Namespace_Unknown = namespace_failure 171"
definition Failure_Namespace_Alias_Already_Exists :: validation_result where "Failure_Namespace_Alias_Already_Exists = namespace_failure 172"
definition Failure_Namespace_Alias_Does_Not_Exist :: validation_result where "Failure_Namespace_Alias_Does_Not_Exist = namespace_failure 173"
definition Failure_Namespace_Alias_Owner_Conflict :: validation_result where "Failure_Namespace_Alias_Owner_Conflict = namespace_failure 174"
definition Failure_Namespace_Alias_Unlink_Type_Inconsistency :: validation_result where "Failure_Namespace_Alias_Unlink_Type_Inconsistency = namespace_failure 175"
definition Failure_Namespace_Alias_Unlink_Data_Inconsistency :: validation_result where "Failure_Namespace_Alias_Unlink_Data_Inconsistency = namespace_failure 176"
definition Failure_Namespace_Unknown :: validation_result where "Failure_Namespace_Unknown = namespace_failure 200"

definition NamespaceType_validator :: "u8 \<Rightarrow> validation_result" where
  "NamespaceType_validator namespaceType =
     (if namespaceType \<le> 1 then Result_Success else Failure_Namespace_Invalid_Namespace_Type)"

definition IsAlphaNumeric :: "u8 \<Rightarrow> bool" where
  "IsAlphaNumeric ch \<longleftrightarrow> 0x61 \<le> ch \<and> ch \<le> 0x7A \<or> 0x30 \<le> ch \<and> ch \<le> 0x39"

definition IsValidChar :: "u8 \<Rightarrow> bool" where
  "IsValidChar ch \<longleftrightarrow> IsAlphaNumeric ch \<or> 0x2D = ch \<or> 0x5F = ch"

definition IsValidName :: "u8 list \<Rightarrow> bool" where
  "IsValidName name = (case name of [] \<Rightarrow> False | c # cs \<Rightarrow> IsAlphaNumeric c \<and> list_all IsValidChar cs)"

text \<open>
  The id of a namespace is read from the SHA3 hash of the parent's id and the name, with the highest bit set;
  \<open>idHash\<close> stands for the hash read as a number.
\<close>

definition GenerateNamespaceId :: "(namespace_id \<Rightarrow> u8 list \<Rightarrow> u64) \<Rightarrow> namespace_id \<Rightarrow> u8 list \<Rightarrow> namespace_id" where
  "GenerateNamespaceId idHash parentId name = idHash parentId name OR push_bit 63 1"

definition NamespaceName_validator ::
  "(namespace_id \<Rightarrow> u8 list \<Rightarrow> u64) \<Rightarrow> namespace_config \<Rightarrow> namespace_name_notification \<Rightarrow> validation_result" where
  "NamespaceName_validator idHash cfg n =
     (let reservedRootIds = map (GenerateNamespaceId idHash Namespace_Base_Id) (reservedRootNamespaceNames cfg)
      in if unat (maxNameSize cfg) < length (NameBytes n) \<or> \<not> IsValidName (NameBytes n)
         then Failure_Namespace_Invalid_Name
         else if NameNamespaceId n \<noteq> GenerateNamespaceId idHash (NameParentId n) (NameBytes n)
         then Failure_Namespace_Name_Id_Mismatch
         else
           let namespaceId = (if Namespace_Base_Id = NameParentId n then NameNamespaceId n else NameParentId n)
           in if namespaceId \<in> set reservedRootIds \<and> NameSigner n \<noteq> networkPublicKey cfg
              then Failure_Namespace_Root_Name_Reserved else Result_Success)"

definition RootNamespace_validator :: "namespace_config \<Rightarrow> root_namespace_notification \<Rightarrow> validation_result" where
  "RootNamespace_validator cfg n =
     (if maxNamespaceDuration cfg < RootDuration n then Failure_Namespace_Invalid_Duration else Result_Success)"

definition IsEternal :: "namespace_lifetime \<Rightarrow> bool" where
  "IsEternal l \<longleftrightarrow> End l = - 1"

definition RootNamespaceAvailability_validator ::
  "namespace_config \<Rightarrow> height \<Rightarrow> root_namespace_notification \<Rightarrow> namespace_cache \<Rightarrow> validation_result result" where
  "RootNamespaceAvailability_validator cfg height n c =
     (let isEternalDurationSignedByNotNetworkPublicKey =
            (Eternal_Artifact_Duration = RootDuration n \<and> RootSigner n \<noteq> networkPublicKey cfg)
      in if 1 \<noteq> height \<and> isEternalDurationSignedByNotNetworkPublicKey
         then Inr Failure_Namespace_Eternal_After_Nemesis_Block
         else if \<not> cache_contains (RootNamespaceId n) c then Inr Result_Success
         else res_bind (cache_find (RootNamespaceId n) c) (\<lambda>(ns, h).
           let root = hist_back h
           in if IsEternal (rn_lifetime root) \<or> isEternalDurationSignedByNotNetworkPublicKey
              then Inr Failure_Namespace_Invalid_Duration
              else if \<not> isActiveOrGracePeriod (rn_lifetime root) height then Inr Result_Success
              else Inr (if rn_owner root = RootSigner n then Result_Success else Failure_Namespace_Owner_Conflict)))"

definition AddOverflows :: "height \<Rightarrow> u64 \<Rightarrow> bool" where
  "AddOverflows height duration \<longleftrightarrow> height + duration < height"

definition CalculateMaxLifetimeEnd :: "height \<Rightarrow> u64 \<Rightarrow> height" where
  "CalculateMaxLifetimeEnd height duration = (if AddOverflows height duration then - 1 else height + duration)"

definition constraints_maxNamespaceDuration :: "namespace_config \<Rightarrow> u64" where
  "constraints_maxNamespaceDuration cfg = maxNamespaceDuration cfg + gracePeriodDuration cfg"

definition NamespaceDurationOverflow_validator ::
  "namespace_config \<Rightarrow> height \<Rightarrow> root_namespace_notification \<Rightarrow> namespace_cache \<Rightarrow> validation_result result" where
  "NamespaceDurationOverflow_validator cfg height n c =
     (if AddOverflows height (RootDuration n) then Inr Failure_Namespace_Invalid_Duration
      else if \<not> cache_contains (RootNamespaceId n) c then Inr Result_Success
      else res_bind (cache_find (RootNamespaceId n) c) (\<lambda>(ns, h).
        let root = hist_back h
        in if \<not> isActiveOrGracePeriod (rn_lifetime root) height then Inr Result_Success
           else if AddOverflows (End (rn_lifetime root)) (RootDuration n) then Inr Failure_Namespace_Invalid_Duration
           else
             let newLifetimeEnd = End (rn_lifetime root) + RootDuration n;
                 maxLifetimeEnd = CalculateMaxLifetimeEnd height (constraints_maxNamespaceDuration cfg)
             in Inr (if maxLifetimeEnd < newLifetimeEnd then Failure_Namespace_Invalid_Duration else Result_Success)))"

definition ChildNamespaceAvailability_validator ::
  "height \<Rightarrow> child_namespace_notification \<Rightarrow> namespace_cache \<Rightarrow> validation_result result" where
  "ChildNamespaceAvailability_validator height n c =
     (if cache_contains (ChildNamespaceId n) c then Inr Failure_Namespace_Already_Exists
      else if \<not> cache_contains (ChildParentId n) c then Inr Failure_Namespace_Parent_Unknown
      else res_bind (cache_find (ChildParentId n) c) (\<lambda>(parentPath, h).
        let root = hist_back h
        in if length parentPath = Namespace_Max_Depth then Inr Failure_Namespace_Too_Deep
           else if \<not> isActiveAndUnlocked (rn_lifetime root) height then Inr Failure_Namespace_Expired
           else if rn_owner root \<noteq> ChildSigner n then Inr Failure_Namespace_Owner_Conflict
           else Inr Result_Success))"

definition RootNamespaceMaxChildren_validator ::
  "namespace_config \<Rightarrow> child_namespace_notification \<Rightarrow> namespace_cache \<Rightarrow> validation_result result" where
  "RootNamespaceMaxChildren_validator cfg n c =
     res_bind (cache_find (ChildParentId n) c) (\<lambda>(ns, h).
     Inr (if unat (maxChildNamespaces cfg) \<le> length (children_of h (hist_back h))
          then Failure_Namespace_Max_Children_Exceeded else Result_Success))"

text \<open>\<^verbatim>\<open>find\<close> returns an iterator without entry for an unknown namespace.\<close>

definition RequiredNamespace_validator ::
  "height \<Rightarrow> namespace_required_notification \<Rightarrow> namespace_cache \<Rightarrow> validation_result result" where
  "RequiredNamespace_validator height n c =
     (if \<not> cache_contains (RequiredNamespaceId n) c then Inr Failure_Namespace_Unknown
      else res_bind (cache_find (RequiredNamespaceId n) c) (\<lambda>(ns, h).
        Inr (if \<not> isActiveOrGracePeriod (rn_lifetime (hist_back h)) height then Failure_Namespace_Expired
             else if rn_owner (hist_back h) = RequiredOwner n then Result_Success
             else Failure_Namespace_Owner_Conflict)))"

definition AliasAvailability_validator ::
  "height \<Rightarrow> alias_owner_notification \<Rightarrow> namespace_cache \<Rightarrow> validation_result result" where
  "AliasAvailability_validator height n c =
     (if \<not> cache_contains (AliasOwnerNamespaceId n) c then Inr Failure_Namespace_Alias_Namespace_Unknown
      else res_bind (cache_find (AliasOwnerNamespaceId n) c) (\<lambda>(ns, h).
        let root = hist_back h
        in if \<not> isActiveAndUnlocked (rn_lifetime root) height then Inr Failure_Namespace_Expired
           else res_bind (root_alias (children_of h root) root (AliasOwnerNamespaceId n)) (\<lambda>alias.
             Inr (if Link = AliasOwnerAction n \<and> alias \<noteq> NoAlias then Failure_Namespace_Alias_Already_Exists
                  else if Unlink = AliasOwnerAction n \<and> alias = NoAlias then Failure_Namespace_Alias_Does_Not_Exist
                  else if rn_owner root = AliasOwner n then Result_Success
                  else Failure_Namespace_Alias_Owner_Conflict))))"

fun same_alias_type :: "namespace_alias \<Rightarrow> namespace_alias \<Rightarrow> bool" where
  "same_alias_type NoAlias NoAlias = True"
| "same_alias_type (MosaicAlias _) (MosaicAlias _) = True"
| "same_alias_type (AddressAlias _) (AddressAlias _) = True"
| "same_alias_type _ _ = False"

definition UnlinkAliasedDataConsistency_validator ::
  "aliased_data_notification \<Rightarrow> namespace_cache \<Rightarrow> validation_result result" where
  "UnlinkAliasedDataConsistency_validator n c =
     (if Unlink \<noteq> AliasedAction n then Inr Result_Success
      else if \<not> cache_contains (AliasedNamespaceId n) c then Inr Failure_Namespace_Alias_Namespace_Unknown
      else res_bind (cache_find (AliasedNamespaceId n) c) (\<lambda>(ns, h).
        res_bind (root_alias (children_of h (hist_back h)) (hist_back h) (AliasedNamespaceId n)) (\<lambda>alias.
        Inr (if \<not> same_alias_type (AliasedData n) alias then Failure_Namespace_Alias_Unlink_Type_Inconsistency
             else if alias \<noteq> AliasedData n then Failure_Namespace_Alias_Unlink_Data_Inconsistency
             else Result_Success))))"

section \<open>Observers\<close>

definition IsRenewal :: "root_namespace \<Rightarrow> root_namespace_notification \<Rightarrow> height \<Rightarrow> bool" where
  "IsRenewal root n height \<longleftrightarrow> isActiveOrGracePeriod (rn_lifetime root) height \<and> rn_owner root = RootSigner n"

definition LifetimeEnd :: "height \<Rightarrow> u64 \<Rightarrow> height" where
  "LifetimeEnd height duration = (if Eternal_Artifact_Duration = duration then - 1 else height + duration)"

definition RootNamespace_observer ::
  "namespace_config \<Rightarrow> notify_mode \<Rightarrow> height \<Rightarrow> root_namespace_notification \<Rightarrow> namespace_cache \<Rightarrow> namespace_cache result" where
  "RootNamespace_observer cfg mode height n c =
     (if Rollback = mode then cache_remove (RootNamespaceId n) c
      else
        res_bind (NamespaceLifetime height (LifetimeEnd height (RootDuration n)) 0) (\<lambda>lifetime.
        res_bind
          (if cache_contains (RootNamespaceId n) c
           then res_bind (cache_find (RootNamespaceId n) c) (\<lambda>(ns, h).
             if IsRenewal (hist_back h) n height
             then let lifetime = (rn_lifetime (hist_back h))
                        \<lparr>End := LifetimeEnd (End (rn_lifetime (hist_back h))) (RootDuration n)\<rparr>
                  in if AliasFixVersion_observer \<le> blockchainVersion cfg
                     then res_bind (root_alias (children_of h (hist_back h)) (hist_back h) (RootNamespaceId n)) (\<lambda>alias.
                       Inr (lifetime, alias))
                     else Inr (lifetime, NoAlias)
             else Inr (lifetime, NoAlias))
           else Inr (lifetime, NoAlias)) (\<lambda>(lifetime, alias).
        res_bind (cache_insert_root cfg (RootNamespaceId n) (RootSigner n) lifetime c) (\<lambda>c.
        case alias of
          NoAlias \<Rightarrow> Inr c
        | _ \<Rightarrow> cache_setAlias (RootNamespaceId n) alias c))))"

definition ChildNamespace_observer ::
  "notify_mode \<Rightarrow> child_namespace_notification \<Rightarrow> namespace_cache \<Rightarrow> namespace_cache result" where
  "ChildNamespace_observer mode n c =
     (if Rollback = mode then cache_remove (ChildNamespaceId n) c
      else
        res_bind (cache_find (ChildParentId n) c) (\<lambda>(parentPath, h).
        res_bind (path_push parentPath (ChildNamespaceId n)) (\<lambda>childPath.
        res_bind (make_namespace childPath) (\<lambda>ns. cache_insert_child ns c))))"

definition AliasedObserverHandler ::
  "notify_mode \<Rightarrow> aliased_data_notification \<Rightarrow> namespace_cache \<Rightarrow> namespace_cache result" where
  "AliasedObserverHandler mode n c =
     (if ShouldLink (AliasedAction n) mode then cache_setAlias (AliasedNamespaceId n) (AliasedData n) c
      else cache_setAlias (AliasedNamespaceId n) NoAlias c)"

section \<open>Resolvers\<close>

definition RunNamespaceResolver ::
  "namespace_cache \<Rightarrow> namespace_id \<Rightarrow> (namespace_alias \<Rightarrow> bool) \<Rightarrow> namespace_alias option result" where
  "RunNamespaceResolver c namespaceId hasType =
     (if \<not> cache_contains namespaceId c then Inr None
      else res_bind (cache_find namespaceId c) (\<lambda>(ns, h).
        res_bind (root_alias (children_of h (hist_back h)) (hist_back h) namespaceId) (\<lambda>alias.
        Inr (if hasType alias then Some alias else None))))"

definition Namespace_Flag :: u64 where "Namespace_Flag = push_bit 63 1"

text \<open>The two mosaic resolvers, tried in the order in which the plugin registers them.\<close>

definition resolve_mosaic :: "namespace_cache \<Rightarrow> u64 \<Rightarrow> mosaic_id option result" where
  "resolve_mosaic c unresolved =
     (if 0 = Namespace_Flag AND unresolved then Inr (Some unresolved)
      else res_bind (RunNamespaceResolver c unresolved (\<lambda>a. case a of MosaicAlias _ \<Rightarrow> True | _ \<Rightarrow> False)) (\<lambda>r.
        case r of None \<Rightarrow> Inr None | Some alias \<Rightarrow> res_bind (alias_mosaicId alias) (\<lambda>m. Inr (Some m))))"

section \<open>Who holds a namespace\<close>

text \<open>The abstract content of the cache: for every root id the owners and lifetimes of its roots, oldest first.\<close>

type_synonym tenure = "key \<times> namespace_lifetime"

definition tenures :: "root_namespace_history \<Rightarrow> tenure list" where
  "tenures h = map (\<lambda>r. (rn_owner r, rn_lifetime r)) (m_rootHistory h)"

definition holders :: "namespace_cache \<Rightarrow> namespace_id \<rightharpoonup> tenure list" where
  "holders c i = map_option tenures (m_historyById c i)"

definition tenure_expired :: "height \<Rightarrow> tenure \<Rightarrow> bool" where
  "tenure_expired height t \<longleftrightarrow> GracePeriodEnd (snd t) \<le> height"

lemma holders_put: "m_historyById c' = (m_historyById c)(i \<mapsto> h) \<Longrightarrow> holders c' = (holders c)(i \<mapsto> tenures h)"
  by (auto simp: holders_def fun_eq_iff)

lemma tenures_last: "hist_inv h \<Longrightarrow> tenures h \<noteq> [] \<and> last (tenures h) = (rn_owner (hist_back h), rn_lifetime (hist_back h))"
  by (simp add: tenures_def hist_inv_def hist_back_def last_map)

lemma tenures_push:
  assumes "hist_inv h"
  shows "tenures (hist_push_back owner l b h) = tenures h @ [(owner, l)]"
  by (simp add: tenures_def push_back_view [OF assms])

lemma NamespaceLifetime_Inr:
  assumes "NamespaceLifetime s e g = Inr l"
  shows "Start l = s" "End l = e" "GracePeriodEnd l = (if e = - 1 then - 1 else e + g)" "e \<le> GracePeriodEnd l" "s < e"
  using assms by (auto simp: NamespaceLifetime_def Let_def not_le not_less split: if_splits)

abbreviation expiry_groups_of :: "namespace_cache \<Rightarrow> (height, namespace_id) grouped_set" where
  "expiry_groups_of c \<equiv> m_rootNamespaceIdsByExpiryHeight c"

lemma insert_root_history:
  assumes c: "cache_inv root_of c" and ins: "cache_insert_root cfg nid owner lifetime c = Inr c'"
  obtains l b where "NamespaceLifetime (Start lifetime) (End lifetime) (gracePeriodDuration cfg) = Inr l"
    "m_historyById c' = (m_historyById c)(nid \<mapsto>
       hist_push_back owner l b (case m_historyById c nid of None \<Rightarrow> RootNamespaceHistory nid | Some h \<Rightarrow> h))"
    "expiry_groups_of c' = AddIdentifierWithGroup (expiry_groups_of c) (GracePeriodEnd l) nid"
proof -
  obtain l where l: "NamespaceLifetime (Start lifetime) (End lifetime) (gracePeriodDuration cfg) = Inr l"
    using ins by (auto simp: cache_insert_root_def res_bind_Inr_iff)
  let ?b = "AliasFixVersion_cache \<le> blockchainVersion cfg"
  have "m_historyById c' = (m_historyById c)(nid \<mapsto>
       hist_push_back owner l ?b (case m_historyById c nid of None \<Rightarrow> RootNamespaceHistory nid | Some h \<Rightarrow> h)) \<and>
     expiry_groups_of c' = AddIdentifierWithGroup (expiry_groups_of c) (GracePeriodEnd l) nid"
  proof (cases "m_historyById c nid")
    case None
    then show ?thesis
      using ins l by (auto simp: cache_insert_root_def Let_def put_history_def incrementDeepSize_def incrementActiveSize_def
          res_bind_Inr_iff hist_push_back_def RootNamespaceHistory_def hist_empty_def)
  next
    case (Some h)
    then show ?thesis
      using ins l cache_invD(1) [OF c Some]
      by (auto simp: cache_insert_root_def Let_def put_history_def incrementDeepSize_def decrementActiveSize_def hist_push_back_def)
  qed
  then show thesis using that l by blast
qed

lemma tenures_new: "tenures (hist_push_back owner l b (RootNamespaceHistory nid)) = [(owner, l)]"
  by (simp add: tenures_def hist_push_back_def RootNamespaceHistory_def hist_empty_def RootNamespace_def)

lemma holders_insert_root:
  assumes c: "cache_inv root_of c" and ins: "cache_insert_root cfg nid owner lifetime c = Inr c'"
  obtains l where "NamespaceLifetime (Start lifetime) (End lifetime) (gracePeriodDuration cfg) = Inr l"
    "holders c' = (holders c)(nid \<mapsto> (case holders c nid of None \<Rightarrow> [] | Some ts \<Rightarrow> ts) @ [(owner, l)])"
    "expiry_groups_of c' = AddIdentifierWithGroup (expiry_groups_of c) (GracePeriodEnd l) nid"
proof -
  obtain l b where l: "NamespaceLifetime (Start lifetime) (End lifetime) (gracePeriodDuration cfg) = Inr l"
    and h: "m_historyById c' = (m_historyById c)(nid \<mapsto>
       hist_push_back owner l b (case m_historyById c nid of None \<Rightarrow> RootNamespaceHistory nid | Some h \<Rightarrow> h))"
    and g: "expiry_groups_of c' = AddIdentifierWithGroup (expiry_groups_of c) (GracePeriodEnd l) nid"
    by (rule insert_root_history [OF c ins])
  have "tenures (hist_push_back owner l b (case m_historyById c nid of None \<Rightarrow> RootNamespaceHistory nid | Some h \<Rightarrow> h)) =
      (case holders c nid of None \<Rightarrow> [] | Some ts \<Rightarrow> ts) @ [(owner, l)]"
    using cache_invD(2) [OF c, of nid] by (cases "m_historyById c nid") (simp_all add: holders_def tenures_push tenures_new)
  then show thesis using that [OF l _ g] holders_put [OF h] by simp
qed

lemma tenures_back_store: "tenures (h\<lparr>h_store := x\<rparr>) = tenures h"
  by (simp add: tenures_def)

lemma holders_same: "holders c i = Some (tenures h) \<Longrightarrow> (holders c)(i \<mapsto> tenures h) = holders c"
  by (simp add: fun_upd_idem)

lemma holders_insert_child:
  assumes c: "cache_inv root_of c" and ins: "cache_insert_child ns c = Inr c'"
  shows "holders c' = holders c" "expiry_groups_of c' = expiry_groups_of c"
proof -
  show "expiry_groups_of c' = expiry_groups_of c"
    using ins by (auto simp: cache_insert_child_def res_bind_Inr_iff put_history_def incrementDeepSize_def
        incrementActiveSize_def Let_def split: option.splits)
  obtain h h' where h: "m_historyById c (ns_rootId ns) = Some h" "back_add ns h = Inr h'"
    and c': "m_historyById c' = (m_historyById c)(h_id h' \<mapsto> h')"
    using ins by (auto simp: cache_insert_child_def res_bind_Inr_iff put_history_def incrementDeepSize_def
        incrementActiveSize_def Let_def split: option.splits)
  have "h_id h' = h_id h" "tenures h' = tenures h"
    using h(2) by (auto simp: back_add_def res_bind_Inr_iff tenures_back_store)
  then show "holders c' = holders c" using holders_put [OF c'] cache_invD(1) [OF c h(1)] h(1)
    by (simp add: holders_same holders_def [of c] fun_eq_iff)
qed

lemma holders_setAlias:
  assumes c: "cache_inv root_of c" and set: "cache_setAlias i a c = Inr c'"
  shows "holders c' = holders c" "expiry_groups_of c' = expiry_groups_of c"
proof -
  show "expiry_groups_of c' = expiry_groups_of c"
    using set by (auto simp: cache_setAlias_def res_bind_Inr_iff put_history_def split: option.splits)
  obtain p h h' where h: "m_historyById c (ns_rootId p) = Some h" "back_setAlias i a h = Inr h'"
    and c': "m_historyById c' = (m_historyById c)(h_id h' \<mapsto> h')"
    using set by (auto simp: cache_setAlias_def res_bind_Inr_iff put_history_def split: option.splits)
  note hh = cache_invD [OF c h(1)]
  have "h_id h' = h_id h" by (rule back_setAlias_inv(2) [OF hh(2) h(2)])
  moreover have "tenures h' = tenures h"
    using h(2) history_split [OF hh(2)]
    by (auto simp: back_setAlias_def res_bind_Inr_iff root_setAlias_def tenures_def hist_back_def split: if_splits)
      (metis (no_types, lifting) list.simps(8,9) map_append)+
  ultimately show "holders c' = holders c" using holders_put [OF c'] hh(1) h(1)
    by (simp add: holders_def [of c] fun_eq_iff)
qed

text \<open>Pruning forgets the expired roots of the histories it visits, and a history of which nothing is left.\<close>

definition prune_tenures :: "height \<Rightarrow> tenure list \<Rightarrow> tenure list option" where
  "prune_tenures height ts =
     (let ts' = dropWhile (tenure_expired height) ts in if ts' = [] then None else Some ts')"

lemma holders_prune_history:
  assumes c: "cache_inv root_of c" and h: "m_historyById c i = Some h"
  shows "holders (fst (prune_history height h (c, ids))) = (holders c)(i := prune_tenures height (tenures h))"
proof -
  note hh = cache_invD [OF c h]
  have t: "tenures (fst (hist_prune height h)) = dropWhile (tenure_expired height) (tenures h)"
    unfolding hist_prune_eq(1) [OF hh(2)]
    by (simp add: tenures_def dropWhile_map comp_def tenure_expired_def expired_def [abs_def])
  obtain h' removed where p: "hist_prune height h = (h', removed)" by (cases "hist_prune height h")
  have "h_id h' = i" using hist_prune_eq(1) [OF hh(2), of height] p hh(1) by simp
  then have m: "m_historyById (fst (prune_history height h (c, ids))) = (m_historyById c)(i := (if hist_empty h' then None else Some h'))"
    by (auto simp: prune_history_def p Let_def put_history_def)
  have "hist_empty h' \<longleftrightarrow> tenures h' = []" by (simp add: hist_empty_def tenures_def)
  moreover have "tenures h' = dropWhile (tenure_expired height) (tenures h)" using t p by simp
  ultimately have "map_option tenures (if hist_empty h' then None else Some h') = prune_tenures height (tenures h)"
    unfolding prune_tenures_def Let_def by (simp only: if_distrib [of "map_option tenures"] option.map split: if_split)
  then show ?thesis unfolding holders_def m by (auto simp: fun_eq_iff split: if_splits)
qed

definition pruned_from :: "height \<Rightarrow> tenure list option \<Rightarrow> tenure list option \<Rightarrow> bool" where
  "pruned_from height before after \<longleftrightarrow> after = before \<or> after = Option.bind before (prune_tenures height)"

lemma prune_tenures_twice: "prune_tenures k ts = Some ts' \<Longrightarrow> prune_tenures k ts' = Some ts'"
proof -
  have "dropWhile P (dropWhile P xs) = dropWhile P xs" for P and xs :: "tenure list" by (induction xs) auto
  then show "prune_tenures k ts = Some ts' \<Longrightarrow> prune_tenures k ts' = Some ts'"
    unfolding prune_tenures_def Let_def by (metis option.distinct(1) option.inject)
qed

lemma pruned_from_trans:
  assumes "pruned_from k a b" "pruned_from k b c"
  shows "pruned_from k a c"
proof (cases a)
  case (Some ts)
  then show ?thesis using assms prune_tenures_twice [of k ts]
    by (cases "prune_tenures k ts") (auto simp: pruned_from_def)
qed (use assms in \<open>auto simp: pruned_from_def\<close>)

lemma holders_prune:
  assumes "cache_inv root_of c"
  shows "pruned_from height (holders c i) (holders (fst (cache_prune height c)) i)"
proof -
  have "pruned_from height (holders (fst s) i)
      (holders (fst (for_each_identifier (\<lambda>s. m_historyById (fst s)) (prune_history height) xs s)) i)"
    if "cache_inv root_of (fst s)" for xs s
    using that
  proof (induction xs arbitrary: s)
    case Nil
    then show ?case by (simp add: pruned_from_def)
  next
    case (Cons x xs)
    show ?case
    proof (cases "m_historyById (fst s) x")
      case None
      then show ?thesis using Cons by simp
    next
      case (Some h)
      let ?s = "prune_history height h s"
      have s: "s = (fst s, snd s)" by simp
      have "pruned_from height (holders (fst s) i) (holders (fst ?s) i)"
        using holders_prune_history [OF Cons.prems Some, of height "snd s"] Some
        by (simp add: pruned_from_def holders_def [of "fst s"])
      moreover have "cache_inv root_of (fst ?s)" using prune_history_inv [OF Cons.prems Some, of height "snd s"] by simp
      ultimately show ?thesis using Cons.IH [of ?s] Some by (simp add: pruned_from_trans)
    qed
  qed
  from this [of "(c, {})"] assms show ?thesis
    by (simp add: cache_prune_def ForEachIdentifierWithGroup_def pruned_from_def split: option.split)
qed

lemma groups_prune: "expiry_groups_of (fst (cache_prune height c)) = expiry_groups_of c"
proof -
  have "expiry_groups_of (fst (prune_history height h s)) = expiry_groups_of (fst s)" for h s
    by (cases s) (simp add: prune_history_def put_history_def Let_def split: prod.split)
  then have "expiry_groups_of (fst (for_each_identifier (\<lambda>s. m_historyById (fst s)) (prune_history height) xs s))
      = expiry_groups_of (fst s)" for xs s
    by (induction xs arbitrary: s) (simp_all split: option.split)
  then show ?thesis by (simp add: cache_prune_def ForEachIdentifierWithGroup_def split: option.split)
qed

section \<open>Accepted transactions\<close>

text \<open>
  One step of a chain: at a height, validators that accept, then the observer; or the pruning observer, which runs for
  every block with the maximum rollback depth as grace period. Ids are hashes of the parent's id and the name, so the
  id of a root is its own root and a child's id has the root of its parent.
\<close>

inductive namespace_step ::
  "namespace_config \<Rightarrow> (namespace_id \<Rightarrow> namespace_id) \<Rightarrow> height \<Rightarrow> namespace_cache \<Rightarrow> namespace_cache \<Rightarrow> bool"
  for cfg :: namespace_config and root_of :: "namespace_id \<Rightarrow> namespace_id" and height :: height where
  register_root: "\<lbrakk>RootNamespaceAvailability_validator cfg height n c = Inr Result_Success;
     NamespaceDurationOverflow_validator cfg height n c = Inr Result_Success;
     root_of (RootNamespaceId n) = RootNamespaceId n;
     RootNamespace_observer cfg Commit height n c = Inr c'\<rbrakk> \<Longrightarrow> namespace_step cfg root_of height c c'"
| register_child: "\<lbrakk>ChildNamespaceAvailability_validator height n c = Inr Result_Success;
     RootNamespaceMaxChildren_validator cfg n c = Inr Result_Success;
     root_of (ChildNamespaceId n) = root_of (ChildParentId n);
     ChildNamespace_observer Commit n c = Inr c'\<rbrakk> \<Longrightarrow> namespace_step cfg root_of height c c'"
| change_alias: "\<lbrakk>AliasAvailability_validator height
        \<lparr>AliasOwner = owner, AliasOwnerNamespaceId = AliasedNamespaceId n, AliasOwnerAction = AliasedAction n\<rparr> c
        = Inr Result_Success;
     UnlinkAliasedDataConsistency_validator n c = Inr Result_Success;
     AliasedObserverHandler Commit n c = Inr c'\<rbrakk> \<Longrightarrow> namespace_step cfg root_of height c c'"
| prune_block: "c' = CacheBlockPruningObserver 1 maxRollbackBlocks (\<lambda>h c. fst (cache_prune h c)) Commit height c
     \<Longrightarrow> namespace_step cfg root_of height c c'"

text \<open>The nemesis block has height one; heights never decrease.\<close>

inductive namespace_reachable ::
  "namespace_config \<Rightarrow> (namespace_id \<Rightarrow> namespace_id) \<Rightarrow> height \<Rightarrow> namespace_cache \<Rightarrow> bool"
  for cfg :: namespace_config and root_of :: "namespace_id \<Rightarrow> namespace_id" where
  start: "namespace_reachable cfg root_of 1 empty_namespace_cache"
| step: "\<lbrakk>namespace_reachable cfg root_of height c; height \<le> height'; namespace_step cfg root_of height' c c'\<rbrakk>
     \<Longrightarrow> namespace_reachable cfg root_of height' c'"

definition lifetime_ok :: "u64 \<Rightarrow> height \<Rightarrow> namespace_lifetime \<Rightarrow> bool" where
  "lifetime_ok g height l \<longleftrightarrow> Start l \<le> height \<and> Start l < End l \<and> End l \<le> GracePeriodEnd l \<and>
     GracePeriodEnd l = (if End l = - 1 then - 1 else End l + g)"

definition lifetimes_ok :: "namespace_config \<Rightarrow> height \<Rightarrow> namespace_cache \<Rightarrow> bool" where
  "lifetimes_ok cfg height c \<longleftrightarrow>
     (\<forall>i ts t. holders c i = Some ts \<longrightarrow> t \<in> set ts \<longrightarrow> lifetime_ok (gracePeriodDuration cfg) height (snd t))"

lemma namespace_failure_not_success [simp]: "namespace_failure code \<noteq> Result_Success"
proof
  assume "namespace_failure code = Result_Success"
  then have "GetSeverity (namespace_failure code) = GetSeverity Result_Success" by simp
  then show False by (simp add: namespace_failure_def)
qed

lemmas namespace_failures = Failure_Namespace_Invalid_Duration_def Failure_Namespace_Expired_def
  Failure_Namespace_Owner_Conflict_def Failure_Namespace_Eternal_After_Nemesis_Block_def Failure_Namespace_Too_Deep_def
  Failure_Namespace_Parent_Unknown_def Failure_Namespace_Already_Exists_def Failure_Namespace_Max_Children_Exceeded_def
  Failure_Namespace_Alias_Namespace_Unknown_def Failure_Namespace_Alias_Already_Exists_def
  Failure_Namespace_Alias_Does_Not_Exist_def Failure_Namespace_Alias_Owner_Conflict_def
  Failure_Namespace_Alias_Unlink_Type_Inconsistency_def Failure_Namespace_Alias_Unlink_Data_Inconsistency_def

lemma find_ok:
  assumes c: "cache_inv root_of c" and find: "cache_find i c = Inr (p, h)"
  shows "m_namespaceById c i = Some p" "m_historyById c (root_of i) = Some h"
  using find ancestors_active(3) [OF c, of i p] by (auto simp: cache_find_def split: option.splits if_splits)

lemma find_root:
  assumes c: "cache_inv root_of c" and r: "root_of i = i"
  shows "cache_contains i c \<longleftrightarrow> m_historyById c i \<noteq> None"
    and "m_historyById c i = Some h \<Longrightarrow> cache_find i c = Inr ([i], h)"
proof -
  show "cache_contains i c \<longleftrightarrow> m_historyById c i \<noteq> None"
    using r by (simp add: cache_contains_def cache_inv_flat [OF c] flat_of_def split: option.split)
  assume h: "m_historyById c i = Some h"
  note hh = cache_invD [OF c h]
  have "rn_id (hist_back h) = i" using hh(1,2) back_in_history [OF hh(2)] by (auto simp: hist_inv_def)
  then show "cache_find i c = Inr ([i], h)"
    using h r by (simp add: cache_find_def cache_inv_flat [OF c] flat_of_def ns_rootId_def)
qed

lemma unat_plus_no_overflow: "(e :: 'a::len word) \<le> e + g \<Longrightarrow> unat (e + g) = unat e + unat g"
  by (metis no_olen_add_nat unat_add_lem word_le_nat_alt no_olen_add_nat order.refl olen_add_eqv)

lemma max_word_unique: "- 1 \<le> (x :: 'a::len word) \<longleftrightarrow> x = - 1"
  by (metis order.refl word_order.extremum_uniqueI)

lemma grace_end_mono:
  assumes l: "lifetime_ok g height l" and l': "NamespaceLifetime s e g = Inr l'" and le: "End l < e"
  shows "GracePeriodEnd l \<le> GracePeriodEnd l' \<and> (GracePeriodEnd l \<noteq> - 1 \<longrightarrow> GracePeriodEnd l < GracePeriodEnd l')"
proof (cases "e = - 1")
  case True
  then show ?thesis using NamespaceLifetime_Inr(3) [OF l'] by (auto simp: word_order.extremum word_order.not_eq_extremum)
next
  case False
  then have "End l \<noteq> - 1" using le by (auto simp: max_word_unique dest: order.strict_implies_order)
  then have "unat (GracePeriodEnd l) = unat (End l) + unat g" using l unat_plus_no_overflow [of "End l" g] by (auto simp: lifetime_ok_def)
  moreover have "unat (GracePeriodEnd l') = unat e + unat g"
    using NamespaceLifetime_Inr(3,4) [OF l'] False by (simp add: unat_plus_no_overflow)
  ultimately show ?thesis using le by (simp add: word_le_nat_alt word_less_nat_alt)
qed

text \<open>The lifetime and the alias with which the observer inserts the new root.\<close>

lemma root_observer_insert:
  assumes c: "cache_inv root_of c" and r: "root_of (RootNamespaceId n) = RootNamespaceId n"
    and obs: "RootNamespace_observer cfg Commit height n c = Inr c'"
  obtains lifetime al c1 where
    "cache_insert_root cfg (RootNamespaceId n) (RootSigner n) lifetime c = Inr c1"
    "c' = c1 \<or> cache_setAlias (RootNamespaceId n) al c1 = Inr c'"
    "Start lifetime = height \<and> End lifetime = LifetimeEnd height (RootDuration n) \<and> height < End lifetime \<and>
       (\<forall>h. m_historyById c (RootNamespaceId n) = Some h \<longrightarrow> \<not> IsRenewal (hist_back h) n height) \<or>
     (\<exists>h. m_historyById c (RootNamespaceId n) = Some h \<and> IsRenewal (hist_back h) n height \<and>
        Start lifetime = Start (rn_lifetime (hist_back h)) \<and>
        End lifetime = LifetimeEnd (End (rn_lifetime (hist_back h))) (RootDuration n))"
proof -
  obtain l0 where l0: "NamespaceLifetime height (LifetimeEnd height (RootDuration n)) 0 = Inr l0"
    using obs by (auto simp: RootNamespace_observer_def res_bind_Inr_iff)
  have fresh: "Start l0 = height" "End l0 = LifetimeEnd height (RootDuration n)" "height < End l0"
    using NamespaceLifetime_Inr [OF l0] by simp_all
  show thesis
  proof (cases "\<exists>h. m_historyById c (RootNamespaceId n) = Some h \<and> IsRenewal (hist_back h) n height")
    case False
    have "cache_insert_root cfg (RootNamespaceId n) (RootSigner n) l0 c = Inr c'"
      using obs l0 False find_root [OF c r]
      by (cases "m_historyById c (RootNamespaceId n)") (auto simp: RootNamespace_observer_def res_bind_Inr_iff)
    then show thesis using that [of l0 c'] fresh False by blast
  next
    case True
    then obtain h where h: "m_historyById c (RootNamespaceId n) = Some h" "IsRenewal (hist_back h) n height" by blast
    define l where "l = (rn_lifetime (hist_back h))\<lparr>End := LifetimeEnd (End (rn_lifetime (hist_back h))) (RootDuration n)\<rparr>"
    have "\<exists>al. res_bind (cache_insert_root cfg (RootNamespaceId n) (RootSigner n) l c) (\<lambda>c1.
        case al of NoAlias \<Rightarrow> Inr c1 | _ \<Rightarrow> cache_setAlias (RootNamespaceId n) al c1) = Inr c'"
    proof (cases "AliasFixVersion_observer \<le> blockchainVersion cfg")
      case True
      then show ?thesis using obs l0 h find_root [OF c r]
        by (auto simp: RootNamespace_observer_def Let_def l_def [symmetric] res_bind_assoc res_bind_Inr_iff)
    next
      case False
      then show ?thesis using obs l0 h find_root [OF c r]
        by (intro exI [of _ NoAlias]) (simp add: RootNamespace_observer_def Let_def l_def [symmetric])
    qed
    then obtain al c1 where "cache_insert_root cfg (RootNamespaceId n) (RootSigner n) l c = Inr c1"
        "(case al of NoAlias \<Rightarrow> Inr c1 | _ \<Rightarrow> cache_setAlias (RootNamespaceId n) al c1) = Inr c'"
      by (auto simp: res_bind_Inr_iff)
    moreover from this(2) have "c' = c1 \<or> cache_setAlias (RootNamespaceId n) al c1 = Inr c'"
      by (cases al) simp_all
    ultimately show thesis using that [of l c1 al] h by (auto simp: l_def)
  qed
qed

lemma LifetimeEnd_greater:
  assumes "\<not> AddOverflows x d" "x \<noteq> - 1"
  shows "x < LifetimeEnd x d"
proof (cases "d = 0")
  case True
  then show ?thesis using assms(2) by (simp add: LifetimeEnd_def Eternal_Artifact_Duration_def word_order.not_eq_extremum)
next
  case False
  then have "x + d \<noteq> x" by simp
  moreover have "x \<le> x + d" using assms(1) by (simp add: AddOverflows_def not_less)
  ultimately have "x < x + d" by (metis order.not_eq_order_implies_strict)
  then show ?thesis using False by (simp add: LifetimeEnd_def Eternal_Artifact_Duration_def)
qed

lemma register_root_insert:
  assumes c: "cache_inv root_of c" and life: "lifetimes_ok cfg height c" and r: "root_of (RootNamespaceId n) = RootNamespaceId n"
    and av: "RootNamespaceAvailability_validator cfg height n c = Inr Result_Success"
    and ov: "NamespaceDurationOverflow_validator cfg height n c = Inr Result_Success"
    and obs: "RootNamespace_observer cfg Commit height n c = Inr c'"
  obtains l lifetime al c1 where "cache_insert_root cfg (RootNamespaceId n) (RootSigner n) lifetime c = Inr c1"
    "NamespaceLifetime (Start lifetime) (End lifetime) (gracePeriodDuration cfg) = Inr l"
    "c' = c1 \<or> cache_setAlias (RootNamespaceId n) al c1 = Inr c'"
    "cache_inv root_of c1" "lifetime_ok (gracePeriodDuration cfg) height l"
    "holders c1 = (holders c)(RootNamespaceId n \<mapsto>
       (case holders c (RootNamespaceId n) of None \<Rightarrow> [] | Some ts \<Rightarrow> ts) @ [(RootSigner n, l)])"
    "expiry_groups_of c1 = AddIdentifierWithGroup (expiry_groups_of c) (GracePeriodEnd l) (RootNamespaceId n)"
    "height < GracePeriodEnd l"
    "\<forall>h. m_historyById c (RootNamespaceId n) = Some h \<longrightarrow>
       GracePeriodEnd (rn_lifetime (hist_back h)) \<le> GracePeriodEnd l \<and>
       (GracePeriodEnd (rn_lifetime (hist_back h)) \<noteq> - 1 \<longrightarrow> GracePeriodEnd (rn_lifetime (hist_back h)) < GracePeriodEnd l) \<and>
       (isActiveOrGracePeriod (rn_lifetime (hist_back h)) height \<longrightarrow> rn_owner (hist_back h) = RootSigner n)"
proof -
  let ?i = "RootNamespaceId n" and ?g = "gracePeriodDuration cfg"
  obtain lifetime al c1 where ins: "cache_insert_root cfg ?i (RootSigner n) lifetime c = Inr c1"
    and al: "c' = c1 \<or> cache_setAlias ?i al c1 = Inr c'"
    and lt: "Start lifetime = height \<and> End lifetime = LifetimeEnd height (RootDuration n) \<and> height < End lifetime \<and>
       (\<forall>h. m_historyById c ?i = Some h \<longrightarrow> \<not> IsRenewal (hist_back h) n height) \<or>
     (\<exists>h. m_historyById c ?i = Some h \<and> IsRenewal (hist_back h) n height \<and>
        Start lifetime = Start (rn_lifetime (hist_back h)) \<and>
        End lifetime = LifetimeEnd (End (rn_lifetime (hist_back h))) (RootDuration n))"
    by (rule root_observer_insert [OF c r obs])
  obtain l where l: "NamespaceLifetime (Start lifetime) (End lifetime) ?g = Inr l"
    and hold: "holders c1 = (holders c)(?i \<mapsto> (case holders c ?i of None \<Rightarrow> [] | Some ts \<Rightarrow> ts) @ [(RootSigner n, l)])"
    and grps: "expiry_groups_of c1 = AddIdentifierWithGroup (expiry_groups_of c) (GracePeriodEnd l) ?i"
    by (rule holders_insert_root [OF c ins])
  note lp = NamespaceLifetime_Inr [OF l]
  have bk: "lifetime_ok ?g height (rn_lifetime (hist_back h))" if h: "m_historyById c ?i = Some h" for h
  proof -
    have "(rn_owner (hist_back h), rn_lifetime (hist_back h)) \<in> set (tenures h)"
      using tenures_last [OF cache_invD(2) [OF c h]] by (metis last_in_set)
    then show ?thesis using life h by (force simp: lifetimes_ok_def holders_def)
  qed
  have own: "rn_owner (hist_back h) = RootSigner n"
    if h: "m_historyById c ?i = Some h" and act: "isActiveOrGracePeriod (rn_lifetime (hist_back h)) height" for h
    using av h act find_root [OF c r]
    by (auto simp: RootNamespaceAvailability_validator_def Let_def namespace_failures split: if_splits)
  have noov: "\<not> AddOverflows (End (rn_lifetime (hist_back h))) (RootDuration n)"
    if h: "m_historyById c ?i = Some h" and act: "isActiveOrGracePeriod (rn_lifetime (hist_back h)) height" for h
    using ov h act find_root [OF c r]
    by (auto simp: NamespaceDurationOverflow_validator_def Let_def namespace_failures split: if_splits)
  have mortal: "End (rn_lifetime (hist_back h)) \<noteq> - 1" if h: "m_historyById c ?i = Some h" for h
    using av h find_root [OF c r]
    by (auto simp: RootNamespaceAvailability_validator_def Let_def namespace_failures IsEternal_def split: if_splits)
  have later: "GracePeriodEnd (rn_lifetime (hist_back h)) \<le> GracePeriodEnd l \<and>
      (GracePeriodEnd (rn_lifetime (hist_back h)) \<noteq> - 1 \<longrightarrow> GracePeriodEnd (rn_lifetime (hist_back h)) < GracePeriodEnd l) \<and>
      height < GracePeriodEnd l" if h: "m_historyById c ?i = Some h" for h
  proof (cases "isActiveOrGracePeriod (rn_lifetime (hist_back h)) height")
    case True
    then have "IsRenewal (hist_back h) n height" using own [OF h] by (simp add: IsRenewal_def)
    then have "End lifetime = LifetimeEnd (End (rn_lifetime (hist_back h))) (RootDuration n)" using lt h by auto
    then show ?thesis
      using grace_end_mono [OF bk [OF h] l] LifetimeEnd_greater [OF noov [OF h True] mortal [OF h]] True
      by (auto simp: isActiveOrGracePeriod_def)
  next
    case False
    then have g: "GracePeriodEnd (rn_lifetime (hist_back h)) \<le> height"
      using bk [OF h] by (auto simp: isActiveOrGracePeriod_def lifetime_ok_def not_less)
    have "\<not> IsRenewal (hist_back h) n height" using False by (simp add: IsRenewal_def)
    then have "height < End lifetime" using lt h by auto
    then have "height < GracePeriodEnd l" using lp(4) by (rule less_le_trans)
    then show ?thesis using g by auto
  qed
  have above: "height < GracePeriodEnd l"
  proof (cases "m_historyById c ?i")
    case None
    then have "height < End lifetime" using lt by auto
    then show ?thesis using lp(4) by (rule less_le_trans)
  qed (use later in blast)
  have c1: "cache_inv root_of c1"
  proof (cases "m_historyById c ?i")
    case None
    show ?thesis by (rule insert_root_new [OF c None r ins])
  next
    case (Some h)
    show ?thesis using l later [OF Some] by (intro insert_root_existing [OF c Some ins]) simp
  qed
  have ok: "lifetime_ok ?g height l"
  proof -
    have "Start lifetime \<le> height" using lt bk by (auto simp: lifetime_ok_def)
    then show ?thesis using lp by (auto simp: lifetime_ok_def)
  qed
  show thesis
    using that [OF ins l al c1 ok hold grps above] later own by simp
qed

lemma register_root_effect:
  assumes c: "cache_inv root_of c" and life: "lifetimes_ok cfg height c" and r: "root_of (RootNamespaceId n) = RootNamespaceId n"
    and av: "RootNamespaceAvailability_validator cfg height n c = Inr Result_Success"
    and ov: "NamespaceDurationOverflow_validator cfg height n c = Inr Result_Success"
    and obs: "RootNamespace_observer cfg Commit height n c = Inr c'"
  obtains l where "cache_inv root_of c'" "lifetime_ok (gracePeriodDuration cfg) height l"
    "holders c' = (holders c)(RootNamespaceId n \<mapsto>
       (case holders c (RootNamespaceId n) of None \<Rightarrow> [] | Some ts \<Rightarrow> ts) @ [(RootSigner n, l)])"
    "expiry_groups_of c' = AddIdentifierWithGroup (expiry_groups_of c) (GracePeriodEnd l) (RootNamespaceId n)"
    "height < GracePeriodEnd l"
    "\<forall>h. m_historyById c (RootNamespaceId n) = Some h \<longrightarrow>
       GracePeriodEnd (rn_lifetime (hist_back h)) \<le> GracePeriodEnd l \<and>
       (GracePeriodEnd (rn_lifetime (hist_back h)) \<noteq> - 1 \<longrightarrow> GracePeriodEnd (rn_lifetime (hist_back h)) < GracePeriodEnd l) \<and>
       (isActiveOrGracePeriod (rn_lifetime (hist_back h)) height \<longrightarrow> rn_owner (hist_back h) = RootSigner n)"
proof -
  obtain l lifetime al c1 where "cache_insert_root cfg (RootNamespaceId n) (RootSigner n) lifetime c = Inr c1"
      "NamespaceLifetime (Start lifetime) (End lifetime) (gracePeriodDuration cfg) = Inr l"
    and al: "c' = c1 \<or> cache_setAlias (RootNamespaceId n) al c1 = Inr c'" and c1: "cache_inv root_of c1"
    and l: "lifetime_ok (gracePeriodDuration cfg) height l"
      "holders c1 = (holders c)(RootNamespaceId n \<mapsto>
       (case holders c (RootNamespaceId n) of None \<Rightarrow> [] | Some ts \<Rightarrow> ts) @ [(RootSigner n, l)])"
      "expiry_groups_of c1 = AddIdentifierWithGroup (expiry_groups_of c) (GracePeriodEnd l) (RootNamespaceId n)"
      "height < GracePeriodEnd l"
      "\<forall>h. m_historyById c (RootNamespaceId n) = Some h \<longrightarrow>
         GracePeriodEnd (rn_lifetime (hist_back h)) \<le> GracePeriodEnd l \<and>
         (GracePeriodEnd (rn_lifetime (hist_back h)) \<noteq> - 1 \<longrightarrow> GracePeriodEnd (rn_lifetime (hist_back h)) < GracePeriodEnd l) \<and>
         (isActiveOrGracePeriod (rn_lifetime (hist_back h)) height \<longrightarrow> rn_owner (hist_back h) = RootSigner n)"
    by (rule register_root_insert [OF c life r av ov obs])
  have "cache_inv root_of c'" "holders c' = holders c1" "expiry_groups_of c' = expiry_groups_of c1"
    using al c1 set_alias_inv [OF c1] holders_setAlias [OF c1] by auto
  then show thesis using that [of l] l by simp
qed

lemma alias_step_effect:
  assumes c: "cache_inv root_of c" and obs: "AliasedObserverHandler mode n c = Inr c'"
  shows "cache_inv root_of c'" "holders c' = holders c" "expiry_groups_of c' = expiry_groups_of c"
  using obs set_alias_inv [OF c] holders_setAlias [OF c] by (auto simp: AliasedObserverHandler_def split: if_splits)

lemma register_child_effect:
  assumes c: "cache_inv root_of c" and av: "ChildNamespaceAvailability_validator height n c = Inr Result_Success"
    and r: "root_of (ChildNamespaceId n) = root_of (ChildParentId n)"
    and obs: "ChildNamespace_observer Commit n c = Inr c'"
  shows "cache_inv root_of c'" "holders c' = holders c" "expiry_groups_of c' = expiry_groups_of c"
proof -
  obtain p h where find: "cache_find (ChildParentId n) c = Inr (p, h)"
    and ins: "cache_insert_child (p @ [ChildNamespaceId n]) c = Inr c'"
    using obs by (auto simp: ChildNamespace_observer_def res_bind_Inr_iff path_push_def make_namespace_def split: if_splits)
  note parent = find_ok [OF c find]
  note pp = ancestors_active [OF c parent(1)]
  have new: "m_namespaceById c (ChildNamespaceId n) = None"
    using av by (auto simp: ChildNamespaceAvailability_validator_def cache_contains_def namespace_failures split: if_splits)
  have id: "ns_id (p @ [ChildNamespaceId n]) = ChildNamespaceId n" "ns_rootId (p @ [ChildNamespaceId n]) = ns_rootId p"
    using pp(2) by (simp_all add: ns_id_def ns_rootId_def nth_append)
  show "cache_inv root_of c'"
    using parent(1) pp(3) r new id by (intro insert_child_inv [OF c ins, of "ChildParentId n"]) simp_all
  show "holders c' = holders c" "expiry_groups_of c' = expiry_groups_of c" by (rule holders_insert_child [OF c ins])+
qed

lemma prune_block_effect:
  assumes c: "cache_inv root_of c"
    and c': "c' = CacheBlockPruningObserver 1 maxRollbackBlocks (\<lambda>h c. fst (cache_prune h c)) Commit height c"
  obtains k where "cache_inv root_of c'" "k \<le> height" "\<forall>i. pruned_from k (holders c i) (holders c' i)"
    "expiry_groups_of c' = expiry_groups_of c"
proof (cases "height \<le> maxRollbackBlocks")
  case True
  then have "c' = c" using c' by (simp add: CacheBlockPruningObserver_def)
  then show thesis using that [of 0] c by (simp add: pruned_from_def)
next
  case False
  then have "c' = fst (cache_prune (height - maxRollbackBlocks) c)"
    using c' by (simp add: CacheBlockPruningObserver_def ShouldPrune_def)
  moreover have "height - maxRollbackBlocks \<le> height"
    using False by (simp add: word_le_nat_alt unat_sub)
  ultimately show thesis
    using that [of "height - maxRollbackBlocks"] cache_prune_inv [OF c] holders_prune [OF c] by (simp add: groups_prune)
qed

lemma prune_tenures_last:
  assumes "ts \<noteq> []" "\<not> tenure_expired k (last ts)"
  obtains ts' where "prune_tenures k ts = Some ts'" "last ts' = last ts" "ts' \<noteq> []"
proof -
  have ne: "dropWhile (tenure_expired k) ts \<noteq> []" using assms by (metis dropWhile_eq_Nil_conv last_in_set)
  then have "last (dropWhile (tenure_expired k) ts) = last ts"
    by (metis last_appendR takeWhile_dropWhile_id)
  then show thesis using that ne by (simp add: prune_tenures_def)
qed

lemma pruned_subset: "pruned_from k (Some ts) (Some ts') \<Longrightarrow> set ts' \<subseteq> set ts"
  by (auto simp: pruned_from_def prune_tenures_def Let_def split: if_splits dest: set_dropWhileD)

end
