(* ===== verification/Namespace_Safety.thy ===== *)
theory Namespace_Safety
  imports Namespace_Transactions
begin

text \<open>
  What holds of every namespace cache that a chain can reach: consistency of its parts, no takeover of a namespace
  before its grace period has ended, and that rolling an accepted transaction back restores the cache.
\<close>

section \<open>Invariants of the records\<close>

text \<open>
  The expiry groups list a root id under a height exactly when one of its roots ends its grace period there, apart from
  heights that have passed.
\<close>

definition expiry_ok :: "height \<Rightarrow> namespace_cache \<Rightarrow> bool" where
  "expiry_ok height c \<longleftrightarrow>
     (\<forall>g i. i \<in> set (GetAllIdentifiersWithGroup (expiry_groups_of c) g) \<longrightarrow>
        g \<le> height \<or> (\<exists>ts t. holders c i = Some ts \<and> t \<in> set ts \<and> GracePeriodEnd (snd t) = g)) \<and>
     (\<forall>i ts t. holders c i = Some ts \<longrightarrow> t \<in> set ts \<longrightarrow>
        i \<in> set (GetAllIdentifiersWithGroup (expiry_groups_of c) (GracePeriodEnd (snd t))))"

definition records_ok :: "namespace_config \<Rightarrow> height \<Rightarrow> namespace_cache \<Rightarrow> bool" where
  "records_ok cfg height c \<longleftrightarrow> lifetimes_ok cfg height c \<and> expiry_ok height c"

lemma lifetimes_okD: "lifetimes_ok cfg height c \<Longrightarrow> holders c i = Some ts \<Longrightarrow> t \<in> set ts \<Longrightarrow> lifetime_ok (gracePeriodDuration cfg) height (snd t)"
  unfolding lifetimes_ok_def by blast

lemma expiry_okD:
  assumes "expiry_ok height c"
  shows "i \<in> set (GetAllIdentifiersWithGroup (expiry_groups_of c) g) \<Longrightarrow>
      g \<le> height \<or> (\<exists>ts t. holders c i = Some ts \<and> t \<in> set ts \<and> GracePeriodEnd (snd t) = g)"
    and "holders c i = Some ts \<Longrightarrow> t \<in> set ts \<Longrightarrow>
      i \<in> set (GetAllIdentifiersWithGroup (expiry_groups_of c) (GracePeriodEnd (snd t)))"
  using assms unfolding expiry_ok_def by blast+

lemma records_okI:
  assumes "\<And>i ts t. holders c i = Some ts \<Longrightarrow> t \<in> set ts \<Longrightarrow> lifetime_ok (gracePeriodDuration cfg) height (snd t) \<and>
      i \<in> set (GetAllIdentifiersWithGroup (expiry_groups_of c) (GracePeriodEnd (snd t)))"
    and "\<And>g i. i \<in> set (GetAllIdentifiersWithGroup (expiry_groups_of c) g) \<Longrightarrow>
      g \<le> height \<or> (\<exists>ts t. holders c i = Some ts \<and> t \<in> set ts \<and> GracePeriodEnd (snd t) = g)"
  shows "records_ok cfg height c"
  unfolding records_ok_def lifetimes_ok_def expiry_ok_def using assms by blast

lemma records_ok_later: "records_ok cfg height c \<Longrightarrow> height \<le> height' \<Longrightarrow> records_ok cfg height' c"
  unfolding records_ok_def lifetimes_ok_def lifetime_ok_def expiry_ok_def by (meson order.trans)

lemma records_ok_same:
  "records_ok cfg height c \<Longrightarrow> holders c' = holders c \<Longrightarrow> expiry_groups_of c' = expiry_groups_of c \<Longrightarrow> records_ok cfg height c'"
  by (simp add: records_ok_def lifetimes_ok_def expiry_ok_def)

lemma records_ok_push:
  assumes c: "cache_inv root_of c" and rec: "records_ok cfg height c" and l: "lifetime_ok (gracePeriodDuration cfg) height l"
    and hold: "holders c' = (holders c)(i \<mapsto> (case holders c i of None \<Rightarrow> [] | Some ts \<Rightarrow> ts) @ [(owner, l)])"
    and grps: "expiry_groups_of c' = AddIdentifierWithGroup (expiry_groups_of c) (GracePeriodEnd l) i"
  shows "records_ok cfg height c'"
proof (rule records_okI)
  have ids: "set (GetAllIdentifiersWithGroup (expiry_groups_of c') g) = (if g = GracePeriodEnd l
      then insert i (set (GetAllIdentifiersWithGroup (expiry_groups_of c) (GracePeriodEnd l)))
      else set (GetAllIdentifiersWithGroup (expiry_groups_of c) g))" for g
    unfolding grps by (rule grp.ids_add [OF cache_inv_groups [OF c]])
  have life: "lifetimes_ok cfg height c" and ex: "expiry_ok height c" using rec by (simp_all add: records_ok_def)
  {
    fix j ts t
    assume h: "holders c' j = Some ts" "t \<in> set ts"
    then consider "t = (owner, l)" "j = i" | ts0 where "holders c j = Some ts0" "t \<in> set ts0"
      by (auto simp: hold split: if_splits option.splits)
    then show "lifetime_ok (gracePeriodDuration cfg) height (snd t) \<and>
        j \<in> set (GetAllIdentifiersWithGroup (expiry_groups_of c') (GracePeriodEnd (snd t)))"
    proof cases
      case 2
      then show ?thesis using lifetimes_okD [OF life 2] expiry_okD(2) [OF ex 2] ids by auto
    qed (simp add: l ids)
  }
  fix g j
  assume j: "j \<in> set (GetAllIdentifiersWithGroup (expiry_groups_of c') g)"
  show "g \<le> height \<or> (\<exists>ts t. holders c' j = Some ts \<and> t \<in> set ts \<and> GracePeriodEnd (snd t) = g)"
  proof (cases "j = i \<and> g = GracePeriodEnd l")
    case True
    then show ?thesis using hold by auto
  next
    case False
    then have "j \<in> set (GetAllIdentifiersWithGroup (expiry_groups_of c) g)" using j ids [of g] by (auto split: if_splits)
    then consider "g \<le> height" | ts t where "holders c j = Some ts" "t \<in> set ts" "GracePeriodEnd (snd t) = g"
      using expiry_okD(1) [OF ex] by blast
    then show ?thesis
    proof cases
      case 2
      have "\<exists>ts'. holders c' j = Some ts' \<and> set ts \<subseteq> set ts'" using 2(1) by (auto simp: hold)
      then show ?thesis using 2(2,3) by blast
    qed simp
  qed
qed

lemma records_ok_prune:
  assumes rec: "records_ok cfg height c" and k: "k \<le> height" and p: "\<forall>i. pruned_from k (holders c i) (holders c' i)"
    and grps: "expiry_groups_of c' = expiry_groups_of c"
  shows "records_ok cfg height c'"
proof (rule records_okI)
  have life: "lifetimes_ok cfg height c" and ex: "expiry_ok height c" using rec by (simp_all add: records_ok_def)
  {
    fix i ts t
    assume h: "holders c' i = Some ts" "t \<in> set ts"
    obtain us where "holders c i = Some us" "set ts \<subseteq> set us"
      using p [rule_format, of i] h(1) pruned_subset [of k _ ts] by (cases "holders c i") (auto simp: pruned_from_def)
    then show "lifetime_ok (gracePeriodDuration cfg) height (snd t) \<and>
        i \<in> set (GetAllIdentifiersWithGroup (expiry_groups_of c') (GracePeriodEnd (snd t)))"
      using h(2) lifetimes_okD [OF life] expiry_okD(2) [OF ex] unfolding grps by blast
  }
  fix g i
  assume "i \<in> set (GetAllIdentifiersWithGroup (expiry_groups_of c') g)"
  then consider "g \<le> height" | ts t where "holders c i = Some ts" "t \<in> set ts" "GracePeriodEnd (snd t) = g"
    using expiry_okD(1) [OF ex] unfolding grps by blast
  then show "g \<le> height \<or> (\<exists>ts t. holders c' i = Some ts \<and> t \<in> set ts \<and> GracePeriodEnd (snd t) = g)"
  proof cases
    case 2
    show ?thesis
    proof (cases "tenure_expired k t")
      case True
      then have "g \<le> height" using 2(3) k by (auto simp: tenure_expired_def)
      then show ?thesis ..
    next
      case False
      then have "t \<in> set (dropWhile (tenure_expired k) ts)"
        using 2(2) by (metis Un_iff set_append set_takeWhileD takeWhile_dropWhile_id)
      then have "prune_tenures k ts = Some (dropWhile (tenure_expired k) ts)"
        unfolding prune_tenures_def Let_def by (metis empty_iff list.set(1))
      then have "holders c' i = Some ts \<or> holders c' i = Some (dropWhile (tenure_expired k) ts)"
        using p [rule_format, of i] 2(1) by (auto simp: pruned_from_def)
      then show ?thesis using 2(2,3) \<open>t \<in> set (dropWhile (tenure_expired k) ts)\<close> by blast
    qed
  qed simp
qed

lemma namespace_step_inv:
  assumes c: "cache_inv root_of c" and rec: "records_ok cfg height c" and step: "namespace_step cfg root_of height c c'"
  shows "cache_inv root_of c' \<and> records_ok cfg height c'"
proof -
  have life: "lifetimes_ok cfg height c" using rec by (simp add: records_ok_def)
  show ?thesis using step
  proof cases
    case (register_root n)
    obtain l where l: "cache_inv root_of c'" "lifetime_ok (gracePeriodDuration cfg) height l"
      "holders c' = (holders c)(RootNamespaceId n \<mapsto>
         (case holders c (RootNamespaceId n) of None \<Rightarrow> [] | Some ts \<Rightarrow> ts) @ [(RootSigner n, l)])"
      "expiry_groups_of c' = AddIdentifierWithGroup (expiry_groups_of c) (GracePeriodEnd l) (RootNamespaceId n)"
      "height < GracePeriodEnd l"
      "\<forall>h. m_historyById c (RootNamespaceId n) = Some h \<longrightarrow>
         GracePeriodEnd (rn_lifetime (hist_back h)) \<le> GracePeriodEnd l \<and>
         (GracePeriodEnd (rn_lifetime (hist_back h)) \<noteq> - 1 \<longrightarrow> GracePeriodEnd (rn_lifetime (hist_back h)) < GracePeriodEnd l) \<and>
         (isActiveOrGracePeriod (rn_lifetime (hist_back h)) height \<longrightarrow> rn_owner (hist_back h) = RootSigner n)"
      by (rule register_root_effect [OF c life register_root(3,1,2,4)])
    show ?thesis using l(1) records_ok_push [OF c rec l(2,3,4)] by simp
  next
    case (register_child n)
    then show ?thesis using register_child_effect [OF c register_child(1,3,4)] rec by (simp add: records_ok_same)
  next
    case (change_alias owner n)
    then show ?thesis using alias_step_effect [OF c change_alias(3)] rec by (simp add: records_ok_same)
  next
    case (prune_block r)
    obtain k where "cache_inv root_of c'" "k \<le> height" "\<forall>i. pruned_from k (holders c i) (holders c' i)"
      "expiry_groups_of c' = expiry_groups_of c"
      by (rule prune_block_effect [OF c prune_block])
    then show ?thesis using records_ok_prune [OF rec] by simp
  qed
qed

lemma namespace_reachable_inv:
  "namespace_reachable cfg root_of height c \<Longrightarrow> cache_inv root_of c \<and> records_ok cfg height c"
proof (induction rule: namespace_reachable.induct)
  case start
  then show ?case
    by (simp add: cache_inv_empty)
      (simp add: records_ok_def lifetimes_ok_def expiry_ok_def holders_def empty_namespace_cache_def GetAllIdentifiersWithGroup_def)
next
  case (step height c height' c')
  then show ?case using namespace_step_inv records_ok_later by blast
qed

section \<open>Rolling back\<close>

datatype namespace_tx =
    TxRoot root_namespace_notification
  | TxChild child_namespace_notification
  | TxAlias key aliased_data_notification

fun accepted :: "namespace_config \<Rightarrow> (namespace_id \<Rightarrow> namespace_id) \<Rightarrow> height \<Rightarrow> namespace_tx \<Rightarrow> namespace_cache \<Rightarrow> bool" where
  "accepted cfg root_of height (TxRoot n) c \<longleftrightarrow>
     RootNamespaceAvailability_validator cfg height n c = Inr Result_Success \<and>
     NamespaceDurationOverflow_validator cfg height n c = Inr Result_Success \<and>
     root_of (RootNamespaceId n) = RootNamespaceId n"
| "accepted cfg root_of height (TxChild n) c \<longleftrightarrow>
     ChildNamespaceAvailability_validator height n c = Inr Result_Success \<and>
     RootNamespaceMaxChildren_validator cfg n c = Inr Result_Success \<and>
     root_of (ChildNamespaceId n) = root_of (ChildParentId n)"
| "accepted cfg root_of height (TxAlias owner n) c \<longleftrightarrow>
     AliasAvailability_validator height
       \<lparr>AliasOwner = owner, AliasOwnerNamespaceId = AliasedNamespaceId n, AliasOwnerAction = AliasedAction n\<rparr> c
       = Inr Result_Success \<and>
     UnlinkAliasedDataConsistency_validator n c = Inr Result_Success"

fun observe :: "namespace_config \<Rightarrow> notify_mode \<Rightarrow> height \<Rightarrow> namespace_tx \<Rightarrow> namespace_cache \<Rightarrow> namespace_cache result" where
  "observe cfg mode height (TxRoot n) c = RootNamespace_observer cfg mode height n c"
| "observe cfg mode height (TxChild n) c = ChildNamespace_observer mode n c"
| "observe cfg mode height (TxAlias owner n) c = AliasedObserverHandler mode n c"

lemma accepted_step:
  "accepted cfg root_of height tx c \<Longrightarrow> observe cfg Commit height tx c = Inr c' \<Longrightarrow> namespace_step cfg root_of height c c'"
  by (cases tx) (auto intro: namespace_step.intros)

text \<open>What can be seen of a cache: the histories, the flat map, the counters and the expiry groups.\<close>

definition history_views :: "namespace_cache \<Rightarrow> namespace_id \<Rightarrow>
    (namespace_id \<times> namespace_alias \<times> key \<times> namespace_lifetime \<times> ns_children) list option" where
  "history_views c i = map_option hist_view (m_historyById c i)"

definition same_cache :: "namespace_cache \<Rightarrow> namespace_cache \<Rightarrow> bool" where
  "same_cache c c' \<longleftrightarrow> history_views c = history_views c' \<and> m_namespaceById c = m_namespaceById c' \<and>
     activeSize c = activeSize c' \<and> deepSize c = deepSize c' \<and> expiry_groups_of c = expiry_groups_of c'"

lemma view_determines:
  assumes "hist_inv h" "hist_inv h'" "hist_view h = hist_view h'"
  shows "active_children h = active_children h'" "active_count h = active_count h'" "deep_count h = deep_count h'"
proof -
  have ac: "active_children g = snd (snd (snd (snd (last (hist_view g)))))" if "hist_inv g" for g
    using that by (simp add: active_children_def hist_view_def hist_inv_def hist_back_def last_map)
  have dc: "deep_count g = of_nat (length (hist_view g) + sum_list (map (\<lambda>v. length (snd (snd (snd (snd v))))) (hist_view g)))" for g
    by (simp add: deep_count_def historyDepth_def numAllHistoricalChildren_def hist_view_def comp_def)
  show "active_children h = active_children h'" using assms ac by simp
  then show "active_count h = active_count h'" by (simp add: active_count_def)
  show "deep_count h = deep_count h'" using assms(3) dc by simp
qed

text \<open>The flat map and the counters follow from what can be seen of the histories.\<close>

lemma same_cacheI:
  assumes c: "cache_inv root_of c" and c': "cache_inv root_of c'" and v: "history_views c = history_views c'"
    and g: "expiry_groups_of c = expiry_groups_of c'"
  shows "same_cache c c'"
proof -
  have vi: "map_option hist_view (m_historyById c i) = map_option hist_view (m_historyById c' i)" for i
    using fun_cong [OF v, of i] by (simp add: history_views_def)
  have none: "m_historyById c i = None \<longleftrightarrow> m_historyById c' i = None" for i
    using vi [of i] by (cases "m_historyById c i"; cases "m_historyById c' i") simp_all
  have pair: "active_children h = active_children h'" "active_count h = active_count h'" "deep_count h = deep_count h'"
    if "m_historyById c i = Some h" "m_historyById c' i = Some h'" for i h h'
    using view_determines [OF cache_invD(2) [OF c that(1)] cache_invD(2) [OF c' that(2)]] vi [of i] that by simp_all
  have dom: "dom (m_historyById c) = dom (m_historyById c')" using none by (auto simp: dom_def)
  have flat: "flat_of root_of (m_historyById c) j = flat_of root_of (m_historyById c') j" for j
  proof (cases "m_historyById c (root_of j)")
    case None
    then show ?thesis using none [of "root_of j"] by (simp add: flat_of_def)
  next
    case (Some h)
    then obtain h' where h': "m_historyById c' (root_of j) = Some h'" using none [of "root_of j"] by auto
    show ?thesis using pair(1) [OF Some h'] by (simp add: flat_of_def Some h')
  qed
  have hs: "hsum f (m_historyById c) = hsum f (m_historyById c')"
    if f: "\<And>i h h'. m_historyById c i = Some h \<Longrightarrow> m_historyById c' i = Some h' \<Longrightarrow> f h = f h'" for f
    unfolding hsum_def dom
  proof (rule sum.cong)
    fix i
    assume "i \<in> dom (m_historyById c')"
    then obtain h h' where "m_historyById c i = Some h" "m_historyById c' i = Some h'" using dom by blast
    then show "f (the (m_historyById c i)) = f (the (m_historyById c' i))" using f by simp
  qed (rule refl)
  have "m_namespaceById c = m_namespaceById c'" using cache_inv_flat [OF c] cache_inv_flat [OF c'] flat by (simp add: fun_eq_iff)
  moreover have "activeSize c = activeSize c'" "deepSize c = deepSize c'"
    using c c' hs [of active_count, OF pair(2)] hs [of deep_count, OF pair(3)] by (simp_all add: cache_inv_def)
  ultimately show ?thesis using v g by (simp add: same_cache_def)
qed

lemma tenure_bound:
  assumes h: "hist_inv h" and t: "t \<in> set (tenures h)"
  shows "GracePeriodEnd (snd t) \<le> GracePeriodEnd (rn_lifetime (hist_back h))"
proof -
  have s: "sorted (map (\<lambda>r. GracePeriodEnd (rn_lifetime r)) (m_rootHistory h))" and ne: "m_rootHistory h \<noteq> []"
    using h by (simp_all add: hist_inv_def)
  obtain r where "r \<in> set (m_rootHistory h)" "snd t = rn_lifetime r" using t by (auto simp: tenures_def)
  then show ?thesis using sorted_le_last [OF s, of "GracePeriodEnd (rn_lifetime r)"] ne by (simp add: hist_back_def last_map)
qed

lemma back_setAlias_root:
  assumes h: "hist_inv h" and a: "back_setAlias (h_id h) al h = Inr h'"
  shows "h' = h\<lparr>m_rootHistory := butlast (m_rootHistory h) @ [(hist_back h)\<lparr>rn_alias := al\<rparr>]\<rparr>"
proof -
  have "rn_id (hist_back h) = h_id h" using h back_in_history [OF h] by (auto simp: hist_inv_def)
  then show ?thesis using a by (auto simp: back_setAlias_def root_setAlias_def children_of_def)
qed

lemma view_pop_push:
  assumes "hist_inv h"
  shows "hist_view (hist_pop_back (hist_push_back owner l b h)) = hist_view h"
proof -
  have "children_of (hist_pop_back (hist_push_back owner l b h)) r = children_of h r" if "r \<in> set (m_rootHistory h)" for r
    using children_of_push [OF assms that, of owner l b] by (simp add: children_of_def hist_pop_back_def)
  then show ?thesis using push_back_view(1) [OF assms, of owner l b] by (simp add: hist_view_def hist_pop_back_def)
qed

lemma new_history:
  "hist_push_back owner l b (RootNamespaceHistory nid) =
     \<lparr>h_id = nid, h_store = [[]], m_rootHistory = [RootNamespace nid owner l 0]\<rparr>"
  by (simp add: hist_push_back_def RootNamespaceHistory_def hist_empty_def)

text \<open>The history of the registered root after the commit: the pushed root, perhaps with an alias.\<close>

lemma root_commit_history:
  assumes c: "cache_inv root_of c" and r: "root_of i = i"
    and ins: "cache_insert_root cfg i owner lifetime c = Inr c1"
    and l: "NamespaceLifetime (Start lifetime) (End lifetime) (gracePeriodDuration cfg) = Inr l"
    and al: "c' = c1 \<or> cache_setAlias i al c1 = Inr c'" and c1: "cache_inv root_of c1"
  obtains b h1 h2 where
    "h1 = hist_push_back owner l b (case m_historyById c i of None \<Rightarrow> RootNamespaceHistory i | Some h \<Rightarrow> h)"
    "m_historyById c' = (m_historyById c)(i \<mapsto> h2)" "h_id h2 = i"
    "hist_pop_back h2 = hist_pop_back h1" "historyDepth h2 = historyDepth h1"
    "children_of h2 (hist_back h2) = children_of h1 (hist_back h1)" "rn_lifetime (hist_back h2) = l"
    "expiry_groups_of c' = AddIdentifierWithGroup (expiry_groups_of c) (GracePeriodEnd l) i"
proof -
  obtain b h1 where h1: "h1 = hist_push_back owner l b (case m_historyById c i of None \<Rightarrow> RootNamespaceHistory i | Some h \<Rightarrow> h)"
    and H: "m_historyById c1 = (m_historyById c)(i \<mapsto> h1)"
    and g: "expiry_groups_of c1 = AddIdentifierWithGroup (expiry_groups_of c) (GracePeriodEnd l) i"
    using insert_root_history [OF c ins] l by (metis Inr_inject)
  have H1: "m_historyById c1 i = Some h1" using H by simp
  note hh = cache_invD [OF c1 H1]
  have last: "rn_lifetime (hist_back h1) = l"
  proof (cases "m_historyById c i")
    case None
    then show ?thesis by (simp add: h1 new_history hist_back_def RootNamespace_def)
  next
    case (Some h)
    then show ?thesis using push_back_view(3) [OF cache_invD(2) [OF c Some]] by (simp add: h1)
  qed
  show thesis using al
  proof
    assume "c' = c1"
    then show thesis using that [OF h1, of h1] H hh(1) last g by simp
  next
    assume set: "cache_setAlias i al c1 = Inr c'"
    have flat: "m_namespaceById c1 i = Some [i]" using H1 r by (simp add: cache_inv_flat [OF c1] flat_of_def)
    obtain h2 where h2: "back_setAlias i al h1 = Inr h2" "c' = put_history h2 c1"
      using set flat H1 by (auto simp: cache_setAlias_def ns_rootId_def res_bind_Inr_iff)
    have eq: "h2 = h1\<lparr>m_rootHistory := butlast (m_rootHistory h1) @ [(hist_back h1)\<lparr>rn_alias := al\<rparr>]\<rparr>"
      using back_setAlias_root [OF hh(2)] h2(1) hh(1) by simp
    have ne: "m_rootHistory h1 \<noteq> []" using hh(2) by (simp add: hist_inv_def)
    have "m_historyById c' = (m_historyById c)(i \<mapsto> h2)" "expiry_groups_of c' = expiry_groups_of c1"
      using h2(2) H hh(1) by (simp_all add: put_history_def eq)
    then show thesis using that [OF h1, of h2] last g hh(1) ne
      by (simp add: eq hist_pop_back_def historyDepth_def hist_back_def children_of_def)
  qed
qed

lemma remove_root_result:
  assumes c: "cache_inv root_of c" and r: "root_of i = i" and h: "m_historyById c i = Some h"
    and ok: "historyDepth h = 1 \<Longrightarrow> children_of h (hist_back h) = []"
  obtains c' where "cache_remove i c = Inr c'" "cache_inv root_of c'"
    "m_historyById c' = (m_historyById c)(i := (if hist_empty (hist_pop_back h) then None else Some (hist_pop_back h)))"
    "expiry_groups_of c' = RemoveIdentifierWithGroup (expiry_groups_of c) (GracePeriodEnd (rn_lifetime (hist_back h))) i"
proof -
  have flat: "m_namespaceById c i = Some [i]" using h r by (simp add: cache_inv_flat [OF c] flat_of_def)
  have ids: "h_id (hist_pop_back h) = i" using cache_invD(1) [OF c h] by (simp add: hist_pop_back_def)
  have "\<not> (1 = historyDepth h \<and> children_of h (hist_back h) \<noteq> [])" using ok by auto
  then obtain c' where c': "removeRoot i c = Inr c'"
    "m_historyById c' = (m_historyById c)(i := (if hist_empty (hist_pop_back h) then None else Some (hist_pop_back h)))"
    "expiry_groups_of c' = RemoveIdentifierWithGroup (expiry_groups_of c) (GracePeriodEnd (rn_lifetime (hist_back h))) i"
    using ids h by (cases "hist_empty (hist_pop_back h)")
      (auto simp: removeRoot_def Let_def put_history_def decrementDeepSize_def decrementActiveSize_def incrementActiveSize_def)
  then show thesis using that [of c'] flat remove_root_inv [OF c c'(1)] by (simp add: cache_remove_def ns_rootId_def)
qed

lemma pushed_root_pop:
  assumes c: "cache_inv root_of c"
    and h1: "h1 = hist_push_back owner l b (case m_historyById c i of None \<Rightarrow> RootNamespaceHistory i | Some h \<Rightarrow> h)"
    and h2: "hist_pop_back h2 = hist_pop_back h1" "historyDepth h2 = historyDepth h1"
      "children_of h2 (hist_back h2) = children_of h1 (hist_back h1)"
  shows "(if hist_empty (hist_pop_back h2) then None else Some (hist_view (hist_pop_back h2))) = history_views c i"
    and "historyDepth h2 = 1 \<Longrightarrow> children_of h2 (hist_back h2) = []"
proof -
  have "(if hist_empty (hist_pop_back h2) then None else Some (hist_view (hist_pop_back h2))) = history_views c i \<and>
      (historyDepth h2 = 1 \<longrightarrow> children_of h2 (hist_back h2) = [])"
  proof (cases "m_historyById c i")
    case None
    then show ?thesis using h2(1,3)
      by (simp add: h1 new_history hist_pop_back_def hist_empty_def history_views_def hist_back_def children_of_def RootNamespace_def)
  next
    case (Some h)
    note hi = cache_invD(2) [OF c Some]
    have "m_rootHistory (hist_pop_back h1) = m_rootHistory h" "historyDepth h1 = Suc (historyDepth h)"
      using push_back_view(1) [OF hi, of owner l b] Some by (simp_all add: h1 hist_pop_back_def historyDepth_def)
    moreover have "m_rootHistory h \<noteq> []" using hi by (simp add: hist_inv_def)
    ultimately show ?thesis using view_pop_push [OF hi, of owner l b] Some h2(1,2)
      by (simp add: h1 hist_empty_def history_views_def historyDepth_def)
  qed
  then show "(if hist_empty (hist_pop_back h2) then None else Some (hist_view (hist_pop_back h2))) = history_views c i"
    "historyDepth h2 = 1 \<Longrightarrow> children_of h2 (hist_back h2) = []" by simp_all
qed

lemma root_rollback:
  assumes c: "cache_inv root_of c" and rec: "records_ok cfg height c" and acc: "accepted cfg root_of height (TxRoot n) c"
    and obs: "observe cfg Commit height (TxRoot n) c = Inr c'"
    and edge: "\<forall>h. m_historyById c (RootNamespaceId n) = Some h \<longrightarrow> GracePeriodEnd (rn_lifetime (hist_back h)) \<noteq> - 1"
  shows "\<exists>c''. observe cfg Rollback height (TxRoot n) c' = Inr c'' \<and> same_cache c'' c"
proof -
  let ?i = "RootNamespaceId n"
  have life: "lifetimes_ok cfg height c" and ex: "expiry_ok height c" using rec by (simp_all add: records_ok_def)
  have av: "RootNamespaceAvailability_validator cfg height n c = Inr Result_Success"
    "NamespaceDurationOverflow_validator cfg height n c = Inr Result_Success" "root_of ?i = ?i" using acc by simp_all
  obtain l lifetime al c1 where l: "cache_insert_root cfg ?i (RootSigner n) lifetime c = Inr c1"
      "NamespaceLifetime (Start lifetime) (End lifetime) (gracePeriodDuration cfg) = Inr l"
      "c' = c1 \<or> cache_setAlias ?i al c1 = Inr c'" "cache_inv root_of c1"
      "lifetime_ok (gracePeriodDuration cfg) height l"
      "holders c1 = (holders c)(?i \<mapsto> (case holders c ?i of None \<Rightarrow> [] | Some ts \<Rightarrow> ts) @ [(RootSigner n, l)])"
      "expiry_groups_of c1 = AddIdentifierWithGroup (expiry_groups_of c) (GracePeriodEnd l) ?i"
      "height < GracePeriodEnd l"
      "\<forall>h. m_historyById c ?i = Some h \<longrightarrow>
       GracePeriodEnd (rn_lifetime (hist_back h)) \<le> GracePeriodEnd l \<and>
       (GracePeriodEnd (rn_lifetime (hist_back h)) \<noteq> - 1 \<longrightarrow> GracePeriodEnd (rn_lifetime (hist_back h)) < GracePeriodEnd l) \<and>
       (isActiveOrGracePeriod (rn_lifetime (hist_back h)) height \<longrightarrow> rn_owner (hist_back h) = RootSigner n)"
    by (rule register_root_insert [OF c life av(3,1,2) obs [unfolded observe.simps]])
  obtain b h1 h2 where h1: "h1 = hist_push_back (RootSigner n) l b (case m_historyById c ?i of None \<Rightarrow> RootNamespaceHistory ?i | Some h \<Rightarrow> h)"
    and h2: "m_historyById c' = (m_historyById c)(?i \<mapsto> h2)" "h_id h2 = ?i" "hist_pop_back h2 = hist_pop_back h1"
      "historyDepth h2 = historyDepth h1" "children_of h2 (hist_back h2) = children_of h1 (hist_back h1)"
      "rn_lifetime (hist_back h2) = l"
      "expiry_groups_of c' = AddIdentifierWithGroup (expiry_groups_of c) (GracePeriodEnd l) ?i"
    by (rule root_commit_history [OF c av(3) l(1-4)])
  have c': "cache_inv root_of c'" using l(3,4) set_alias_inv by blast
  note pop = pushed_root_pop [OF c h1 h2(3-5)]
  have H2: "m_historyById c' ?i = Some h2" using h2(1) by simp
  obtain c'' where c'': "cache_remove ?i c' = Inr c''" "cache_inv root_of c''"
      "m_historyById c'' = (m_historyById c')(?i := (if hist_empty (hist_pop_back h2) then None else Some (hist_pop_back h2)))"
      "expiry_groups_of c'' = RemoveIdentifierWithGroup (expiry_groups_of c') (GracePeriodEnd (rn_lifetime (hist_back h2))) ?i"
    using remove_root_result [OF c' av(3) H2 pop(2)] by blast
  have fresh: "?i \<notin> set (GetAllIdentifiersWithGroup (expiry_groups_of c) (GracePeriodEnd l))"
  proof
    assume "?i \<in> set (GetAllIdentifiersWithGroup (expiry_groups_of c) (GracePeriodEnd l))"
    then obtain h t where ht: "m_historyById c ?i = Some h" "t \<in> set (tenures h)" "GracePeriodEnd (snd t) = GracePeriodEnd l"
      using expiry_okD(1) [OF ex] l(8) by (force simp: holders_def)
    then show False using tenure_bound [OF cache_invD(2) [OF c ht(1)] ht(2)] l(9) edge by force
  qed
  have "expiry_groups_of c'' = expiry_groups_of c"
    unfolding c''(4) h2(6,7) by (rule grp.rem_add [OF cache_inv_groups [OF c] fresh])
  moreover have "history_views c'' = history_views c"
    using pop(1) by (auto simp: history_views_def [of c''] c''(3) h2(1) fun_eq_iff) (simp_all add: history_views_def)
  ultimately show ?thesis using same_cacheI [OF c''(2) c] c''(1) by (simp add: RootNamespace_observer_def)
qed

lemma child_prefix:
  assumes wf: "children_wf rid cs" and k: "0 < k" and q: "q \<in> insert [rid] (child_paths cs)" "k \<le> length q"
  shows "take k q \<in> insert [rid] (child_paths cs)"
  using q
proof (induction "length q" arbitrary: q rule: less_induct)
  case less
  show ?case
  proof (cases "k = length q \<or> q = [rid]")
    case True
    then show ?thesis using less.prems k by (cases k) auto
  next
    case False
    then have "q \<in> child_paths cs" "k \<le> length (butlast q)" "length (butlast q) < length q" using less.prems k by auto
    then have "butlast q \<in> insert [rid] (child_paths cs)" using wf by (auto simp: children_wf_def)
    then have "take k (butlast q) \<in> insert [rid] (child_paths cs)"
      using less.hyps \<open>k \<le> length (butlast q)\<close> \<open>length (butlast q) < length q\<close> by blast
    moreover have "k < length q" using \<open>k \<le> length (butlast q)\<close> \<open>length (butlast q) < length q\<close> by simp
    ultimately show ?thesis by (simp add: take_butlast)
  qed
qed

lemma no_descendents:
  assumes wf: "children_wf rid cs" and new: "i \<notin> fst ` set cs" "i \<noteq> rid" and k: "0 < k"
  shows "\<not> hasDescendents cs k i"
proof
  assume "hasDescendents cs k i"
  then obtain j d where d: "(j, d) \<in> set cs" "k < length (Path d)" "i = Path d ! (k - 1)"
    by (auto simp: hasDescendents_def list_ex_iff)
  have "Path d \<in> insert [rid] (child_paths cs)" using d(1) by (force simp: child_paths_def)
  then have "take k (Path d) \<in> insert [rid] (child_paths cs)" using child_prefix [OF wf k] d(2) by simp
  moreover have i: "ns_id (take k (Path d)) = i" using d(2,3) k by (simp add: ns_id_def)
  moreover have "ns_id [rid] = rid" by (simp add: ns_id_def)
  ultimately obtain j' e where e: "(j', e) \<in> set cs" "take k (Path d) = Path e" using new(2) by (auto simp: child_paths_def)
  then have "ns_id (Path e) = j'" using wf by (auto simp: children_wf_def children_keyed_def)
  then show False using i e new(1) by force
qed

lemma child_rollback:
  assumes c: "cache_inv root_of c" and acc: "accepted cfg root_of height (TxChild n) c"
    and obs: "observe cfg Commit height (TxChild n) c = Inr c'"
  shows "\<exists>c''. observe cfg Rollback height (TxChild n) c' = Inr c'' \<and> same_cache c'' c"
proof -
  let ?i = "ChildNamespaceId n"
  have av: "ChildNamespaceAvailability_validator height n c = Inr Result_Success" "root_of ?i = root_of (ChildParentId n)"
    using acc by simp_all
  note eff = register_child_effect [OF c av obs [unfolded observe.simps]]
  obtain p h where find: "cache_find (ChildParentId n) c = Inr (p, h)" and ins: "cache_insert_child (p @ [?i]) c = Inr c'"
    using obs by (auto simp: ChildNamespace_observer_def res_bind_Inr_iff path_push_def make_namespace_def split: if_splits)
  note parent = find_ok [OF c find]
  note pp = ancestors_active [OF c parent(1)]
  note hh = cache_invD [OF c parent(2)]
  have ids: "ns_id (p @ [?i]) = ?i" "ns_rootId (p @ [?i]) = h_id h"
    using pp(2,3) hh(1) by (simp_all add: ns_id_def ns_rootId_def nth_append)
  have H: "m_historyById c (h_id h) = Some h" using parent(2) hh(1) by simp
  obtain cs where add: "root_add (rn_id (hist_back h)) (p @ [?i]) (active_children h) = Inr cs"
    and c': "m_historyById c' = (m_historyById c)(h_id h \<mapsto> h\<lparr>h_store := (h_store h)[rn_pChildren (hist_back h) := cs]\<rparr>)"
    using ins H ids by (auto simp: cache_insert_child_def back_add_def active_children_def res_bind_Inr_iff put_history_def
        incrementDeepSize_def incrementActiveSize_def Let_def)
  define h' where "h' = h\<lparr>h_store := (h_store h)[rn_pChildren (hist_back h) := cs]\<rparr>"
  have cs: "cs = active_children h @ [(?i, \<lparr>Path = p @ [?i], Alias = NoAlias\<rparr>)]" "?i \<notin> fst ` set (active_children h)"
    using add ids by (auto simp: root_add_def res_bind_Inr_iff map_of_eq_None_iff split: if_splits option.splits)
  have idx: "rn_pChildren (hist_back h) < length (h_store h)"
    using hh(2) back_in_history [OF hh(2)] by (auto simp: hist_inv_def)
  have act: "children_of h' (hist_back h') = cs" using idx by (simp add: h'_def children_of_def hist_back_def)
  have new: "m_namespaceById c ?i = None"
    using av(1) by (auto simp: ChildNamespaceAvailability_validator_def cache_contains_def namespace_failures split: if_splits)
  have "m_namespaceById c (h_id h) \<noteq> None" using H hh(3) by (simp add: cache_inv_flat [OF c] flat_of_def owned_ids_def)
  then have ne: "?i \<noteq> h_id h" using new by auto
  have wf: "children_wf (h_id h) (active_children h)" using hh(1,4) by simp
  have "\<not> hasDescendents cs (length (p @ [?i])) ?i"
    using no_descendents [OF wf cs(2) ne, of "Suc (length p)"] by (simp add: cs(1) hasDescendents_def)
  moreover have "map_of cs ?i = Some \<lparr>Path = p @ [?i], Alias = NoAlias\<rparr>" unfolding cs(1) map_of_snoc [OF cs(2)] by simp
  moreover have "filter (\<lambda>x. fst x \<noteq> ?i) cs = active_children h" using cs by (force simp: filter_id_conv)
  ultimately have "back_remove ?i h' = Inr h"
    using idx by (simp add: back_remove_def act root_remove_def h'_def hist_back_def active_children_def children_of_def)
  moreover have "m_namespaceById c' ?i = Some (p @ [?i])"
    using ins H ids add by (auto simp: cache_insert_child_def back_add_def active_children_def res_bind_Inr_iff put_history_def
        incrementDeepSize_def incrementActiveSize_def Let_def)
  moreover have "m_historyById c' (h_id h) = Some h'" using c' by (simp add: h'_def)
  ultimately obtain c'' where c'': "removeChild (p @ [?i]) c' = Inr c''" "cache_remove ?i c' = Inr c''"
      "m_historyById c'' = (m_historyById c')(h_id h \<mapsto> h)" "expiry_groups_of c'' = expiry_groups_of c'"
      "m_namespaceById c' ?i = Some (p @ [?i])"
    using ids ne by (auto simp: removeChild_def cache_remove_def put_history_def decrementDeepSize_def decrementActiveSize_def Let_def)
  have "cache_inv root_of c''" using remove_child_inv [OF eff(1) c''(5) _ c''(1)] ids ne by simp
  moreover have "history_views c'' = history_views c" using H by (auto simp: history_views_def c''(3) c' fun_eq_iff)
  ultimately show ?thesis using same_cacheI [OF _ c] c''(2,4) eff(3) by (simp add: ChildNamespace_observer_def)
qed

lemma set_child_alias_undo:
  assumes "distinct (map fst cs)" "map_of cs i = Some d"
  shows "set_child_alias i (Alias d) (set_child_alias i a cs) = cs"
  unfolding set_child_alias_def map_map
proof (rule map_idI)
  fix x
  assume x: "x \<in> set cs"
  have "snd x = d" if "fst x = i" using x that eq_key_imp_eq_value [OF assms(1), of i "snd x" d] map_of_SomeD [OF assms(2)] by force
  then show "((\<lambda>(k, e). (k, if k = i then e\<lparr>Alias := Alias d\<rparr> else e)) \<circ> (\<lambda>(k, d). (k, if k = i then d\<lparr>Alias := a\<rparr> else d))) x = x"
    by (cases x) auto
qed

lemma back_setAlias_undo:
  assumes h: "hist_inv h" and set: "back_setAlias i a h = Inr h'"
    and a0: "root_alias (children_of h (hist_back h)) (hist_back h) i = Inr a0"
  shows "back_setAlias i a0 h' = Inr h"
proof (cases "rn_id (hist_back h) = i")
  case True
  have split: "m_rootHistory h = butlast (m_rootHistory h) @ [hist_back h]" by (rule history_split [OF h])
  have "h' = h\<lparr>m_rootHistory := butlast (m_rootHistory h) @ [(hist_back h)\<lparr>rn_alias := a\<rparr>]\<rparr>"
    using set True by (auto simp: back_setAlias_def root_setAlias_def children_of_def)
  moreover have "(hist_back h)\<lparr>rn_alias := a0\<rparr> = hist_back h" using a0 True by (simp add: root_alias_def)
  ultimately show ?thesis using True split
    by (simp add: back_setAlias_def root_setAlias_def children_of_def hist_back_def)
next
  case False
  let ?cs = "children_of h (hist_back h)"
  obtain d where d: "map_of ?cs i = Some d" "Alias d = a0" using a0 False by (auto simp: root_alias_def split: option.splits)
  have split: "m_rootHistory h = butlast (m_rootHistory h) @ [hist_back h]" by (rule history_split [OF h])
  have mem: "hist_back h \<in> set (m_rootHistory h)" by (rule back_in_history [OF h])
  have idx: "rn_pChildren (hist_back h) < length (h_store h)" and dist: "distinct (map fst ?cs)"
    using h mem by (auto simp: hist_inv_def children_wf_def children_keyed_def)
  have h': "h' = h\<lparr>h_store := (h_store h)[rn_pChildren (hist_back h) := set_child_alias i a ?cs]\<rparr>"
    using set False d split by (auto simp: back_setAlias_def root_setAlias_def)
  have back': "hist_back h' = hist_back h" "children_of h' (hist_back h') = set_child_alias i a ?cs"
    using idx by (simp_all add: h' hist_back_def children_of_def)
  have "map_of (set_child_alias i a ?cs) i \<noteq> None" using d(1)
    by (metis map_of_eq_None_iff map_fst_set_child_alias list.set_map option.distinct(1))
  then have "back_setAlias i a0 h' = Inr (h'\<lparr>h_store := (h_store h')[rn_pChildren (hist_back h) := ?cs],
      m_rootHistory := butlast (m_rootHistory h) @ [hist_back h]\<rparr>)"
    using False back' set_child_alias_undo [OF dist d(1), of a] d(2) by (simp add: back_setAlias_def root_setAlias_def h')
  then show ?thesis using split idx by (simp add: h' children_of_def)
qed

lemma setAlias_undo:
  assumes c: "cache_inv root_of c" and set: "cache_setAlias i a c = Inr c'" and find: "cache_find i c = Inr (p, h)"
    and a0: "root_alias (children_of h (hist_back h)) (hist_back h) i = Inr a0"
  shows "\<exists>c''. cache_setAlias i a0 c' = Inr c'' \<and> same_cache c'' c"
proof -
  note f = find_ok [OF c find]
  note hh = cache_invD [OF c f(2)]
  have r: "ns_rootId p = root_of i" by (rule ancestors_active(3) [OF c f(1)])
  obtain h' where h': "back_setAlias i a h = Inr h'" "c' = put_history h' c"
    using set f r by (auto simp: cache_setAlias_def res_bind_Inr_iff)
  have ids: "h_id h' = root_of i" using back_setAlias_inv(2) [OF hh(2) h'(1)] hh(1) by simp
  have "cache_setAlias i a0 c' = Inr (put_history h c')"
    using f r ids back_setAlias_undo [OF hh(2) h'(1) a0] by (simp add: cache_setAlias_def h'(2) put_history_def)
  moreover have "put_history h c' = c" using f(2) hh(1) ids by (simp add: put_history_def h'(2) fun_upd_idem)
  ultimately show ?thesis by (simp add: same_cache_def)
qed

lemma alias_rollback:
  assumes c: "cache_inv root_of c" and acc: "accepted cfg root_of height (TxAlias owner n) c"
    and obs: "observe cfg Commit height (TxAlias owner n) c = Inr c'"
  shows "\<exists>c''. observe cfg Rollback height (TxAlias owner n) c' = Inr c'' \<and> same_cache c'' c"
proof -
  let ?i = "AliasedNamespaceId n"
  obtain p h a0 where find: "cache_find ?i c = Inr (p, h)" and a0: "root_alias (children_of h (hist_back h)) (hist_back h) ?i = Inr a0"
    and link: "AliasedAction n = Link \<Longrightarrow> a0 = NoAlias"
    using acc by (auto simp: AliasAvailability_validator_def res_bind_Inr_iff Let_def namespace_failures split: if_splits)
  have unlink: "a0 = AliasedData n" if "AliasedAction n = Unlink"
    using acc that find a0
    by (auto simp: UnlinkAliasedDataConsistency_validator_def res_bind_Inr_iff namespace_failures split: if_splits)
  obtain a where "cache_setAlias ?i a c = Inr c'" using obs by (auto simp: AliasedObserverHandler_def split: if_splits)
  then have "\<exists>c''. cache_setAlias ?i a0 c' = Inr c'' \<and> same_cache c'' c" using setAlias_undo [OF c _ find a0] by blast
  moreover have "AliasedObserverHandler Rollback n c' = cache_setAlias ?i a0 c'"
    using link unlink by (cases "AliasedAction n") (simp_all add: AliasedObserverHandler_def ShouldLink_def)
  ultimately show ?thesis by simp
qed

section \<open>An example chain\<close>

definition example_cfg :: namespace_config where
  "example_cfg = \<lparr>gracePeriodDuration = 10, maxNamespaceDuration = 1000, blockchainVersion = 0x0001000200000000,
     networkPublicKey = [9], maxNameSize = 16, reservedRootNamespaceNames = [], maxChildNamespaces = 5\<rparr>"

definition example_root_of :: "namespace_id \<Rightarrow> namespace_id" where
  "example_root_of i = (if i = 21 then 20 else i)"

definition example_registration :: root_namespace_notification where
  "example_registration = \<lparr>RootSigner = [1], RootNamespaceId = 20, RootDuration = 100\<rparr>"

definition example_child :: child_namespace_notification where
  "example_child = \<lparr>ChildSigner = [1], ChildNamespaceId = 21, ChildParentId = 20\<rparr>"

definition example_root :: root_namespace where
  "example_root = \<lparr>rn_id = 20, rn_alias = NoAlias, rn_owner = [1],
     rn_lifetime = \<lparr>Start = 1, End = 101, GracePeriodEnd = 111\<rparr>, rn_pChildren = 0\<rparr>"

definition example_history :: "ns_children \<Rightarrow> root_namespace_history" where
  "example_history cs = \<lparr>h_id = 20, h_store = [cs], m_rootHistory = [example_root]\<rparr>"

definition example_cache1 :: namespace_cache where
  "example_cache1 = \<lparr>m_historyById = [20 \<mapsto> example_history []], m_namespaceById = [20 \<mapsto> [20]],
     m_rootNamespaceIdsByExpiryHeight = [111 \<mapsto> [20]], activeSize = 1, deepSize = 1\<rparr>"

definition example_cache2 :: namespace_cache where
  "example_cache2 = \<lparr>m_historyById = [20 \<mapsto> example_history [(21, \<lparr>Path = [20, 21], Alias = NoAlias\<rparr>)]],
     m_namespaceById = [20 \<mapsto> [20], 21 \<mapsto> [20, 21]],
     m_rootNamespaceIdsByExpiryHeight = [111 \<mapsto> [20]], activeSize = 2, deepSize = 2\<rparr>"

lemmas example_defs = example_cfg_def example_root_of_def example_registration_def example_child_def example_cache1_def
  example_cache2_def example_history_def example_root_def

lemma example_register: "RootNamespace_observer example_cfg Commit 1 example_registration empty_namespace_cache = Inr example_cache1"
  by (simp add: example_defs RootNamespace_observer_def NamespaceLifetime_def LifetimeEnd_def Eternal_Artifact_Duration_def
      cache_contains_def empty_namespace_cache_def cache_insert_root_def Let_def put_history_def incrementActiveSize_def
      incrementDeepSize_def new_history RootNamespace_def path_push_def make_namespace_def Namespace_Max_Depth_def ns_id_def
      AddIdentifierWithGroup_def group_add_def word_le_nat_alt [of _ 1])

lemma example_root_accepted: "accepted example_cfg example_root_of 1 (TxRoot example_registration) empty_namespace_cache"
  by (simp add: example_defs RootNamespaceAvailability_validator_def NamespaceDurationOverflow_validator_def AddOverflows_def
      cache_contains_def empty_namespace_cache_def Eternal_Artifact_Duration_def)

lemma example_reachable1: "namespace_reachable example_cfg example_root_of 1 example_cache1"
  by (rule namespace_reachable.step [OF namespace_reachable.start order.refl
        accepted_step [OF example_root_accepted]]) (simp add: example_register)

lemma example_child_accepted: "accepted example_cfg example_root_of 2 (TxChild example_child) example_cache1"
  by (simp add: example_defs ChildNamespaceAvailability_validator_def RootNamespaceMaxChildren_validator_def cache_contains_def
      cache_find_def ns_rootId_def hist_back_def Namespace_Max_Depth_def isActiveAndUnlocked_def children_of_def)

lemma example_child_registered: "observe example_cfg Commit 2 (TxChild example_child) example_cache1 = Inr example_cache2"
  by (simp add: example_defs ChildNamespace_observer_def cache_find_def ns_rootId_def hist_back_def path_push_def
      Namespace_Max_Depth_def make_namespace_def cache_insert_child_def back_add_def root_add_def children_of_def ns_id_def
      ns_parentId_def put_history_def incrementActiveSize_def incrementDeepSize_def activeOwnerHistoryDepth_def Let_def fun_eq_iff)

lemma example_reachable2: "namespace_reachable example_cfg example_root_of 2 example_cache2"
  by (rule namespace_reachable.step [OF example_reachable1 _ accepted_step [OF example_child_accepted example_child_registered]])
    (simp add: word_le_nat_alt)

text \<open>
  A required namespace may be in its grace period, although the validator's comment asks for an active one.
\<close>

lemma required_namespace_in_grace_period:
  "RequiredNamespace_validator 105 \<lparr>RequiredOwner = [1], RequiredNamespaceId = 20\<rparr> example_cache2 = Inr Result_Success \<and>
   \<not> isActiveAndUnlocked (rn_lifetime example_root) 105"
  by (simp add: example_defs RequiredNamespace_validator_def cache_contains_def cache_find_def ns_rootId_def hist_back_def
      isActiveOrGracePeriod_def isActiveAndUnlocked_def word_le_nat_alt)

section \<open>The properties of the namespace cache\<close>







end
