(* ===== verification/Account_Cache.thy ===== *)
theory Account_Cache
  imports Account_Balances Processing
begin

text \<open>
  The account state cache (\<^verbatim>\<open>cache_core/AccountStateCacheDelta.cpp\<close>): accounts by address, the map from public keys to
  addresses, the queued removals, and the importance view on top of it (\<^verbatim>\<open>cache_core/ImportanceView.cpp\<close>). Addresses
  and keys are type parameters; the derivation of an address from a key (\<^verbatim>\<open>PublicKeyToAddress\<close>, cryptography) is a
  field of the options. The theory shows that the key map stays in step with the accounts and that removing an account at
  the height that introduced it restores the cache.
\<close>

section \<open>The cache\<close>

type_synonym ('a, 'k) accounts = "'a \<rightharpoonup> ('a, 'k) account_state"

record ('a, 'k) account_cache =
  m_stateByAddress :: "('a, 'k) accounts"
  m_keyToAddress :: "'k \<rightharpoonup> 'a"
  m_queuedRemoveByAddress :: "(height \<times> 'a) list"
  m_queuedRemoveByPublicKey :: "(height \<times> 'k) list"

record ('a, 'k) account_options =
  CurrencyMosaicId :: mosaic_id
  HarvestingMosaicId :: mosaic_id
  PublicKeyToAddress :: "'k \<Rightarrow> 'a"
  ZeroKey :: 'k

definition contains_address :: "'a \<Rightarrow> ('a, 'k) account_cache \<Rightarrow> bool" where
  "contains_address address c \<longleftrightarrow> m_stateByAddress c address \<noteq> None"

text \<open>\<^verbatim>\<open>ComposedLookupAdapter\<close>: the address of the key, then the account at the address.\<close>

definition find_key :: "'k \<Rightarrow> ('a, 'k) account_cache \<Rightarrow> ('a, 'k) account_state option" where
  "find_key publicKey c =
     (case m_keyToAddress c publicKey of None \<Rightarrow> None | Some address \<Rightarrow> m_stateByAddress c address)"

definition getAddress :: "('a, 'k) account_options \<Rightarrow> 'k \<Rightarrow> ('a, 'k) account_cache \<Rightarrow> 'a \<times> ('a, 'k) account_cache" where
  "getAddress options publicKey c =
     (case m_keyToAddress c publicKey of
        Some address \<Rightarrow> (address, c)
      | None \<Rightarrow> let address = PublicKeyToAddress options publicKey
                in (address, c\<lparr>m_keyToAddress := (m_keyToAddress c)(publicKey \<mapsto> address)\<rparr>))"

definition addAccount_state ::
  "('a, 'k) account_options \<Rightarrow> ('a, 'k) account_state \<Rightarrow> ('a, 'k) account_cache \<Rightarrow> ('a, 'k) account_cache result" where
  "addAccount_state options s c =
     (if contains_address (Address s) c then Inr c
      else
        let c = (if 0 \<noteq> PublicKeyHeight s
                 then (if m_keyToAddress c (PublicKey s) = None
                       then c\<lparr>m_keyToAddress := (m_keyToAddress c)(PublicKey s \<mapsto> Address s)\<rparr> else c)
                 else c)
        in res_bind (optimize (Balances s) (CurrencyMosaicId options)) (\<lambda>b.
           res_bind (track b (HarvestingMosaicId options)) (\<lambda>b.
           Inr (c\<lparr>m_stateByAddress := (m_stateByAddress c)(Address s \<mapsto> s\<lparr>Balances := b\<rparr>)\<rparr>))))"

definition addAccount_address ::
  "('a, 'k) account_options \<Rightarrow> 'a \<Rightarrow> height \<Rightarrow> ('a, 'k) account_cache \<Rightarrow> ('a, 'k) account_cache result" where
  "addAccount_address options address height c =
     (if contains_address address c then Inr c
      else addAccount_state options (AccountState (ZeroKey options) address height) c)"

definition addAccount_key ::
  "('a, 'k) account_options \<Rightarrow> 'k \<Rightarrow> height \<Rightarrow> ('a, 'k) account_cache \<Rightarrow> ('a, 'k) account_cache result" where
  "addAccount_key options publicKey height c =
     (case getAddress options publicKey c of (address, c) \<Rightarrow>
        res_bind (addAccount_address options address height c) (\<lambda>c.
        case m_stateByAddress c address of
          None \<Rightarrow> Inl (InvalidArgument ''not found'')
        | Some s \<Rightarrow>
            if 0 \<noteq> PublicKeyHeight s then Inr c
            else Inr (c\<lparr>m_stateByAddress := (m_stateByAddress c)
                         (address \<mapsto> s\<lparr>PublicKey := publicKey, PublicKeyHeight := height\<rparr>)\<rparr>)))"

definition remove_address :: "'a \<Rightarrow> height \<Rightarrow> ('a, 'k) account_cache \<Rightarrow> ('a, 'k) account_cache" where
  "remove_address address height c =
     (case m_stateByAddress c address of
        None \<Rightarrow> c
      | Some s \<Rightarrow>
          if height \<noteq> AddressHeight s then c
          else
            let c = (if 0 \<noteq> PublicKeyHeight s then c\<lparr>m_keyToAddress := (m_keyToAddress c)(PublicKey s := None)\<rparr> else c)
            in c\<lparr>m_stateByAddress := (m_stateByAddress c)(address := None)\<rparr>)"

definition remove_key :: "('a, 'k) account_options \<Rightarrow> 'k \<Rightarrow> height \<Rightarrow> ('a, 'k) account_cache \<Rightarrow> ('a, 'k) account_cache" where
  "remove_key options publicKey height c =
     (case find_key publicKey c of
        None \<Rightarrow> c
      | Some s \<Rightarrow>
          if height \<noteq> PublicKeyHeight s then c
          else
            let address = the (m_keyToAddress c publicKey);
                c = c\<lparr>m_keyToAddress := (m_keyToAddress c)(PublicKey s := None)\<rparr>
            in if PublicKeyHeight s = AddressHeight s
               then c\<lparr>m_stateByAddress := (m_stateByAddress c)(Address s := None)\<rparr>
               else c\<lparr>m_stateByAddress := (m_stateByAddress c)
                        (address \<mapsto> s\<lparr>PublicKeyHeight := 0, PublicKey := ZeroKey options\<rparr>)\<rparr>)"

definition queueRemove_address :: "'a \<Rightarrow> height \<Rightarrow> ('a, 'k) account_cache \<Rightarrow> ('a, 'k) account_cache" where
  "queueRemove_address address height c =
     c\<lparr>m_queuedRemoveByAddress := List.insert (height, address) (m_queuedRemoveByAddress c)\<rparr>"

definition queueRemove_key :: "'k \<Rightarrow> height \<Rightarrow> ('a, 'k) account_cache \<Rightarrow> ('a, 'k) account_cache" where
  "queueRemove_key publicKey height c =
     c\<lparr>m_queuedRemoveByPublicKey := List.insert (height, publicKey) (m_queuedRemoveByPublicKey c)\<rparr>"

definition commitRemovals :: "('a, 'k) account_options \<Rightarrow> ('a, 'k) account_cache \<Rightarrow> ('a, 'k) account_cache" where
  "commitRemovals options c =
     (let c1 = fold (\<lambda>(height, address). remove_address address height) (m_queuedRemoveByAddress c) c;
          c2 = fold (\<lambda>(height, publicKey). remove_key options publicKey height) (m_queuedRemoveByPublicKey c1) c1
      in c2\<lparr>m_queuedRemoveByAddress := [], m_queuedRemoveByPublicKey := []\<rparr>)"

text \<open>\<^verbatim>\<open>AccountObserver.cpp\<close>: registrations are added on commit and queued for removal on rollback.
  Addresses come unresolved and are resolved first.\<close>

datatype ('u, 'k) account_notification = AccountAddressNotification 'u | AccountPublicKeyNotification 'k

definition AccountObserver ::
  "('u \<Rightarrow> 'a) \<Rightarrow> ('a, 'k) account_options \<Rightarrow> notify_mode \<Rightarrow> height \<Rightarrow> ('u, 'k) account_notification \<Rightarrow>
   ('a, 'k) account_cache \<Rightarrow> ('a, 'k) account_cache result" where
  "AccountObserver resolve options mode height n c =
     (case n of
        AccountAddressNotification address \<Rightarrow>
          if Commit = mode then addAccount_address options (resolve address) height c
          else Inr (queueRemove_address (resolve address) height c)
      | AccountPublicKeyNotification publicKey \<Rightarrow>
          if Commit = mode then addAccount_key options publicKey height c
          else Inr (queueRemove_key publicKey height c))"

section \<open>Importances\<close>

text \<open>
  A remote account forwards to the account it is linked to. The function calls itself on the linked account, which has
  been checked to be a main account, so the second call is the last one.
\<close>

definition forward_importance ::
  "('a, 'k) account_cache \<Rightarrow> ('a, 'k) account_state \<Rightarrow> ('a, 'k) account_state result" where
  "forward_importance c s =
     (if Remote = AccountType s
      then case find_key (LinkedAccountKey s) c of
             None \<Rightarrow> Inl (InvalidArgument ''not found'')
           | Some linked \<Rightarrow> res_bind (RequireLinkedRemoteAndMainAccounts s linked) (\<lambda>_. Inr linked)
      else Inr s)"

definition FindAccountStateWithImportance ::
  "('a, 'k) account_options \<Rightarrow> ('a, 'k) account_cache \<Rightarrow> 'k \<Rightarrow> ('a, 'k) account_state option result" where
  "FindAccountStateWithImportance options c publicKey =
     (case find_key publicKey c of
        Some s \<Rightarrow> map_sum id Some (forward_importance c s)
      | None \<Rightarrow>
         (case m_stateByAddress c (PublicKeyToAddress options publicKey) of
            Some s \<Rightarrow> map_sum id Some (forward_importance c s)
          | None \<Rightarrow> Inr None))"

definition getAccountImportanceOrDefault ::
  "('a, 'k) account_options \<Rightarrow> u64 \<Rightarrow> ('a, 'k) account_cache \<Rightarrow> 'k \<Rightarrow> height \<Rightarrow> amount result" where
  "getAccountImportanceOrDefault options importanceGrouping c publicKey height =
     map_sum id (\<lambda>r. case r of None \<Rightarrow> 0 | Some s \<Rightarrow> getEffectiveBalance (Balances s) height importanceGrouping)
       (FindAccountStateWithImportance options c publicKey)"

definition canHarvest ::
  "('a, 'k) account_options \<Rightarrow> u64 \<Rightarrow> ('a, 'k) account_cache \<Rightarrow> 'k \<Rightarrow> height \<Rightarrow> amount \<Rightarrow> bool result" where
  "canHarvest options importanceGrouping c publicKey height minHarvestingBalance =
     map_sum id (\<lambda>r. case r of None \<Rightarrow> False
        | Some s \<Rightarrow> minHarvestingBalance \<le> getEffectiveBalance (Balances s) height importanceGrouping)
       (FindAccountStateWithImportance options c publicKey)"

section \<open>Keys and accounts are in step\<close>

definition cache_keys_ok :: "('a, 'k) account_options \<Rightarrow> ('a, 'k) account_cache \<Rightarrow> bool" where
  "cache_keys_ok options c \<longleftrightarrow>
     (\<forall>a s. m_stateByAddress c a = Some s \<longrightarrow> Address s = a \<and>
        (if PublicKeyHeight s = 0 then PublicKey s = ZeroKey options else PublicKeyToAddress options (PublicKey s) = a)) \<and>
     (\<forall>k a. m_keyToAddress c k = Some a \<longleftrightarrow>
        (\<exists>s. m_stateByAddress c a = Some s \<and> PublicKeyHeight s \<noteq> 0 \<and> PublicKey s = k))"

lemma cache_keys_okD:
  assumes "cache_keys_ok options c"
  shows "m_stateByAddress c a = Some s \<Longrightarrow> Address s = a"
    and "m_stateByAddress c a = Some s \<Longrightarrow> PublicKeyHeight s = 0 \<Longrightarrow> PublicKey s = ZeroKey options"
    and "m_stateByAddress c a = Some s \<Longrightarrow> PublicKeyHeight s \<noteq> 0 \<Longrightarrow>
      PublicKeyToAddress options (PublicKey s) = a \<and> m_keyToAddress c (PublicKey s) = Some a"
    and "m_keyToAddress c k = Some a \<Longrightarrow>
      PublicKeyToAddress options k = a \<and> (\<exists>s. m_stateByAddress c a = Some s \<and> PublicKeyHeight s \<noteq> 0 \<and> PublicKey s = k)"
  using assms unfolding cache_keys_ok_def by (metis option.inject)+

text \<open>The key map is determined by the accounts.\<close>

lemma key_map_determined:
  assumes "cache_keys_ok options c" and "cache_keys_ok options c'" and "m_stateByAddress c = m_stateByAddress c'"
  shows "m_keyToAddress c = m_keyToAddress c'"
proof
  fix k
  show "m_keyToAddress c k = m_keyToAddress c' k"
    using assms unfolding cache_keys_ok_def by (intro option_eqI) metis
qed

text \<open>Nobody else's key leads to the address of the key.\<close>

definition no_collision :: "('a, 'k) account_options \<Rightarrow> 'k \<Rightarrow> ('a, 'k) account_cache \<Rightarrow> bool" where
  "no_collision options k c \<longleftrightarrow>
     (\<forall>s. m_stateByAddress c (PublicKeyToAddress options k) = Some s \<longrightarrow> PublicKeyHeight s \<noteq> 0 \<longrightarrow> PublicKey s = k)"

definition new_balances :: "('a, 'k) account_options \<Rightarrow> height \<Rightarrow> account_balances \<Rightarrow> bool" where
  "new_balances options h b \<longleftrightarrow> bal_inv b \<and> m_accountState b = Some h \<and> (\<forall>m. get_balance b m = 0)"

lemma fresh_balances:
  obtains b1 b where "optimize (AccountBalances (Some h)) (CurrencyMosaicId options) = Inr b1"
    "track b1 (HarvestingMosaicId options) = Inr b" "new_balances options h b"
proof -
  obtain m where m: "optimize_mosaic empty_map (CurrencyMosaicId options) = Inr m" "map_inv m" "lookup m = lookup empty_map"
      "m_optimizedMosaicId m = CurrencyMosaicId options"
    by (rule optimize_mosaic_spec [OF map_inv_empty_map, of "CurrencyMosaicId options"]) (simp_all add: empty_map_def)
  define b1 where "b1 = (AccountBalances (Some h))\<lparr>m_balances := m, m_optimizedId := CurrencyMosaicId options\<rparr>"
  define b where "b = b1\<lparr>m_trackedMosaicId := HarvestingMosaicId options\<rparr>"
  have o: "optimize (AccountBalances (Some h)) (CurrencyMosaicId options) = Inr b1"
    using m(1) by (simp add: optimize_def b1_def AccountBalances_def)
  have t: "track b1 (HarvestingMosaicId options) = Inr b"
    by (simp add: track_def b_def b1_def AccountBalances_def)
  have inv: "bal_inv b" using m by (simp add: bal_inv_def b_def b1_def AccountBalances_def snapshots_ok_def)
  have "get_balance b k = 0" for k
    unfolding get_balance_bal [OF inv]
    using m(3) by (simp add: b_def b1_def AccountBalances_def cmm.bal_def lookup_empty_map)
  then show thesis using that [OF o t] inv by (simp add: new_balances_def b_def b1_def AccountBalances_def)
qed

lemma addAccount_address_effect:
  obtains b where "new_balances options h b"
    "addAccount_address options a h c = Inr (if contains_address a c then c
       else c\<lparr>m_stateByAddress := (m_stateByAddress c)(a \<mapsto> (AccountState (ZeroKey options) a h)\<lparr>Balances := b\<rparr>)\<rparr>)"
proof -
  obtain b1 b where "optimize (AccountBalances (Some h)) (CurrencyMosaicId options) = Inr b1"
      "track b1 (HarvestingMosaicId options) = Inr b" "new_balances options h b"
    by (rule fresh_balances)
  then show thesis using that [of b] by (simp add: addAccount_address_def addAccount_state_def AccountState_def Let_def)
qed

section \<open>Undoing the registrations of a block\<close>

text \<open>
  How a cache may differ, address by address, from the one at the start of the block at \<open>height\<close>: new accounts and new
  keys, each of them announced for removal by an address of \<open>A\<close> or a key of \<open>K\<close>.
\<close>

definition entry_of_block ::
  "('a, 'k) account_options \<Rightarrow> height \<Rightarrow> 'a set \<Rightarrow> 'k set \<Rightarrow> 'a \<Rightarrow> ('a, 'k) account_state option \<Rightarrow> ('a, 'k) account_state option \<Rightarrow> bool" where
  "entry_of_block options height A K a before after \<longleftrightarrow> after = before \<or>
     (\<exists>s. before = None \<and> after = Some s \<and> AddressHeight s = height \<and>
        (PublicKeyHeight s = 0 \<and> a \<in> A \<or> PublicKeyHeight s = height \<and> PublicKey s \<in> K)) \<or>
     (\<exists>s k. before = Some s \<and> PublicKeyHeight s = 0 \<and> k \<in> K \<and>
        after = Some (s\<lparr>PublicKey := k, PublicKeyHeight := height\<rparr>))"

definition block_of ::
  "('a, 'k) account_options \<Rightarrow> height \<Rightarrow> 'a set \<Rightarrow> 'k set \<Rightarrow> ('a, 'k) account_cache \<Rightarrow> ('a, 'k) account_cache \<Rightarrow> bool" where
  "block_of options height A K c c' \<longleftrightarrow> cache_keys_ok options c' \<and>
     (\<forall>a. entry_of_block options height A K a (m_stateByAddress c a) (m_stateByAddress c' a))"

definition fresh_height :: "height \<Rightarrow> ('a, 'k) account_cache \<Rightarrow> bool" where
  "fresh_height height c \<longleftrightarrow> height \<noteq> 0 \<and>
     (\<forall>a s. m_stateByAddress c a = Some s \<longrightarrow> AddressHeight s \<noteq> height \<and> PublicKeyHeight s \<noteq> height)"

lemma entry_cases:
  assumes "entry_of_block options h A K a x y"
  shows "x = y \<or> (\<exists>s. x = None \<and> y = Some s \<and> AddressHeight s = h) \<or> (\<exists>s. y = Some s \<and> PublicKeyHeight s = h)"
  using assms unfolding entry_of_block_def by (elim disjE exE) simp_all

lemma entry_before:
  assumes ent: "entry_of_block options h A K a x (Some s)" and h: "h \<noteq> 0"
    and old: "\<forall>t. x = Some t \<longrightarrow> AddressHeight t \<noteq> h \<and> PublicKeyHeight t \<noteq> h \<and>
      (PublicKeyHeight t = 0 \<longrightarrow> PublicKey t = z)"
  shows "AddressHeight s = h \<Longrightarrow> x = None"
    and "PublicKeyHeight s = h \<Longrightarrow> AddressHeight s \<noteq> h \<Longrightarrow> x = Some (s\<lparr>PublicKeyHeight := 0, PublicKey := z\<rparr>)"
proof -
  consider "x = Some s" | "x = None" "AddressHeight s = h"
    | t k where "x = Some t" "PublicKeyHeight t = 0" "s = t\<lparr>PublicKey := k, PublicKeyHeight := h\<rparr>"
    using ent unfolding entry_of_block_def by auto
  note three = this
  show "x = None" if "AddressHeight s = h" using old that by (cases rule: three) simp_all
  show "x = Some (s\<lparr>PublicKeyHeight := 0, PublicKey := z\<rparr>)" if "PublicKeyHeight s = h" "AddressHeight s \<noteq> h"
  proof (cases rule: three)
    case (3 t k)
    then show ?thesis using old by (cases t) simp
  qed (use old that in simp_all)
qed

lemma entry_mono: "entry_of_block options h A K a x y \<Longrightarrow> A \<subseteq> A' \<Longrightarrow> K \<subseteq> K' \<Longrightarrow> entry_of_block options h A' K' a x y"
  unfolding entry_of_block_def by blast

lemma block_ofI:
  assumes "block_of options h A K c c'" and "cache_keys_ok options c''" and "A \<subseteq> A'" "K \<subseteq> K'"
    and "\<And>j. j \<noteq> a \<Longrightarrow> m_stateByAddress c'' j = m_stateByAddress c' j"
    and "entry_of_block options h A' K' a (m_stateByAddress c a) (m_stateByAddress c'' a)"
  shows "block_of options h A' K' c c''"
  unfolding block_of_def
proof (intro conjI allI)
  fix j
  show "entry_of_block options h A' K' j (m_stateByAddress c j) (m_stateByAddress c'' j)"
  proof (cases "j = a")
    case False
    have "entry_of_block options h A K j (m_stateByAddress c j) (m_stateByAddress c' j)"
      using assms(1) by (simp add: block_of_def)
    then show ?thesis using entry_mono assms(3-5) False by metis
  qed (use assms(6) in simp)
qed (rule assms(2))

lemma add_address_block:
  assumes blk: "block_of options h A K c c'" and h: "h \<noteq> 0" and add: "addAccount_address options a h c' = Inr c''"
  shows "block_of options h (insert a A) K c c''"
proof -
  obtain b where eq: "addAccount_address options a h c' = Inr (if contains_address a c' then c'
       else c'\<lparr>m_stateByAddress := (m_stateByAddress c')(a \<mapsto> (AccountState (ZeroKey options) a h)\<lparr>Balances := b\<rparr>)\<rparr>)"
    by (rule addAccount_address_effect)
  have ok: "cache_keys_ok options c'" and ent: "entry_of_block options h A K a (m_stateByAddress c a) (m_stateByAddress c' a)"
    using blk by (simp_all add: block_of_def)
  show ?thesis
  proof (cases "contains_address a c'")
    case True
    then have "c'' = c'" using eq add by simp
    then show ?thesis using block_ofI [OF blk ok, of "insert a A" K a] entry_mono [OF ent, of "insert a A" K] by auto
  next
    case False
    then have none: "m_stateByAddress c' a = None" by (simp add: contains_address_def)
    have c'': "c'' = c'\<lparr>m_stateByAddress := (m_stateByAddress c')(a \<mapsto> (AccountState (ZeroKey options) a h)\<lparr>Balances := b\<rparr>)\<rparr>"
      using eq add False by simp
    have "m_stateByAddress c a = None" using ent none by (auto simp: entry_of_block_def)
    moreover have "cache_keys_ok options c''"
      using ok none by (auto simp: cache_keys_ok_def c'' AccountState_def)
    ultimately show ?thesis
      using block_ofI [OF blk, of c'' "insert a A" K a] none
      by (auto simp: c'' entry_of_block_def AccountState_def)
  qed
qed

lemma keys_ok_set_key:
  assumes ok: "cache_keys_ok options c" and h: "h \<noteq> 0" and a: "PublicKeyToAddress options k = a" "Address s = a"
    and new: "m_keyToAddress c k = None" "\<forall>s. m_stateByAddress c a = Some s \<longrightarrow> PublicKeyHeight s = 0"
    and c': "m_stateByAddress c' = (m_stateByAddress c)(a \<mapsto> s\<lparr>PublicKey := k, PublicKeyHeight := h\<rparr>)"
      "m_keyToAddress c' = (m_keyToAddress c)(k \<mapsto> a)"
  shows "cache_keys_ok options c'"
  unfolding cache_keys_ok_def
proof (intro conjI allI impI)
  fix a' s'
  assume s': "m_stateByAddress c' a' = Some s'"
  show "Address s' = a'" using s' a cache_keys_okD(1) [OF ok] by (cases "a' = a") (auto simp: c')
  show "if PublicKeyHeight s' = 0 then PublicKey s' = ZeroKey options else PublicKeyToAddress options (PublicKey s') = a'"
  proof (cases "a' = a")
    case True
    then show ?thesis using s' a h by (auto simp: c')
  next
    case False
    then have "m_stateByAddress c a' = Some s'" using s' by (simp add: c')
    then show ?thesis using cache_keys_okD(2,3) [OF ok, of a' s'] by simp
  qed
next
  fix k' a'
  have old: "m_keyToAddress c k' = Some a' \<longleftrightarrow> (\<exists>s. m_stateByAddress c a' = Some s \<and> PublicKeyHeight s \<noteq> 0 \<and> PublicKey s = k')"
    using ok by (simp add: cache_keys_ok_def)
  show "m_keyToAddress c' k' = Some a' \<longleftrightarrow>
      (\<exists>s. m_stateByAddress c' a' = Some s \<and> PublicKeyHeight s \<noteq> 0 \<and> PublicKey s = k')"
  proof (cases "a' = a")
    case True
    then have "m_keyToAddress c k' \<noteq> Some a'" using old new(2) by auto
    then show ?thesis using True h by (auto simp: c')
  next
    case False
    then show ?thesis using old new(1) by (cases "k' = k") (auto simp: c')
  qed
qed

lemma addAccount_key_effect:
  assumes "m_keyToAddress c k = None" and a: "a = PublicKeyToAddress options k"
    and none: "\<forall>s. m_stateByAddress c a = Some s \<longrightarrow> PublicKeyHeight s = 0"
    and add: "addAccount_key options k h c = Inr c'"
  obtains s where "m_stateByAddress c' = (m_stateByAddress c)(a \<mapsto> s\<lparr>PublicKey := k, PublicKeyHeight := h\<rparr>)"
    "m_keyToAddress c' = (m_keyToAddress c)(k \<mapsto> a)"
    "m_queuedRemoveByAddress c' = m_queuedRemoveByAddress c" "m_queuedRemoveByPublicKey c' = m_queuedRemoveByPublicKey c"
    "m_stateByAddress c a = Some s \<or> m_stateByAddress c a = None \<and> Address s = a \<and> AddressHeight s = h \<and> PublicKeyHeight s = 0 \<and>
      new_balances options h (Balances s)"
proof -
  define c1 where "c1 = c\<lparr>m_keyToAddress := (m_keyToAddress c)(k \<mapsto> a)\<rparr>"
  have get: "getAddress options k c = (a, c1)" using assms(1) by (simp add: getAddress_def c1_def a Let_def)
  obtain b where b: "new_balances options h b" and eq: "addAccount_address options a h c1 = Inr (if contains_address a c1 then c1
       else c1\<lparr>m_stateByAddress := (m_stateByAddress c1)(a \<mapsto> (AccountState (ZeroKey options) a h)\<lparr>Balances := b\<rparr>)\<rparr>)"
    by (rule addAccount_address_effect)
  show thesis
  proof (cases "m_stateByAddress c a")
    case None
    then have "c' = c1\<lparr>m_stateByAddress := (m_stateByAddress c)
        (a \<mapsto> (AccountState (ZeroKey options) a h)\<lparr>Balances := b\<rparr>\<lparr>PublicKey := k, PublicKeyHeight := h\<rparr>)\<rparr>"
      using add unfolding addAccount_key_def get prod.case eq
      by (simp add: contains_address_def c1_def AccountState_def)
    then show ?thesis using that [of "(AccountState (ZeroKey options) a h)\<lparr>Balances := b\<rparr>"] None b
      by (simp add: c1_def AccountState_def)
  next
    case (Some s)
    then have "PublicKeyHeight s = 0" using none by simp
    then have "c' = c1\<lparr>m_stateByAddress := (m_stateByAddress c)(a \<mapsto> s\<lparr>PublicKey := k, PublicKeyHeight := h\<rparr>)\<rparr>"
      using add Some unfolding addAccount_key_def get prod.case eq by (simp add: contains_address_def c1_def)
    then show ?thesis using that [of s] Some by (simp add: c1_def)
  qed
qed

lemma addAccount_key_total:
  obtains c' where "addAccount_key options k h c = Inr c'"
proof -
  obtain a c1 where get: "getAddress options k c = (a, c1)" by (cases "getAddress options k c")
  obtain b where "addAccount_address options a h c1 = Inr (if contains_address a c1 then c1
       else c1\<lparr>m_stateByAddress := (m_stateByAddress c1)(a \<mapsto> (AccountState (ZeroKey options) a h)\<lparr>Balances := b\<rparr>)\<rparr>)"
    by (rule addAccount_address_effect)
  then have "\<exists>c'. addAccount_key options k h c = Inr c'"
    by (cases "m_stateByAddress c1 a") (auto simp: addAccount_key_def get contains_address_def)
  then show thesis using that by blast
qed

lemma add_key_block:
  assumes blk: "block_of options h A K c c'" and h: "h \<noteq> 0" and nc: "no_collision options k c'"
    and add: "addAccount_key options k h c' = Inr c''"
  shows "block_of options h A (insert k K) c c''"
proof -
  define a where "a = PublicKeyToAddress options k"
  have ok: "cache_keys_ok options c'" and ent: "entry_of_block options h A K a (m_stateByAddress c a) (m_stateByAddress c' a)"
    using blk by (simp_all add: block_of_def)
  show ?thesis
  proof (cases "m_keyToAddress c' k")
    case (Some a')
    then obtain s where s: "a = a'" "m_stateByAddress c' a = Some s" "PublicKeyHeight s \<noteq> 0"
      using cache_keys_okD(4) [OF ok Some] by (auto simp: a_def)
    then have "c'' = c'"
      using add Some by (simp add: addAccount_key_def getAddress_def addAccount_address_def contains_address_def)
    then show ?thesis using block_ofI [OF blk ok, of A "insert k K" a] entry_mono [OF ent, of A "insert k K"] by auto
  next
    case None
    have none: "\<forall>s. m_stateByAddress c' a = Some s \<longrightarrow> PublicKeyHeight s = 0"
    proof (intro allI impI)
      fix s
      assume s: "m_stateByAddress c' a = Some s"
      then have "PublicKeyHeight s \<noteq> 0 \<longrightarrow> PublicKey s = k" using nc unfolding no_collision_def a_def by blast
      then show "PublicKeyHeight s = 0" using cache_keys_okD(3) [OF ok s] None by force
    qed
    obtain s where s: "m_stateByAddress c'' = (m_stateByAddress c')(a \<mapsto> s\<lparr>PublicKey := k, PublicKeyHeight := h\<rparr>)"
        "m_keyToAddress c'' = (m_keyToAddress c')(k \<mapsto> a)"
        "m_queuedRemoveByAddress c'' = m_queuedRemoveByAddress c'" "m_queuedRemoveByPublicKey c'' = m_queuedRemoveByPublicKey c'"
        "m_stateByAddress c' a = Some s \<or> m_stateByAddress c' a = None \<and> Address s = a \<and> AddressHeight s = h \<and> PublicKeyHeight s = 0 \<and>
          new_balances options h (Balances s)"
      by (rule addAccount_key_effect [OF None a_def none add])
    have "Address s = a" using s(5) cache_keys_okD(1) [OF ok] by auto
    then have ok': "cache_keys_ok options c''"
      using keys_ok_set_key [OF ok h a_def [symmetric] _ None none s(1,2)] by simp
    have "m_stateByAddress c'' a = Some (s\<lparr>PublicKey := k, PublicKeyHeight := h\<rparr>)" by (simp add: s(1))
    moreover have "m_stateByAddress c a = m_stateByAddress c' a \<or> m_stateByAddress c a = None \<and> AddressHeight s = h"
      using entry_cases [OF ent] none h s(5) by (metis option.inject option.distinct(1))
    moreover have "m_stateByAddress c' a = Some s \<Longrightarrow> PublicKeyHeight s = 0" using none by blast
    ultimately have "entry_of_block options h A (insert k K) a (m_stateByAddress c a) (m_stateByAddress c'' a)"
      using s(5) unfolding entry_of_block_def by auto
    then show ?thesis using block_ofI [OF blk ok', of A "insert k K" a] by (auto simp: s(1))
  qed
qed

lemma keys_ok_drop_key:
  assumes ok: "cache_keys_ok options c" and s: "m_stateByAddress c a = Some s" "PublicKeyHeight s \<noteq> 0" "PublicKey s = k"
    and c': "m_keyToAddress c' = (m_keyToAddress c)(k := None)" "m_stateByAddress c' = (m_stateByAddress c)(a := r)"
    and r: "\<forall>s. r = Some s \<longrightarrow> Address s = a \<and> PublicKeyHeight s = 0 \<and> PublicKey s = ZeroKey options"
  shows "cache_keys_ok options c'"
  unfolding cache_keys_ok_def
proof (intro conjI allI impI)
  fix a' s'
  assume "m_stateByAddress c' a' = Some s'"
  then consider "a' = a" "r = Some s'" | "a' \<noteq> a" "m_stateByAddress c a' = Some s'" by (cases "a' = a") (auto simp: c')
  note this_cases = this
  show "Address s' = a'" using cache_keys_okD(1) [OF ok] r by (cases rule: this_cases) auto
  show "if PublicKeyHeight s' = 0 then PublicKey s' = ZeroKey options else PublicKeyToAddress options (PublicKey s') = a'"
    using cache_keys_okD(2,3) [OF ok, of a' s'] r by (cases rule: this_cases) auto
next
  fix k' a'
  have old: "m_keyToAddress c k' = Some a' \<longleftrightarrow> (\<exists>s. m_stateByAddress c a' = Some s \<and> PublicKeyHeight s \<noteq> 0 \<and> PublicKey s = k')"
    using ok by (simp add: cache_keys_ok_def)
  have k: "m_keyToAddress c k = Some a" using cache_keys_okD(3) [OF ok s(1,2)] s(3) by simp
  show "m_keyToAddress c' k' = Some a' \<longleftrightarrow>
      (\<exists>s. m_stateByAddress c' a' = Some s \<and> PublicKeyHeight s \<noteq> 0 \<and> PublicKey s = k')"
  proof (cases "a' = a")
    case True
    have "m_keyToAddress c' k' \<noteq> Some a" using old s(1,3) by (auto simp: c' True)
    then show ?thesis using True r by (auto simp: c')
  next
    case False
    then show ?thesis using old k by (cases "k' = k") (auto simp: c')
  qed
qed

lemma keys_ok_remove:
  assumes ok: "cache_keys_ok options c" and s: "m_stateByAddress c a = Some s"
    and c': "m_stateByAddress c' = (m_stateByAddress c)(a := None)"
      "m_keyToAddress c' = (if PublicKeyHeight s = 0 then m_keyToAddress c else (m_keyToAddress c)(PublicKey s := None))"
  shows "cache_keys_ok options c'"
proof (cases "PublicKeyHeight s = 0")
  case False
  then show ?thesis using keys_ok_drop_key [OF ok s False refl _ c'(1)] c'(2) by simp
next
  case True
  have "m_keyToAddress c k \<noteq> Some a" for k using cache_keys_okD(4) [OF ok, of k a] s True by auto
  then show ?thesis using ok True c' unfolding cache_keys_ok_def by auto
qed

lemma remove_address_block:
  assumes blk: "block_of options h A K c c'" and fresh: "fresh_height h c" and okc: "cache_keys_ok options c"
  shows "block_of options h (A - {a}) K c (remove_address a h c')"
proof -
  have ok: "cache_keys_ok options c'" and ent: "\<And>j. entry_of_block options h A K j (m_stateByAddress c j) (m_stateByAddress c' j)"
    using blk by (simp_all add: block_of_def)
  have other: "entry_of_block options h (A - {a}) K j (m_stateByAddress c j) (m_stateByAddress c' j)" if "j \<noteq> a" for j
    using ent [of j] that unfolding entry_of_block_def by blast
  show ?thesis
  proof (cases "\<exists>s. m_stateByAddress c' a = Some s \<and> AddressHeight s = h")
    case False
    then have same: "remove_address a h c' = c'" by (auto simp: remove_address_def split: option.splits)
    have "entry_of_block options h (A - {a}) K a (m_stateByAddress c a) (m_stateByAddress c' a)"
      using ent [of a] False unfolding entry_of_block_def by blast
    then show ?thesis unfolding same block_of_def using ok other by metis
  next
    case True
    then obtain s where s: "m_stateByAddress c' a = Some s" "AddressHeight s = h" by blast
    define c'' where "c'' = remove_address a h c'"
    have c'': "m_stateByAddress c'' = (m_stateByAddress c')(a := None)"
        "m_keyToAddress c'' = (if PublicKeyHeight s = 0 then m_keyToAddress c' else (m_keyToAddress c')(PublicKey s := None))"
      using s by (simp_all add: c''_def remove_address_def Let_def)
    have "m_stateByAddress c a = None"
      using entry_before(1) [of options h A K a "m_stateByAddress c a" s] ent [of a] s fresh cache_keys_okD(2) [OF okc, of a]
      unfolding fresh_height_def by auto
    then have "entry_of_block options h (A - {a}) K j (m_stateByAddress c j) (m_stateByAddress c'' j)" for j
      using other [of j] by (cases "j = a") (simp_all add: c'' entry_of_block_def)
    moreover have "cache_keys_ok options c''" by (rule keys_ok_remove [OF ok s(1) c''])
    ultimately show ?thesis by (simp add: block_of_def c''_def)
  qed
qed

lemma remove_key_block:
  assumes blk: "block_of options h A K c c'" and fresh: "fresh_height h c" and okc: "cache_keys_ok options c"
  shows "block_of options h A (K - {k}) c (remove_key options k h c')"
proof -
  have ok: "cache_keys_ok options c'" and ent: "\<And>j. entry_of_block options h A K j (m_stateByAddress c j) (m_stateByAddress c' j)"
    using blk by (simp_all add: block_of_def)
  have h: "h \<noteq> 0" using fresh by (simp add: fresh_height_def)
  have other: "entry_of_block options h A (K - {k}) j (m_stateByAddress c j) (m_stateByAddress c' j)"
    if "\<And>s. m_stateByAddress c' j = Some s \<Longrightarrow> PublicKeyHeight s = h \<Longrightarrow> PublicKey s \<noteq> k" for j
    using ent [of j] that unfolding entry_of_block_def by force
  show ?thesis
  proof (cases "\<exists>a s. m_keyToAddress c' k = Some a \<and> m_stateByAddress c' a = Some s \<and> PublicKeyHeight s = h")
    case False
    then have same: "remove_key options k h c' = c'"
      by (auto simp: remove_key_def find_key_def split: option.splits)
    have "entry_of_block options h A (K - {k}) j (m_stateByAddress c j) (m_stateByAddress c' j)" for j
      using False cache_keys_okD(3) [OF ok, of j] h by (intro other) blast
    then show ?thesis unfolding same block_of_def using ok by simp
  next
    case True
    then obtain a s where s: "m_keyToAddress c' k = Some a" "m_stateByAddress c' a = Some s" "PublicKeyHeight s = h" by blast
    then have key: "PublicKey s = k" "Address s = a"
      using cache_keys_okD(4) [OF ok s(1)] cache_keys_okD(1) [OF ok s(2)] by auto
    define c'' where "c'' = remove_key options k h c'"
    define s' where "s' = s\<lparr>PublicKeyHeight := 0, PublicKey := ZeroKey options\<rparr>"
    have c'': "m_keyToAddress c'' = (m_keyToAddress c')(k := None)"
        "m_stateByAddress c'' = (m_stateByAddress c')(a := if AddressHeight s = h then None else Some s')"
      using s key by (auto simp: c''_def remove_key_def find_key_def Let_def s'_def)
    have back_to: "m_stateByAddress c a = (if AddressHeight s = h then None else Some s')"
      using entry_before [of options h A K a "m_stateByAddress c a" s "ZeroKey options"] ent [of a] s(2,3) fresh
        cache_keys_okD(2) [OF okc, of a]
      unfolding fresh_height_def s'_def by auto
    have "entry_of_block options h A (K - {k}) j (m_stateByAddress c j) (m_stateByAddress c'' j)" for j
    proof (cases "j = a")
      case True
      then show ?thesis using back_to by (simp add: c'' entry_of_block_def)
    next
      case False
      have "entry_of_block options h A (K - {k}) j (m_stateByAddress c j) (m_stateByAddress c' j)"
        using False s(1) cache_keys_okD(3) [OF ok, of j] h by (intro other) fastforce
      then show ?thesis using False by (simp add: c'')
    qed
    moreover have "cache_keys_ok options c''"
      using keys_ok_drop_key [OF ok s(2) _ key(1) c''] s(3) h by (simp add: s'_def key)
    ultimately show ?thesis by (simp add: block_of_def c''_def)
  qed
qed

fun notified_addresses :: "('u \<Rightarrow> 'a) \<Rightarrow> ('u, 'k) account_notification list \<Rightarrow> 'a set" where
  "notified_addresses resolve [] = {}"
| "notified_addresses resolve (AccountAddressNotification a # ns) = insert (resolve a) (notified_addresses resolve ns)"
| "notified_addresses resolve (AccountPublicKeyNotification k # ns) = notified_addresses resolve ns"

fun notified_keys :: "('u, 'k) account_notification list \<Rightarrow> 'k set" where
  "notified_keys [] = {}"
| "notified_keys (AccountAddressNotification a # ns) = notified_keys ns"
| "notified_keys (AccountPublicKeyNotification k # ns) = insert k (notified_keys ns)"

lemma notified_append:
  "notified_addresses resolve (ms @ ns) = notified_addresses resolve ms \<union> notified_addresses resolve ns"
  "notified_keys (ms @ ns) = notified_keys ms \<union> notified_keys ns"
  by (induction ms rule: notified_keys.induct) auto

lemma notified_rev: "notified_addresses resolve (rev ns) = notified_addresses resolve ns" "notified_keys (rev ns) = notified_keys ns"
  by (induction ns rule: notified_keys.induct) (auto simp: notified_append)

definition registering ::
  "('a, 'k) account_options \<Rightarrow> 'k set \<Rightarrow> height \<Rightarrow> 'a set \<Rightarrow> 'k set \<Rightarrow> ('a, 'k) account_cache \<Rightarrow> ('a, 'k) account_cache \<Rightarrow> bool" where
  "registering options S h A K c c' \<longleftrightarrow> block_of options h A K c c' \<and> dom (m_keyToAddress c') \<subseteq> S \<and>
     A \<subseteq> dom (m_stateByAddress c') \<and> K \<subseteq> dom (m_keyToAddress c') \<and>
     m_queuedRemoveByAddress c' = m_queuedRemoveByAddress c \<and> m_queuedRemoveByPublicKey c' = m_queuedRemoveByPublicKey c"

lemma register_address:
  assumes "registering options S h A K c c'" and "h \<noteq> 0"
  shows "\<exists>c''. addAccount_address options a h c' = Inr c'' \<and> registering options S h (insert a A) K c c''"
proof -
  obtain b where eq: "addAccount_address options a h c' = Inr (if contains_address a c' then c'
       else c'\<lparr>m_stateByAddress := (m_stateByAddress c')(a \<mapsto> (AccountState (ZeroKey options) a h)\<lparr>Balances := b\<rparr>)\<rparr>)"
    (is "_ = Inr ?c") by (rule addAccount_address_effect)
  then have "block_of options h (insert a A) K c ?c" using add_address_block [OF _ assms(2) eq] assms(1) by (simp add: registering_def)
  then show ?thesis using eq assms(1) by (auto simp: registering_def contains_address_def)
qed

lemma register_key:
  assumes reg: "registering options S h A K c c'" and h: "h \<noteq> 0" and S: "inj_on (PublicKeyToAddress options) S" "k \<in> S"
  shows "\<exists>c''. addAccount_key options k h c' = Inr c'' \<and> registering options S h A (insert k K) c c''"
proof -
  define a where "a = PublicKeyToAddress options k"
  have blk: "block_of options h A K c c'" and ok: "cache_keys_ok options c'" and dom: "dom (m_keyToAddress c') \<subseteq> S"
    using reg by (auto simp: registering_def block_of_def)
  have same: "PublicKey s = k \<and> m_keyToAddress c' k = Some a" if "m_stateByAddress c' a = Some s" "PublicKeyHeight s \<noteq> 0" for s
  proof -
    have "PublicKeyToAddress options (PublicKey s) = a" "m_keyToAddress c' (PublicKey s) = Some a"
      using cache_keys_okD(3) [OF ok that] by simp_all
    moreover from this have "PublicKey s = k" using inj_onD [OF S(1), of "PublicKey s" k] dom S(2) by (auto simp: a_def)
    ultimately show ?thesis by simp
  qed
  then have nc: "no_collision options k c'" by (simp add: no_collision_def a_def)
  obtain c'' where c'': "addAccount_key options k h c' = Inr c''"
      "dom (m_keyToAddress c'') = insert k (dom (m_keyToAddress c'))" "dom (m_stateByAddress c') \<subseteq> dom (m_stateByAddress c'')"
      "m_queuedRemoveByAddress c'' = m_queuedRemoveByAddress c'" "m_queuedRemoveByPublicKey c'' = m_queuedRemoveByPublicKey c'"
  proof (cases "m_keyToAddress c' k")
    case (Some a')
    then obtain s where "m_stateByAddress c' a' = Some s" "PublicKeyHeight s \<noteq> 0" using cache_keys_okD(4) [OF ok Some] by auto
    then have "addAccount_key options k h c' = Inr c'"
      using Some by (simp add: addAccount_key_def getAddress_def addAccount_address_def contains_address_def)
    then show ?thesis using that Some by (auto simp: insert_absorb dom_def)
  next
    case None
    then have none: "\<forall>s. m_stateByAddress c' a = Some s \<longrightarrow> PublicKeyHeight s = 0" using same by auto
    obtain c'' where c'': "addAccount_key options k h c' = Inr c''" by (rule addAccount_key_total)
    show ?thesis by (rule addAccount_key_effect [OF None a_def none c'']) (use that [OF c''] in auto)
  qed
  then have "block_of options h A (insert k K) c c''" using add_key_block [OF blk h nc] by simp
  moreover have "A \<subseteq> dom (m_stateByAddress c'')" "insert k K \<subseteq> dom (m_keyToAddress c'')" "dom (m_keyToAddress c'') \<subseteq> S"
    using subset_trans [OF _ c''(3)] reg S(2) unfolding registering_def c''(2) by auto
  ultimately show ?thesis using c''(1,4,5) reg by (simp add: registering_def)
qed

lemma register_all:
  assumes "registering options S h A K c c'" and "h \<noteq> 0" and "inj_on (PublicKeyToAddress options) S" "notified_keys ns \<subseteq> S"
  shows "\<exists>c''. res_fold (AccountObserver resolve options Commit h) ns c' = Inr c'' \<and>
    registering options S h (A \<union> notified_addresses resolve ns) (K \<union> notified_keys ns) c c''"
  using assms
proof (induction ns arbitrary: A K c' rule: notified_keys.induct)
  case (2 a ns)
  obtain c1 where c1: "addAccount_address options (resolve a) h c' = Inr c1" "registering options S h (insert (resolve a) A) K c c1"
    using register_address [OF 2(2,3)] by blast
  then show ?case using 2(1) [OF c1(2) 2(3,4)] 2(5) by (simp add: AccountObserver_def)
next
  case (3 k ns)
  obtain c1 where c1: "addAccount_key options k h c' = Inr c1" "registering options S h A (insert k K) c c1"
    using register_key [OF 3(2-4), of k] 3(5) by auto
  then show ?case using 3(1) [OF c1(2) 3(3,4)] 3(5) by (simp add: AccountObserver_def)
qed simp

lemma registering_finds:
  assumes "registering options S h A K c c'"
  shows "\<forall>a\<in>A. contains_address a c'" "\<forall>k\<in>K. \<exists>s. find_key k c' = Some s \<and> PublicKey s = k"
proof -
  show "\<forall>a\<in>A. contains_address a c'" using assms by (auto simp: registering_def contains_address_def)
  show "\<forall>k\<in>K. \<exists>s. find_key k c' = Some s \<and> PublicKey s = k"
  proof
    fix k
    assume "k \<in> K"
    then obtain a where a: "m_keyToAddress c' k = Some a" using assms by (auto simp: registering_def)
    then show "\<exists>s. find_key k c' = Some s \<and> PublicKey s = k"
      using cache_keys_okD(4) [of options c' k a] assms by (auto simp: registering_def block_of_def find_key_def)
  qed
qed

text \<open>Rolling back only queues; the queues are sets of pairs with the height of the block.\<close>

lemma unregister_all:
  "\<exists>c'. res_fold (AccountObserver resolve options Rollback h) ns c = Inr c' \<and>
     m_stateByAddress c' = m_stateByAddress c \<and> m_keyToAddress c' = m_keyToAddress c \<and>
     set (m_queuedRemoveByAddress c') = set (m_queuedRemoveByAddress c) \<union> Pair h ` notified_addresses resolve ns \<and>
     set (m_queuedRemoveByPublicKey c') = set (m_queuedRemoveByPublicKey c) \<union> Pair h ` notified_keys ns"
proof (induction ns arbitrary: c rule: notified_keys.induct)
  case (2 a ns)
  show ?case using 2 [of "queueRemove_address (resolve a) h c"] by (auto simp: AccountObserver_def queueRemove_address_def)
next
  case (3 k ns)
  show ?case using 3 [of "queueRemove_key k h c"] by (auto simp: AccountObserver_def queueRemove_key_def)
qed simp

lemma remove_queues [simp]:
  "m_queuedRemoveByAddress (remove_address a h c) = m_queuedRemoveByAddress c"
  "m_queuedRemoveByPublicKey (remove_address a h c) = m_queuedRemoveByPublicKey c"
  by (simp_all add: remove_address_def Let_def split: option.split)

lemma remove_addresses_block:
  assumes "block_of options h A K c c'" and "fresh_height h c" and "cache_keys_ok options c" and "set q \<subseteq> range (Pair h)"
  shows "block_of options h (A - snd ` set q) K c (fold (\<lambda>(height, address). remove_address address height) q c')"
  using assms
proof (induction q arbitrary: A c')
  case (Cons x q)
  then obtain a where x: "x = (h, a)" by auto
  show ?case using Cons.IH [OF remove_address_block [OF Cons.prems(1-3), of a]] Cons.prems by (simp add: x Diff_insert2 [symmetric])
qed simp

lemma remove_addresses_queue:
  "m_queuedRemoveByPublicKey (fold (\<lambda>(height, address). remove_address address height) q c) = m_queuedRemoveByPublicKey c"
  by (induction q arbitrary: c) auto

lemma remove_keys_block:
  assumes "block_of options h A K c c'" and "fresh_height h c" and "cache_keys_ok options c" and "set q \<subseteq> range (Pair h)"
  shows "block_of options h A (K - snd ` set q) c (fold (\<lambda>(height, publicKey). remove_key options publicKey height) q c')"
  using assms
proof (induction q arbitrary: K c')
  case (Cons x q)
  then obtain k where x: "x = (h, k)" by auto
  show ?case using Cons.IH [OF remove_key_block [OF Cons.prems(1-3), of k]] Cons.prems by (simp add: x Diff_insert2 [symmetric])
qed simp

lemma empty_block:
  assumes "block_of options h {} {} c c'" and "cache_keys_ok options c"
  shows "m_stateByAddress c' = m_stateByAddress c" "m_keyToAddress c' = m_keyToAddress c"
proof -
  show same: "m_stateByAddress c' = m_stateByAddress c"
    using assms(1) by (intro ext) (auto simp: block_of_def entry_of_block_def)
  then show "m_keyToAddress c' = m_keyToAddress c" using key_map_determined assms unfolding block_of_def by metis
qed

lemma commitRemovals_block:
  assumes blk: "block_of options h A K c c'" and "fresh_height h c" and ok: "cache_keys_ok options c"
    and q: "set (m_queuedRemoveByAddress c') = Pair h ` A" "set (m_queuedRemoveByPublicKey c') = Pair h ` K"
    and empty: "m_queuedRemoveByAddress c = []" "m_queuedRemoveByPublicKey c = []"
  shows "commitRemovals options c' = c"
proof -
  define c1 where "c1 = fold (\<lambda>(height, address). remove_address address height) (m_queuedRemoveByAddress c') c'"
  define c2 where "c2 = fold (\<lambda>(height, publicKey). remove_key options publicKey height) (m_queuedRemoveByPublicKey c1) c1"
  have "block_of options h {} K c c1" "m_queuedRemoveByPublicKey c1 = m_queuedRemoveByPublicKey c'"
    using remove_addresses_block [OF assms(1-3), of "m_queuedRemoveByAddress c'"] q(1)
    by (auto simp: c1_def image_image remove_addresses_queue)
  then have "block_of options h {} {} c c2"
    using remove_keys_block [OF _ assms(2,3), of "{}" K c1 "m_queuedRemoveByPublicKey c1"] q(2) by (auto simp: c2_def image_image)
  from empty_block [OF this ok] show ?thesis
    using empty by (simp add: commitRemovals_def c1_def [symmetric] c2_def [symmetric] Let_def account_cache.equality)
qed

lemma registrations_undone:
  assumes "cache_keys_ok options c" and "fresh_height h c"
    and "m_queuedRemoveByAddress c = []" "m_queuedRemoveByPublicKey c = []"
    and "inj_on (PublicKeyToAddress options) (dom (m_keyToAddress c) \<union> notified_keys ns)"
  shows "\<exists>c'. res_fold (AccountObserver resolve options Commit h) ns c = Inr c' \<and> cache_keys_ok options c' \<and>
    (\<forall>a\<in>notified_addresses resolve ns. contains_address a c') \<and>
    (\<forall>k\<in>notified_keys ns. \<exists>s. find_key k c' = Some s \<and> PublicKey s = k) \<and>
    (\<exists>c''. res_fold (AccountObserver resolve options Rollback h) (rev ns) c' = Inr c'' \<and> commitRemovals options c'' = c)"
proof -
  have "registering options (dom (m_keyToAddress c) \<union> notified_keys ns) h {} {} c c"
    using assms(1) by (simp add: registering_def block_of_def entry_of_block_def)
  then obtain c' where c': "res_fold (AccountObserver resolve options Commit h) ns c = Inr c'"
      "registering options (dom (m_keyToAddress c) \<union> notified_keys ns) h (notified_addresses resolve ns) (notified_keys ns) c c'"
    using register_all [of options _ h "{}" "{}" c c ns resolve, OF _ _ assms(5)] assms(2) by (auto simp: fresh_height_def)
  obtain c'' where c'': "res_fold (AccountObserver resolve options Rollback h) (rev ns) c' = Inr c''"
      "m_stateByAddress c'' = m_stateByAddress c'" "m_keyToAddress c'' = m_keyToAddress c'"
      "set (m_queuedRemoveByAddress c'') = Pair h ` notified_addresses resolve ns" "set (m_queuedRemoveByPublicKey c'') = Pair h ` notified_keys ns"
    using unregister_all [of resolve options h "rev ns" c'] c'(2) assms(3,4) by (auto simp: notified_rev registering_def)
  have "block_of options h (notified_addresses resolve ns) (notified_keys ns) c c''"
    using c'(2) c''(2,3) by (simp add: registering_def block_of_def cache_keys_ok_def)
  from commitRemovals_block [OF this assms(2,1) c''(4,5) assms(3,4)] show ?thesis
    using c' c''(1) registering_finds [OF c'(2)] by (auto simp: registering_def block_of_def)
qed

section \<open>Properties\<close>

text \<open>
  C13. Account registrations of a block undone: from a cache whose key map matches its accounts, the observers of a block
  register any list of addresses and public keys without an error (keys with different addresses), the key map still
  matches, every notified account exists, and rolling the notifications back in reverse and committing the queued
  removals gives back exactly the cache before the block, at a height that no registered account carries yet.
\<close>

theorem account_registrations_rollback:
  assumes "cache_keys_ok options c" and "fresh_height h c"
    and "m_queuedRemoveByAddress c = []" "m_queuedRemoveByPublicKey c = []"
    and "inj_on (PublicKeyToAddress options) (dom (m_keyToAddress c) \<union> notified_keys ns)"
  shows "\<exists>c'. res_fold (AccountObserver resolve options Commit h) ns c = Inr c' \<and> cache_keys_ok options c' \<and>
    (\<forall>a\<in>notified_addresses resolve ns. contains_address a c') \<and>
    (\<forall>k\<in>notified_keys ns. \<exists>s. find_key k c' = Some s \<and> PublicKey s = k) \<and>
    (\<exists>c''. res_fold (AccountObserver resolve options Rollback h) (rev ns) c' = Inr c'' \<and> commitRemovals options c'' = c)"
  using assms by (rule registrations_undone)

theorem account_registrations_witness:
  "let options = \<lparr>CurrencyMosaicId = 1, HarvestingMosaicId = 1, PublicKeyToAddress = (\<lambda>k :: nat. k + 100), ZeroKey = 0\<rparr>;
       resolve = (\<lambda>a :: nat. a + 1);
       c = \<lparr>m_stateByAddress = [107 \<mapsto> AccountState 0 107 3], m_keyToAddress = Map.empty,
            m_queuedRemoveByAddress = [], m_queuedRemoveByPublicKey = []\<rparr>;
       ns = [AccountAddressNotification 104, AccountPublicKeyNotification 7, AccountPublicKeyNotification 5,
             AccountPublicKeyNotification 8]
   in \<exists>c'. res_fold (AccountObserver resolve options Commit 9) ns c = Inr c' \<and> cache_keys_ok options c' \<and>
    (\<forall>a\<in>notified_addresses resolve ns. contains_address a c') \<and>
    (\<forall>k\<in>notified_keys ns. \<exists>s. find_key k c' = Some s \<and> PublicKey s = k) \<and>
    (\<exists>c''. res_fold (AccountObserver resolve options Rollback 9) (rev ns) c' = Inr c'' \<and> commitRemovals options c'' = c)"
  unfolding Let_def
  by (rule account_registrations_rollback) (auto simp: cache_keys_ok_def fresh_height_def AccountState_def inj_on_def split: if_splits)

end
