(* ===== verification/High_Value_Addresses.thy ===== *)
theory High_Value_Addresses
  imports Account_Cache Delta_Set
begin

text \<open>
  The address sets that the account state cache derives from the pending changes of its primary set
  (\<^verbatim>\<open>UpdateAddresses\<close> and its callers in \<^verbatim>\<open>AccountStateCacheDelta.cpp\<close>): the accounts with a high balance, which
  are the harvesters, and the accounts with snapshots to clean up. The set of accounts is the delta of
  \<^verbatim>\<open>deltaset\<close>, so that the theorem spans both components.
\<close>

declare map_of_eq_Some_iff [simp del] Some_eq_map_of_iff [simp del]

section \<open>Updating a set of addresses\<close>

definition UpdateAddresses ::
  "'a set \<Rightarrow> ('a, ('a, 'k) account_state) container \<Rightarrow> (('a, 'k) account_state \<Rightarrow> bool) \<Rightarrow> 'a set" where
  "UpdateAddresses addresses source include =
     fold (\<lambda>(_, accountState) addresses.
       if include accountState then insert (Address accountState) addresses else addresses - {Address accountState})
     source addresses"

definition commitSnapshotsOf :: "('a, ('a, 'k) account_state) container \<Rightarrow> ('a, ('a, 'k) account_state) container" where
  "commitSnapshotsOf source = map (\<lambda>(a, s). (a, s\<lparr>Balances := commitSnapshots (Balances s)\<rparr>)) source"

definition commitSnapshots_cache :: "('a, ('a, 'k) account_state) base_set_delta \<Rightarrow> ('a, ('a, 'k) account_state) base_set_delta" where
  "commitSnapshots_cache d =
     d\<lparr>m_addedElements := commitSnapshotsOf (m_addedElements d), m_copiedElements := commitSnapshotsOf (m_copiedElements d)\<rparr>"

definition update_for_changes ::
  "'a set \<Rightarrow> ('a, ('a, 'k) account_state) base_set_delta \<Rightarrow> (('a, 'k) account_state \<Rightarrow> bool) \<Rightarrow> 'a set" where
  "update_for_changes addresses d include =
     (let e = deltas d;
          addresses = UpdateAddresses addresses (Added e) include;
          addresses = UpdateAddresses addresses (Copied e) include
      in UpdateAddresses addresses (RemovedElems e) (\<lambda>_. False))"

definition addUpdatedAddresses :: "'a set \<Rightarrow> ('a, ('a, 'k) account_state) base_set_delta \<Rightarrow> 'a set" where
  "addUpdatedAddresses addresses d = update_for_changes addresses d (\<lambda>s. m_localSnapshots (Balances s) \<noteq> [])"

definition highValueAddresses ::
  "('a, 'k) account_options \<Rightarrow> amount \<Rightarrow> 'a set \<Rightarrow> ('a, ('a, 'k) account_state) base_set_delta \<Rightarrow> 'a set" where
  "highValueAddresses options minBalance original d =
     update_for_changes original d (\<lambda>s. minBalance \<le> get_balance (Balances s) (HarvestingMosaicId options))"

text \<open>
  \<^verbatim>\<open>AccountStateCache.h\<close>: the cache with its two address sets. The high value addresses are computed before the commit
  clears the delta; the snapshots are committed in the delta first, then the sets are stored.
\<close>

record ('a, 'k) account_state_cache =
  m_accountStates :: "('a, ('a, 'k) account_state) base_set"
  m_pHighValueAddresses :: "'a set"
  m_pAddressesToUpdate :: "'a set"

definition commit_account_cache ::
  "('a, 'k) account_options \<Rightarrow> amount \<Rightarrow> ('a, 'k) account_state_cache \<Rightarrow> ('a, 'k) account_state_cache result" where
  "commit_account_cache options minBalance c =
     (case m_pWeakDelta (m_accountStates c) of
        None \<Rightarrow> map_sum id (\<lambda>s. c\<lparr>m_accountStates := s\<rparr>) (commit (m_accountStates c))
      | Some d \<Rightarrow>
          let highValue = highValueAddresses options minBalance (m_pHighValueAddresses c) d;
              d = commitSnapshots_cache d;
              updated = addUpdatedAddresses (m_pAddressesToUpdate c) d
          in res_bind (commit ((m_accountStates c)\<lparr>m_pWeakDelta := Some d\<rparr>)) (\<lambda>s.
             Inr \<lparr>m_accountStates = s, m_pHighValueAddresses = highValue, m_pAddressesToUpdate = updated\<rparr>))"

section \<open>The sets describe the view\<close>

text \<open>Elements are stored under their address.\<close>

definition keyed :: "('a, ('a, 'k) account_state) container \<Rightarrow> bool" where
  "keyed source \<longleftrightarrow> (\<forall>(a, s) \<in> set source. Address s = a)"

definition delta_keyed :: "('a, ('a, 'k) account_state) base_set_delta \<Rightarrow> bool" where
  "delta_keyed d \<longleftrightarrow> keyed (m_addedElements d) \<and> keyed (m_copiedElements d) \<and> keyed (m_removedElements d)"

lemma UpdateAddresses_mem:
  assumes "keyed source" and "distinct (map fst source)"
  shows "a \<in> UpdateAddresses S source include \<longleftrightarrow>
    (case map_of source a of None \<Rightarrow> a \<in> S | Some s \<Rightarrow> include s)"
  using assms
proof (induction source arbitrary: S)
  case (Cons p source)
  obtain b s where p: "p = (b, s)" by (cases p)
  then have b: "Address s = b" "map_of source b = None"
    using Cons.prems by (auto simp: keyed_def map_of_eq_None_iff)
  have "a \<in> UpdateAddresses S (p # source) include \<longleftrightarrow>
      a \<in> UpdateAddresses (if include s then insert b S else S - {b}) source include"
    by (simp add: UpdateAddresses_def p b)
  also have "\<dots> \<longleftrightarrow> (case map_of source a of None \<Rightarrow> a \<in> (if include s then insert b S else S - {b}) | Some s \<Rightarrow> include s)"
    using Cons.prems by (intro Cons.IH) (auto simp: keyed_def)
  finally show ?case using b by (auto simp: p split: option.splits if_splits)
qed (simp add: UpdateAddresses_def)

lemma update_for_changes_mem:
  assumes inv: "delta_inv tag orig d" and keyed: "delta_keyed d"
  shows "a \<in> update_for_changes S d include \<longleftrightarrow>
    (if Contains (m_removedElements d) a then False
     else case map_of (m_copiedElements d) a of Some s \<Rightarrow> include s
       | None \<Rightarrow> (case map_of (m_addedElements d) a of Some s \<Rightarrow> include s | None \<Rightarrow> a \<in> S))"
  using inv keyed unfolding delta_inv_def delta_distinct_def delta_keyed_def
  by (auto simp: update_for_changes_def deltas_def Let_def UpdateAddresses_mem Contains_def split: option.split)

lemma update_for_changes_view:
  assumes inv: "delta_inv tag orig d" and keyed: "delta_keyed d"
    and S: "\<forall>a. a \<in> S \<longleftrightarrow> (\<exists>s. map_of orig a = Some s \<and> include s)"
  shows "a \<in> update_for_changes S d include \<longleftrightarrow> (\<exists>s. view orig d a = Some s \<and> include s)"
  using delta_inv_key [OF inv, of a] S
  by (auto simp: update_for_changes_mem [OF inv keyed] view_def key_view_def key_ok_def Contains_def split: option.splits)

text \<open>Committing the snapshots keeps the delta sound and changes nothing but the pending snapshots.\<close>

lemma commitSnapshotsOf_map: "map_of (commitSnapshotsOf c) a = map_option (\<lambda>s. s\<lparr>Balances := commitSnapshots (Balances s)\<rparr>) (map_of c a)"
  by (induction c) (auto simp: commitSnapshotsOf_def)

lemma commitSnapshotsOf_keys [simp]: "map fst (commitSnapshotsOf c) = map fst c"
  by (induction c) (auto simp: commitSnapshotsOf_def)

lemma commitSnapshots_cache_inv:
  assumes "delta_inv MutableTypeTag orig d"
  shows "delta_inv MutableTypeTag orig (commitSnapshots_cache d)"
  using assms by (simp add: delta_inv_def delta_distinct_def commitSnapshots_cache_def commitSnapshotsOf_map key_ok_def)

lemma keyed_commitSnapshotsOf: "keyed (commitSnapshotsOf c) \<longleftrightarrow> keyed c"
  by (auto simp: keyed_def commitSnapshotsOf_def)

lemma commitSnapshots_cache_view:
  "view orig (commitSnapshots_cache d) a = Some s' \<Longrightarrow>
    \<exists>s. view orig d a = Some s \<and> (\<forall>m. get_balance (Balances s') m = get_balance (Balances s) m)"
  "view orig d a = Some s \<Longrightarrow>
    \<exists>s'. view orig (commitSnapshots_cache d) a = Some s' \<and> (\<forall>m. get_balance (Balances s') m = get_balance (Balances s) m)"
  by (auto simp: view_def key_view_def commitSnapshots_cache_def commitSnapshotsOf_map get_balance_def split: option.splits if_splits)

text \<open>The two sets describe the accounts of the base set.\<close>

definition address_sets_ok :: "('a, 'k) account_options \<Rightarrow> amount \<Rightarrow> ('a, 'k) account_state_cache \<Rightarrow> bool" where
  "address_sets_ok options minBalance c \<longleftrightarrow>
     (\<forall>a. a \<in> m_pHighValueAddresses c \<longleftrightarrow> (\<exists>s. map_of (m_elements (m_accountStates c)) a = Some s \<and>
        minBalance \<le> get_balance (Balances s) (HarvestingMosaicId options))) \<and>
     (\<forall>a. a \<in> m_pAddressesToUpdate c \<longleftrightarrow> (\<exists>s. map_of (m_elements (m_accountStates c)) a = Some s \<and>
        m_localSnapshots (Balances s) \<noteq> []))"

section \<open>Properties\<close>

text \<open>
  C16. The harvesters and the accounts with snapshots stay known: if the two address sets of the account state cache
  describe the committed accounts (balance of the harvesting mosaic of at least the minimum; snapshots present), then for
  every sound delta the pending set of high value addresses describes exactly the accounts of the view, and committing
  succeeds, keeps every balance of the view, and leaves address sets that describe the new committed accounts.
\<close>

theorem address_sets_follow_commits:
  assumes "address_sets_ok options minBalance c" and "m_pWeakDelta (m_accountStates c) = Some d"
    and "delta_inv MutableTypeTag (m_elements (m_accountStates c)) d" and "delta_keyed d"
  shows "highValueAddresses options minBalance (m_pHighValueAddresses c) d =
      {a. \<exists>s. view (m_elements (m_accountStates c)) d a = Some s \<and>
        minBalance \<le> get_balance (Balances s) (HarvestingMosaicId options)} \<and>
    (\<exists>c'. commit_account_cache options minBalance c = Inr c' \<and> address_sets_ok options minBalance c' \<and>
      (\<forall>a m. map_option (\<lambda>s. get_balance (Balances s) m) (map_of (m_elements (m_accountStates c')) a) =
        map_option (\<lambda>s. get_balance (Balances s) m) (view (m_elements (m_accountStates c)) d a)))"
proof -
  define orig where "orig = m_elements (m_accountStates c)"
  define d' where "d' = commitSnapshots_cache d"
  have inv: "delta_inv MutableTypeTag orig d" and inv': "delta_inv MutableTypeTag orig d'"
    using assms(3) commitSnapshots_cache_inv unfolding d'_def orig_def by auto
  have keyed': "delta_keyed d'"
    using assms(4) by (simp add: d'_def delta_keyed_def commitSnapshots_cache_def keyed_commitSnapshotsOf)
  have hv: "a \<in> highValueAddresses options minBalance (m_pHighValueAddresses c) d \<longleftrightarrow>
      (\<exists>s. view orig d a = Some s \<and> minBalance \<le> get_balance (Balances s) (HarvestingMosaicId options))" for a
    unfolding highValueAddresses_def
    using assms(1) by (intro update_for_changes_view [OF inv assms(4)]) (simp add: address_sets_ok_def orig_def)
  have up: "a \<in> addUpdatedAddresses (m_pAddressesToUpdate c) d' \<longleftrightarrow>
      (\<exists>s. view orig d' a = Some s \<and> m_localSnapshots (Balances s) \<noteq> [])" for a
    unfolding addUpdatedAddresses_def
    using assms(1) by (intro update_for_changes_view [OF inv' keyed']) (simp add: address_sets_ok_def orig_def)
  obtain els where els: "UpdateSet orig (deltas d') = Inr els" "map_of els = view orig d'"
    using UpdateSet_spec [OF inv'] by blast
  have bal: "map_option (\<lambda>s. get_balance (Balances s) m) (view orig d' a) =
      map_option (\<lambda>s. get_balance (Balances s) m) (view orig d a)" for a m
    using commitSnapshots_cache_view [of orig d a] unfolding d'_def [symmetric]
    by (cases "view orig d' a"; cases "view orig d a") fastforce+
  have hv': "(\<exists>s. view orig d a = Some s \<and> minBalance \<le> get_balance (Balances s) m) \<longleftrightarrow>
      (\<exists>s. view orig d' a = Some s \<and> minBalance \<le> get_balance (Balances s) m)" for a m
    using bal [of m a] by (cases "view orig d' a"; cases "view orig d a") auto
  define c' where "c' = \<lparr>m_accountStates = \<lparr>m_elements = els, m_pWeakDelta = Some (reset_delta d')\<rparr>,
    m_pHighValueAddresses = highValueAddresses options minBalance (m_pHighValueAddresses c) d,
    m_pAddressesToUpdate = addUpdatedAddresses (m_pAddressesToUpdate c) d'\<rparr>"
  have "commit_account_cache options minBalance c = Inr c'"
    using assms(2) els(1) by (simp add: commit_account_cache_def commit_def c'_def d'_def orig_def Let_def)
  moreover have "address_sets_ok options minBalance c'"
    by (simp add: address_sets_ok_def c'_def els(2) hv up hv')
  ultimately show ?thesis using hv bal by (auto simp: c'_def els(2) orig_def [symmetric])
qed

theorem address_sets_follow_commits_witness:
  "let options = \<lparr>CurrencyMosaicId = 1, HarvestingMosaicId = 1, PublicKeyToAddress = (\<lambda>k :: nat. k), ZeroKey = 0\<rparr>;
       d = fold (delta_run []) [Op_InsertElement (5 :: nat) (AccountState (0 :: nat) (5 :: nat) 3), Op_InsertElement 6 (AccountState 0 6 3), Op_RemoveElement 5] BaseSetDelta;
       c = \<lparr>m_accountStates = \<lparr>m_elements = [], m_pWeakDelta = Some d\<rparr>, m_pHighValueAddresses = {}, m_pAddressesToUpdate = {}\<rparr>
   in highValueAddresses options 0 {} d = {6} \<and>
    (\<exists>c'. commit_account_cache options 0 c = Inr c' \<and> address_sets_ok options 0 c')"
proof -
  let ?d = "fold (delta_run []) [Op_InsertElement (5 :: nat) (AccountState (0 :: nat) (5 :: nat) 3), Op_InsertElement 6 (AccountState 0 6 3), Op_RemoveElement 5] BaseSetDelta"
  let ?options = "\<lparr>CurrencyMosaicId = 1, HarvestingMosaicId = 1, PublicKeyToAddress = (\<lambda>k :: nat. k), ZeroKey = 0\<rparr>"
  let ?c = "\<lparr>m_accountStates = \<lparr>m_elements = [], m_pWeakDelta = Some ?d\<rparr>, m_pHighValueAddresses = {}, m_pAddressesToUpdate = {}\<rparr>"
  have inv: "delta_inv MutableTypeTag [] ?d" and view: "view [] ?d = fold map_run [Op_InsertElement (5 :: nat) (AccountState (0 :: nat) (5 :: nat) 3),
      Op_InsertElement 6 (AccountState 0 6 3), Op_RemoveElement 5] Map.empty"
    using delta_runs [OF delta_inv_fresh, of "[] :: (nat \<times> (nat, nat) account_state) list"
      "[Op_InsertElement (5 :: nat) (AccountState (0 :: nat) (5 :: nat) 3), Op_InsertElement 6 (AccountState 0 6 3), Op_RemoveElement 5]"] by simp_all
  have "delta_keyed ?d" by code_simp
  with address_sets_follow_commits [of ?options 0 ?c ?d] inv view show ?thesis
    by (auto simp: Let_def address_sets_ok_def split: if_splits)
qed

end
