(* ===== verification/Inflation.thy ===== *)
theory Inflation
  imports Catapult_Prelude
begin

text \<open>
  The inflation calculator (\<^verbatim>\<open>model/InflationCalculator.cpp\<close>): a \<^verbatim>\<open>std::map\<close> from heights to the amount that is created
  with every block from that height on. The closed formulas of the code for the cumulative and the total inflation are
  shown to be the sums of the amounts block by block, and the overflow test of the total to be exact.
\<close>

section \<open>The calculator\<close>

type_synonym inflation_map = "(height \<times> amount) list"

definition inflation_contains :: "inflation_map \<Rightarrow> height \<Rightarrow> amount \<Rightarrow> bool" where
  "inflation_contains m height amount \<longleftrightarrow> (case map_of m height of None \<Rightarrow> False | Some a \<Rightarrow> a = amount)"

fun spot_loop :: "height \<Rightarrow> inflation_map \<Rightarrow> amount \<Rightarrow> amount" where
  "spot_loop height [] amount = amount"
| "spot_loop height ((h, a) # m) amount = (if height < h then amount else spot_loop height m a)"

definition getSpotAmount :: "inflation_map \<Rightarrow> height \<Rightarrow> amount" where
  "getSpotAmount m height = spot_loop height m 0"

text \<open>The state of the loop: total amount, current amount, current height.\<close>

fun cumulative_loop :: "height \<Rightarrow> inflation_map \<Rightarrow> amount \<Rightarrow> amount \<Rightarrow> height \<Rightarrow> amount \<times> amount \<times> height" where
  "cumulative_loop height [] totalAmount currentAmount currentHeight = (totalAmount, currentAmount, currentHeight)"
| "cumulative_loop height ((h, a) # m) totalAmount currentAmount currentHeight =
     (let numBlocks = (if height < h then height else h) - currentHeight;
          totalAmount = totalAmount + currentAmount * numBlocks
      in if height \<le> h then (totalAmount, a, h) else cumulative_loop height m totalAmount a h)"

definition getCumulativeAmount :: "inflation_map \<Rightarrow> height \<Rightarrow> amount" where
  "getCumulativeAmount m height =
     (if 0 = height then 0
      else case cumulative_loop height m 0 0 1 of (totalAmount, currentAmount, currentHeight) \<Rightarrow>
        if currentHeight < height then totalAmount + currentAmount * (height - currentHeight) else totalAmount)"

text \<open>The loop returns early, with \<open>None\<close> here, when the total would overflow.\<close>

fun sum_loop :: "inflation_map \<Rightarrow> height \<Rightarrow> amount \<Rightarrow> u64 \<Rightarrow> (amount \<times> u64) option" where
  "sum_loop [] currentHeight currentAmount totalAmountRaw = Some (currentAmount, totalAmountRaw)"
| "sum_loop ((h, a) # m) currentHeight currentAmount totalAmountRaw =
     (let numBlocks = h - currentHeight; maxAmount = - 1 :: u64 in
      if 0 \<noteq> numBlocks \<and> currentAmount > maxAmount div numBlocks then None
      else let summand = currentAmount * numBlocks in
        if totalAmountRaw > maxAmount - summand then None
        else sum_loop m h a (totalAmountRaw + summand))"

definition sumAll :: "inflation_map \<Rightarrow> amount \<times> bool" where
  "sumAll m =
     (case sum_loop m 1 0 0 of
        None \<Rightarrow> (0, False)
      | Some (currentAmount, totalAmountRaw) \<Rightarrow>
          let isValid = (0 = currentAmount) in (if isValid then totalAmountRaw else 0, isValid))"

definition inflation_add :: "height \<Rightarrow> amount \<Rightarrow> inflation_map \<Rightarrow> inflation_map result" where
  "inflation_add height amount m =
     (if 0 = height \<or> (m \<noteq> [] \<and> fst (last m) \<ge> height)
      then Inl (InvalidArgument ''cannot add inflation entry (height)'')
      else Inr (std_map_insert (height, amount) m))"

definition inflation_remove :: "height \<Rightarrow> inflation_map \<Rightarrow> inflation_map" where
  "inflation_remove height m = std_map_erase height m"

definition inflation_ok :: "inflation_map \<Rightarrow> bool" where
  "inflation_ok m \<longleftrightarrow> sorted_keys m \<and> (\<forall>p \<in> set m. fst p \<noteq> 0)"

lemma inflation_ok_empty: "inflation_ok []"
  by (simp add: inflation_ok_def)

lemma inflation_ok_add: "inflation_ok m \<Longrightarrow> inflation_add h a m = Inr m' \<Longrightarrow> inflation_ok m'"
  using set_std_map_insert_subset [of "(h, a)" m] by (auto simp: inflation_ok_def inflation_add_def split: if_splits)

lemma inflation_ok_remove: "inflation_ok m \<Longrightarrow> inflation_ok (inflation_remove h m)"
proof -
  assume ok: "inflation_ok m"
  have "set (inflation_remove h m) \<subseteq> set m" by (auto simp: inflation_remove_def std_map_erase_def)
  then show "inflation_ok (inflation_remove h m)" using ok by (auto simp: inflation_ok_def inflation_remove_def)
qed

section \<open>Sums over blocks\<close>

lemma unat_bound: "unat (x :: u64) < 2 ^ 64"
  using unsigned_less [of x] by simp

lemma unat_max: "unat (- 1 :: u64) = 2 ^ 64 - 1"
  by (simp add: unsigned_minus_1_eq_mask mask_eq_exp_minus_1)

lemma of_nat_less_u64: "i < unat (h :: u64) \<Longrightarrow> (of_nat i :: u64) < h"
  using unat_bound [of h] by (simp add: word_less_nat_alt unat_of_nat_u64)

lemma of_nat_le_u64: "unat (h :: u64) \<le> i \<Longrightarrow> i < 2 ^ 64 \<Longrightarrow> h \<le> of_nat i"
  by (simp add: word_le_nat_alt unat_of_nat_u64)

lemma spot_before:
  assumes "i < unat h"
  shows "spot_loop (of_nat i) ((h, a) # m) ca = ca"
  using of_nat_less_u64 [OF assms] by simp

lemma spot_after:
  assumes "unat h \<le> i" and "i < 2 ^ 64"
  shows "spot_loop (of_nat i) ((h, a) # m) ca = spot_loop (of_nat i) m a"
  using of_nat_le_u64 [OF assms] by (simp add: not_less [symmetric])

lemma constant_sum: "lo \<le> hi \<Longrightarrow> (\<Sum>i\<in>{unat lo..<unat hi}. c) = (c * (hi - lo) :: u64)"
proof -
  assume le: "lo \<le> hi"
  have "(\<Sum>i\<in>{unat lo..<unat hi}. c) = of_nat (unat hi - unat lo) * c" by (simp only: sum_constant card_atLeastLessThan)
  also have "of_nat (unat hi - unat lo) = hi - lo" using le by (simp only: of_nat_diff word_le_nat_alt) simp
  finally show ?thesis by (simp only: mult.commute)
qed

lemma sum_split:
  fixes f :: "nat \<Rightarrow> 'a::comm_monoid_add"
  assumes "unat lo \<le> k" and "k \<le> unat hi"
  shows "(\<Sum>i\<in>{unat lo..<unat hi}. f i) = (\<Sum>i\<in>{unat lo..<k}. f i) + (\<Sum>i\<in>{k..<unat hi}. f i)"
  using sum.atLeastLessThan_concat [OF assms, of f] by simp

lemma cumulative_loop_sum:
  assumes "sorted_keys m" and "\<forall>p\<in>set m. ch \<le> fst p" and "ch \<le> height"
  shows "(case cumulative_loop height m t ca ch of (t', ca', ch') \<Rightarrow> if ch' < height then t' + ca' * (height - ch') else t') =
    t + (\<Sum>i\<in>{unat ch..<unat height}. spot_loop (of_nat i) m ca)"
  using assms
proof (induction height m t ca ch rule: cumulative_loop.induct)
  case (1 height t ca ch)
  then show ?case using constant_sum [of ch height ca] by (auto simp: order.strict_iff_order)
next
  case (2 height h a m t ca ch)
  have ch: "ch \<le> h" using 2(3) by simp
  show ?case
  proof (cases "height \<le> h")
    case True
    then have "(\<Sum>i\<in>{unat ch..<unat height}. spot_loop (of_nat i) ((h, a) # m) ca) = (\<Sum>i\<in>{unat ch..<unat height}. ca)"
      by (intro sum.cong refl spot_before) (auto simp: word_le_nat_alt)
    moreover have "(if height < h then height else h) = height" using True by auto
    ultimately show ?thesis using True constant_sum [OF 2(4), of ca] by (auto simp: Let_def)
  next
    case False
    have nat: "unat ch \<le> unat h" "unat h \<le> unat height" "unat height < 2 ^ 64"
      using ch False unat_bound [of height] by (simp_all add: word_le_nat_alt)
    have "(\<Sum>i\<in>{unat ch..<unat h}. spot_loop (of_nat i) ((h, a) # m) ca) = (\<Sum>i\<in>{unat ch..<unat h}. ca)"
      by (intro sum.cong refl spot_before) simp
    moreover have "(\<Sum>i\<in>{unat h..<unat height}. spot_loop (of_nat i) ((h, a) # m) ca) =
        (\<Sum>i\<in>{unat h..<unat height}. spot_loop (of_nat i) m a)"
      using nat(3) by (intro sum.cong refl spot_after) auto
    ultimately have sum: "(\<Sum>i\<in>{unat ch..<unat height}. spot_loop (of_nat i) ((h, a) # m) ca) =
        ca * (h - ch) + (\<Sum>i\<in>{unat h..<unat height}. spot_loop (of_nat i) m a)"
      using sum_split [OF nat(1,2), of "\<lambda>i. spot_loop (of_nat i) ((h, a) # m) ca"] constant_sum [OF ch, of ca] by simp
    have min: "(if height < h then height else h) = h" using False by auto
    have "(case cumulative_loop height m (t + ca * (h - ch)) a h of (t', ca', ch') \<Rightarrow>
          if ch' < height then t' + ca' * (height - ch') else t') =
        t + ca * (h - ch) + (\<Sum>i\<in>{unat h..<unat height}. spot_loop (of_nat i) m a)"
      using 2(1) [OF refl refl False] 2(2) False unfolding min by (auto simp: less_imp_le)
    then show ?thesis using False unfolding sum by (auto simp: Let_def add.assoc split: prod.splits)
  qed
qed

definition final_height :: "inflation_map \<Rightarrow> height \<Rightarrow> height" where
  "final_height m ch = (if m = [] then ch else fst (last m))"

definition final_amount :: "inflation_map \<Rightarrow> amount \<Rightarrow> amount" where
  "final_amount m ca = (if m = [] then ca else snd (last m))"

text \<open>Two overflow tests of the loop.\<close>

lemma mult_overflow_iff:
  "(n :: u64) \<noteq> 0 \<and> c > (- 1) div n \<longleftrightarrow> 2 ^ 64 \<le> unat c * unat n"
proof (cases "n = 0")
  case False
  then have n: "0 < unat n" by (simp add: unat_gt_0)
  have max: "unat (- 1 :: u64) = 2 ^ 64 - 1" by (rule unat_max)
  have "c > (- 1) div n \<longleftrightarrow> (2 ^ 64 - 1) div unat n < unat c"
    by (simp add: word_less_nat_alt unat_div max)
  also have "\<dots> \<longleftrightarrow> 2 ^ 64 - 1 < unat c * unat n" by (rule div_less_iff_less_mult [OF n])
  also have "\<dots> \<longleftrightarrow> 2 ^ 64 \<le> unat c * unat n" by auto
  finally show ?thesis using False by simp
qed simp

lemma add_overflow_iff: "(t :: u64) > - 1 - s \<longleftrightarrow> 2 ^ 64 \<le> unat t + unat s"
proof -
  have "unat (- 1 - s) = 2 ^ 64 - 1 - unat s" using unat_sub [of s "- 1"] unat_max by simp
  then show ?thesis using unat_bound [of s] by (auto simp: word_less_nat_alt)
qed

lemma sum_loop_sum:
  assumes "sorted_keys m" and "\<forall>p\<in>set m. ch \<le> fst p"
  shows "sum_loop m ch ca t =
    (let T = unat t + (\<Sum>i\<in>{unat ch..<unat (final_height m ch)}. unat (spot_loop (of_nat i) m ca))
     in if T < 2 ^ 64 then Some (final_amount m ca, of_nat T) else None)"
  using assms
proof (induction m ch ca t rule: sum_loop.induct)
  case (1 ch ca t)
  then show ?case using unat_bound [of t] by (simp add: Let_def final_height_def final_amount_def)
next
  case (2 h a m ch ca t)
  define S where "S = (\<Sum>i\<in>{unat h..<unat (final_height m h)}. unat (spot_loop (of_nat i) m a))"
  have ch: "ch \<le> h" and later: "\<forall>p\<in>set m. h \<le> fst p" and sorted: "sorted_keys m" using 2(2,3) by (auto simp: less_imp_le)
  have fin: "final_height ((h, a) # m) ch = final_height m h" "final_amount ((h, a) # m) ca = final_amount m a"
    by (simp_all add: final_height_def final_amount_def)
  have "h \<le> final_height m h" using later by (auto simp: final_height_def)
  then have nat: "unat ch \<le> unat h" "unat h \<le> unat (final_height m h)" using ch by (simp_all add: word_le_nat_alt)
  have "(\<Sum>i\<in>{unat ch..<unat h}. unat (spot_loop (of_nat i) ((h, a) # m) ca)) = (\<Sum>i\<in>{unat ch..<unat h}. unat ca)"
    by (intro sum.cong refl arg_cong [where f = unat] spot_before) simp
  moreover have "(\<Sum>i\<in>{unat h..<unat (final_height m h)}. unat (spot_loop (of_nat i) ((h, a) # m) ca)) = S"
    unfolding S_def using unat_bound [of "final_height m h"]
    by (intro sum.cong refl arg_cong [where f = unat] spot_after) auto
  ultimately have sum: "(\<Sum>i\<in>{unat ch..<unat (final_height m h)}. unat (spot_loop (of_nat i) ((h, a) # m) ca)) =
      unat ca * unat (h - ch) + S"
    using sum_split [OF nat, of "\<lambda>i. unat (spot_loop (of_nat i) ((h, a) # m) ca)"] unat_sub [OF ch] by (simp add: mult.commute)
  show ?case
  proof (cases "2 ^ 64 \<le> unat ca * unat (h - ch)")
    case True
    then show ?thesis using mult_overflow_iff [of "h - ch" ca] unfolding sum_loop.simps fin sum by (simp add: Let_def)
  next
    case False
    then have prod: "unat (ca * (h - ch)) = unat ca * unat (h - ch)" by (simp add: unat_word_ariths)
    have no: "\<not> (0 \<noteq> h - ch \<and> ca > (- 1) div (h - ch))" using mult_overflow_iff [of "h - ch" ca] False by metis
    show ?thesis
    proof (cases "2 ^ 64 \<le> unat t + unat (ca * (h - ch))")
      case True
      then show ?thesis using add_overflow_iff [of "ca * (h - ch)" t] no unfolding sum_loop.simps fin sum prod
        by (simp add: Let_def)
    next
      case False
      then have t: "unat (t + ca * (h - ch)) = unat t + unat ca * unat (h - ch)" 
        unfolding prod [symmetric] by (intro unat_plus_simple [THEN iffD1]) (simp add: no_olen_add_nat)
      have no': "\<not> t > - 1 - ca * (h - ch)" using add_overflow_iff [of "ca * (h - ch)" t] False by metis
      have "sum_loop ((h, a) # m) ch ca t = sum_loop m h a (t + ca * (h - ch))" using no no' by (auto simp: Let_def)
      also have "\<dots> = (let T = unat (t + ca * (h - ch)) + S in if T < 2 ^ 64 then Some (final_amount m a, of_nat T) else None)"
        unfolding S_def by (rule 2(1) [OF refl refl _ refl _ sorted later]) (use no no' in simp_all)
      finally show ?thesis unfolding t fin sum by (simp add: Let_def add.assoc)
    qed
  qed
qed

lemma spot_past_end:
  assumes "sorted_keys m" and "final_height m ch \<le> height" and "m \<noteq> [] \<or> final_height m ch = ch"
  shows "spot_loop height m ca = final_amount m ca"
  using assms
proof (induction height m ca arbitrary: ch rule: spot_loop.induct)
  case (2 height h a m ca)
  have "h \<le> final_height ((h, a) # m) ch" using 2(2) by (auto simp: final_height_def less_imp_le)
  then have "\<not> height < h" using 2(3) by simp
  then show ?case using 2(1) [of h] 2(2,3) by (auto simp: final_height_def final_amount_def)
qed (simp add: final_amount_def)

section \<open>Properties\<close>

text \<open>
  C17. The cumulative inflation is the sum of the spot amounts: for every calculator built by adding and removing entries,
  the amount of \<^verbatim>\<open>getCumulativeAmount\<close> up to a height is the sum (modulo $2^{64}$) of \<^verbatim>\<open>getSpotAmount\<close> over all blocks
  from 1 up to, but not including, that height.
\<close>

theorem cumulative_inflation_is_sum:
  assumes "inflation_ok m"
  shows "getCumulativeAmount m height = (\<Sum>i\<in>{1..<unat height}. getSpotAmount m (of_nat i))"
proof (cases "height = 0")
  case False
  then have "1 \<le> height" by (simp add: word_le_nat_alt unat_gt_0 Suc_le_eq)
  moreover have "\<forall>p\<in>set m. 1 \<le> fst p" using assms by (auto simp: inflation_ok_def word_le_nat_alt unat_gt_0 Suc_le_eq)
  ultimately show ?thesis
    using cumulative_loop_sum [of m 1 height 0 0] assms False
    by (simp add: getCumulativeAmount_def getSpotAmount_def inflation_ok_def)
qed (simp add: getCumulativeAmount_def)

theorem cumulative_inflation_witness:
  "inflation_ok [(3, 10), (6, 0)] \<and> getCumulativeAmount [(3, 10), (6, 0)] 9 = (\<Sum>i\<in>{1..<9}. getSpotAmount [(3, 10), (6, 0)] (of_nat i)) \<and>
   getCumulativeAmount [(3, 10), (6, 0)] 9 = 30"
  using cumulative_inflation_is_sum [of "[(3, 10), (6, 0)]" 9]
  by (simp add: inflation_ok_def getCumulativeAmount_def Let_def)

text \<open>
  C18. The total inflation and its overflow test are exact: the loop of \<^verbatim>\<open>sumAll\<close> accepts a calculator if and only if the
  inflation ends (the last entry is zero) and the amounts of all blocks sum up, as natural numbers, to less than $2^{64}$;
  it then returns that sum, which is also the cumulative amount at every height from the last entry on.
\<close>

theorem total_inflation_exact:
  assumes "inflation_ok m"
  defines "T \<equiv> \<Sum>i\<in>{1..<unat (final_height m 1)}. unat (getSpotAmount m (of_nat i))"
  shows "sumAll m = (if final_amount m 0 = 0 \<and> T < 2 ^ 64 then (of_nat T, True) else (0, False)) \<and>
    (snd (sumAll m) \<longrightarrow> final_height m 1 \<le> height \<longrightarrow> fst (sumAll m) = getCumulativeAmount m height)"
proof -
  have ge: "\<forall>p\<in>set m. 1 \<le> fst p" using assms(1) by (auto simp: inflation_ok_def word_le_nat_alt unat_gt_0 Suc_le_eq)
  have sorted: "sorted_keys m" using assms(1) by (simp add: inflation_ok_def)
  have all: "sumAll m = (if final_amount m 0 = 0 \<and> T < 2 ^ 64 then (of_nat T, True) else (0, False))"
    unfolding sumAll_def sum_loop_sum [OF sorted ge] T_def getSpotAmount_def by (auto simp: Let_def)
  have "fst (sumAll m) = getCumulativeAmount m height" if valid: "snd (sumAll m)" and le: "final_height m 1 \<le> height"
  proof -
    let ?f = "\<lambda>i. getSpotAmount m (of_nat i)"
    have last: "final_amount m 0 = 0" and T: "fst (sumAll m) = of_nat T" using valid all by (auto split: if_splits)
    have one: "1 \<le> final_height m 1" using ge by (auto simp: final_height_def)
    have split: "(\<Sum>i\<in>{1..<unat height}. ?f i) = (\<Sum>i\<in>{1..<unat (final_height m 1)}. ?f i) + (\<Sum>i\<in>{unat (final_height m 1)..<unat height}. ?f i)"
      using sum_split [of 1 "unat (final_height m 1)" height ?f] one le by (simp add: word_le_nat_alt)
    have "?f i = 0" if "i \<in> {unat (final_height m 1)..<unat height}" for i
      unfolding getSpotAmount_def using that unat_bound [of height] of_nat_le_u64 [of "final_height m 1" i]
      by (intro trans [OF spot_past_end last]) (auto simp: sorted final_height_def)
    then have "(\<Sum>i\<in>{unat (final_height m 1)..<unat height}. ?f i) = 0" by (intro sum.neutral) blast
    moreover have "of_nat T = (\<Sum>i\<in>{1..<unat (final_height m 1)}. ?f i)" by (simp add: T_def)
    ultimately show ?thesis
      using cumulative_loop_sum [OF sorted ge, of height 0 0] one le T split
      by (auto simp: getCumulativeAmount_def getSpotAmount_def)
  qed
  with all show ?thesis by blast
qed

theorem total_inflation_witness:
  "sumAll [(3, 10), (6, 0)] = (30, True) \<and> sumAll [(1, - 1), (3, 0)] = (0, False) \<and>
   fst (sumAll [(3, 10), (6, 0)]) = getCumulativeAmount [(3, 10), (6, 0)] 9"
proof -
  have ok: "inflation_ok [(3, 10), (6, 0)]" by (simp add: inflation_ok_def)
  have vals: "sumAll [(3, 10), (6, 0)] = (30, True)" "sumAll [(1, - 1), (3, 0)] = (0, False)" by code_simp+
  show ?thesis using conjunct2 [OF total_inflation_exact [OF ok, of 9]] vals by (simp add: final_height_def)
qed

end
