(* ===== verification/Notification_Processing.thy ===== *)
theory Notification_Processing
  imports Processing "HOL-Library.Sublist"
begin

text \<open>
  How entities become state changes: the publisher turns an entity into notifications, the processing subscriber
  validates each of them and then hands it to the observers, and a rollback feeds the same notifications backwards
  (\<^verbatim>\<open>chain/ProcessingNotificationSubscriber.cpp\<close>, \<^verbatim>\<open>chain/ProcessingUndoNotificationSubscriber.cpp\<close>,
  \<^verbatim>\<open>chain/BatchEntityProcessor.cpp\<close>, \<^verbatim>\<open>chain/BlockExecutor.cpp\<close>, \<^verbatim>\<open>observers/AggregateObserverBuilder.h\<close>,
  \<^verbatim>\<open>observers/ReverseNotificationObserverAdapter.cpp\<close>). Notifications, entities and the chain state are type parameters;
  validators, observers and the publisher are function arguments, as they are in the code. The locale
  \<open>undoable_observer\<close> is the contract that makes rollbacks work; the account ledger provides it.
\<close>

section \<open>Observers\<close>

type_synonym ('n, 's) observer = "notify_mode \<Rightarrow> 'n \<Rightarrow> 's \<Rightarrow> 's result"

text \<open>
  \<^verbatim>\<open>AggregateObserverBuilder.h\<close>: the observers registered for the type of the notification, in reverse order when rolling
  back. \<open>observers n\<close> is the vector found for the type of \<open>n\<close>, empty if there is none.
\<close>

definition aggregate_notify :: "('n \<Rightarrow> ('n, 's) observer list) \<Rightarrow> ('n, 's) observer" where
  "aggregate_notify observers mode notification s =
     (let os = observers notification
      in if Commit = mode then res_fold (\<lambda>ob. ob mode notification) os s
         else res_fold (\<lambda>ob. ob mode notification) (rev os) s)"

text \<open>The channels of a notification type and the observers and validators of the configuration.\<close>

record ('n, 's) execution_configuration =
  IsSetValidator :: "'n \<Rightarrow> bool"
  IsSetObserver :: "'n \<Rightarrow> bool"
  pValidator :: "'n \<Rightarrow> 's \<Rightarrow> validation_result result"
  pObserver :: "('n, 's) observer"

definition ObservingNotificationSubscriber ::
  "('n, 's) execution_configuration \<Rightarrow> notify_mode \<Rightarrow> 'n \<Rightarrow> 's \<Rightarrow> 's result" where
  "ObservingNotificationSubscriber config mode notification s =
     (if \<not> IsSetObserver config notification then Inr s else pObserver config mode notification s)"

definition NotificationObserverAdapter ::
  "('n, 's) execution_configuration \<Rightarrow> ('e \<Rightarrow> 'n list) \<Rightarrow> notify_mode \<Rightarrow> 'e \<Rightarrow> 's \<Rightarrow> 's result" where
  "NotificationObserverAdapter config publish mode entity s =
     res_fold (ObservingNotificationSubscriber config mode) (publish entity) s"

text \<open>The reverse adapter stores the notifications first and then observes them from the last to the first.\<close>

definition ReverseNotificationObserverAdapter ::
  "('n, 's) execution_configuration \<Rightarrow> ('e \<Rightarrow> 'n list) \<Rightarrow> notify_mode \<Rightarrow> 'e \<Rightarrow> 's \<Rightarrow> 's result" where
  "ReverseNotificationObserverAdapter config publish mode entity s =
     (let m_notificationBuffers =
        fold (\<lambda>notification buffers. if IsSetObserver config notification then buffers @ [notification] else buffers)
          (publish entity) []
      in res_fold (pObserver config mode) (rev m_notificationBuffers) s)"

section \<open>The processing subscriber\<close>

record ('n, 's) processing_subscriber =
  m_aggregateResult :: validation_result
  m_isUndoEnabled :: bool
  m_notificationBuffers :: "'n list"
  observerState :: 's

definition ProcessingNotificationSubscriber :: "'s \<Rightarrow> ('n, 's) processing_subscriber" where
  "ProcessingNotificationSubscriber s =
     \<lparr>m_aggregateResult = Result_Success, m_isUndoEnabled = False, m_notificationBuffers = [], observerState = s\<rparr>"

definition enableUndo :: "('n, 's) processing_subscriber \<Rightarrow> ('n, 's) processing_subscriber" where
  "enableUndo sub = sub\<lparr>m_isUndoEnabled := True\<rparr>"

definition undo ::
  "('n, 's) execution_configuration \<Rightarrow> notify_mode \<Rightarrow> ('n, 's) processing_subscriber \<Rightarrow> ('n, 's) processing_subscriber result" where
  "undo config mode sub =
     (if \<not> m_isUndoEnabled sub then Inl (RuntimeError ''cannot undo because undo is not enabled'')
      else let undoMode = (if Commit = mode then Rollback else Commit)
           in res_bind (res_fold (pObserver config undoMode) (rev (m_notificationBuffers sub)) (observerState sub)) (\<lambda>s.
              Inr (sub\<lparr>observerState := s, m_notificationBuffers := []\<rparr>)))"

definition sub_validate ::
  "('n, 's) execution_configuration \<Rightarrow> 'n \<Rightarrow> ('n, 's) processing_subscriber \<Rightarrow> ('n, 's) processing_subscriber result" where
  "sub_validate config notification sub =
     (if \<not> IsSetValidator config notification then Inr sub
      else res_bind (pValidator config notification (observerState sub)) (\<lambda>result.
           Inr (sub\<lparr>m_aggregateResult := AggregateResult (m_aggregateResult sub) result\<rparr>)))"

definition sub_observe ::
  "('n, 's) execution_configuration \<Rightarrow> notify_mode \<Rightarrow> 'n \<Rightarrow> ('n, 's) processing_subscriber \<Rightarrow> ('n, 's) processing_subscriber result" where
  "sub_observe config mode notification sub =
     (if \<not> IsSetObserver config notification then Inr sub
      else res_bind (pObserver config mode notification (observerState sub)) (\<lambda>s.
           let sub = sub\<lparr>observerState := s\<rparr>
           in if \<not> m_isUndoEnabled sub then Inr sub
              else Inr (sub\<lparr>m_notificationBuffers := m_notificationBuffers sub @ [notification]\<rparr>)))"

definition sub_notify ::
  "('n, 's) execution_configuration \<Rightarrow> notify_mode \<Rightarrow> 'n \<Rightarrow> ('n, 's) processing_subscriber \<Rightarrow> ('n, 's) processing_subscriber result" where
  "sub_notify config mode notification sub =
     (if \<not> IsValidationResultSuccess (m_aggregateResult sub) then Inr sub
      else res_bind (sub_validate config notification sub) (\<lambda>sub.
           if \<not> IsValidationResultSuccess (m_aggregateResult sub) then Inr sub
           else sub_observe config mode notification sub))"

text \<open>\<^verbatim>\<open>BatchEntityProcessor.cpp\<close>: the loop over the entities stops at the first failure.\<close>

fun process_entities ::
  "('n, 's) execution_configuration \<Rightarrow> ('e \<Rightarrow> 'n list) \<Rightarrow> 'e list \<Rightarrow> ('n, 's) processing_subscriber \<Rightarrow>
   (validation_result \<times> 's) result" where
  "process_entities config publish [] sub = Inr (Result_Success, observerState sub)"
| "process_entities config publish (entity # entities) sub =
     res_bind (res_fold (sub_notify config Commit) (publish entity) sub) (\<lambda>sub.
       if \<not> IsValidationResultSuccess (m_aggregateResult sub) then Inr (m_aggregateResult sub, observerState sub)
       else process_entities config publish entities sub)"

definition BatchEntityProcessor ::
  "('n, 's) execution_configuration \<Rightarrow> ('e \<Rightarrow> 'n list) \<Rightarrow> 'e list \<Rightarrow> 's \<Rightarrow> (validation_result \<times> 's) result" where
  "BatchEntityProcessor config publish entityInfos s =
     (if entityInfos = [] then Inr (Result_Neutral, s)
      else process_entities config publish entityInfos (ProcessingNotificationSubscriber s))"

section \<open>Executing and rolling back blocks\<close>

record 'e block_element =
  Block :: 'e
  Transactions :: "'e list"

text \<open>\<^verbatim>\<open>Elements.cpp\<close>: the block comes last.\<close>

definition ExtractEntityInfos :: "'e block_element \<Rightarrow> 'e list" where
  "ExtractEntityInfos element = Transactions element @ [Block element]"

definition ObserveAll :: "('e \<Rightarrow> 's \<Rightarrow> 's result) \<Rightarrow> 'e list \<Rightarrow> 's \<Rightarrow> 's result" where
  "ObserveAll observer entityInfos s = res_fold observer entityInfos s"

definition ExecuteBlock ::
  "(notify_mode \<Rightarrow> 'e \<Rightarrow> 's \<Rightarrow> 's result) \<Rightarrow> 'e block_element \<Rightarrow> 's \<Rightarrow> 's result" where
  "ExecuteBlock observer element s = ObserveAll (observer Commit) (ExtractEntityInfos element) s"

text \<open>\<open>commitRemovals\<close> is the operation of the account state cache.\<close>

definition RollbackBlock ::
  "(notify_mode \<Rightarrow> 'e \<Rightarrow> 's \<Rightarrow> 's result) \<Rightarrow> ('s \<Rightarrow> 's) \<Rightarrow> 'e block_element \<Rightarrow> 's \<Rightarrow> 's result" where
  "RollbackBlock observer commitRemovals element s =
     res_bind (ObserveAll (observer Rollback) (rev (ExtractEntityInfos element)) s) (\<lambda>s. Inr (commitRemovals s))"

text \<open>\<^verbatim>\<open>UndoBlock.cpp\<close>: \<open>setSubCacheMerkleRoots\<close> is present when the block element carries merkle roots.\<close>

datatype undo_block_type = UndoRollback | UndoCommon

definition UndoBlock ::
  "bool \<Rightarrow> (notify_mode \<Rightarrow> 'e \<Rightarrow> 's \<Rightarrow> 's result) \<Rightarrow> ('s \<Rightarrow> 's) \<Rightarrow> ('s \<Rightarrow> 's) option \<Rightarrow> undo_block_type \<Rightarrow> 'e block_element \<Rightarrow> 's \<Rightarrow> 's result" where
  "UndoBlock enableUndoBlock observer commitRemovals setSubCacheMerkleRoots undoBlockType element s =
     (case undoBlockType of
        UndoRollback \<Rightarrow>
          if \<not> enableUndoBlock then Inl (RuntimeError ''rolling back block at height'')
          else RollbackBlock observer commitRemovals element s
      | UndoCommon \<Rightarrow>
          if \<not> enableUndoBlock then Inl (RuntimeError ''rolling back state hash to height'')
          else (case setSubCacheMerkleRoots of None \<Rightarrow> Inr s | Some f \<Rightarrow> Inr (f s)))"

section \<open>The flat reference of batch processing\<close>

text \<open>Validate, stop at the first result that is not a success, else observe.\<close>

fun checked_run ::
  "('n, 's) execution_configuration \<Rightarrow> 'n list \<Rightarrow> 's \<Rightarrow> (validation_result \<times> 's) result" where
  "checked_run config [] s = Inr (Result_Success, s)"
| "checked_run config (n # ns) s =
     res_bind (if IsSetValidator config n then pValidator config n s else Inr Result_Success) (\<lambda>r.
       if IsValidationResultSuccess r
       then res_bind (ObservingNotificationSubscriber config Commit n s) (checked_run config ns)
       else Inr (r, s))"

lemma IsValidationResultSuccess_Success [simp]: "IsValidationResultSuccess Result_Success"
  by (simp add: IsValidationResultSuccess_def Result_Success_def GetSeverity_def)

lemma AggregateResult_Success:
  "AggregateResult Result_Success r = (if IsValidationResultSuccess r then Result_Success else r)"
proof -
  have "GetSeverity Result_Success = 0" by (simp add: Result_Success_def GetSeverity_def)
  then show ?thesis by (auto simp: AggregateResult_def CompareExchange_def IsValidationResultSuccess_def)
qed

lemma sub_notify_fold_failed:
  assumes "\<not> IsValidationResultSuccess (m_aggregateResult sub)"
  shows "res_fold (sub_notify config mode) ns sub = Inr sub"
  using assms by (induction ns) (simp_all add: sub_notify_def)

lemma sub_notify_clean:
  assumes "m_aggregateResult sub = Result_Success" and "\<not> m_isUndoEnabled sub"
  shows "sub_notify config Commit n sub =
    res_bind (if IsSetValidator config n then pValidator config n (observerState sub) else Inr Result_Success) (\<lambda>r.
      if IsValidationResultSuccess r
      then res_bind (ObservingNotificationSubscriber config Commit n (observerState sub)) (\<lambda>s. Inr (sub\<lparr>observerState := s\<rparr>))
      else Inr (sub\<lparr>m_aggregateResult := r\<rparr>))"
proof -
  have same: "sub\<lparr>m_aggregateResult := Result_Success\<rparr> = sub" using assms(1) by (cases sub) simp
  have observe: "sub_observe config Commit n sub =
      res_bind (ObservingNotificationSubscriber config Commit n (observerState sub)) (\<lambda>s. Inr (sub\<lparr>observerState := s\<rparr>))"
    using assms(2) by (simp add: sub_observe_def ObservingNotificationSubscriber_def Let_def)
  show ?thesis
  proof (cases "IsSetValidator config n")
    case True
    then show ?thesis using assms(1) observe
      by (cases "pValidator config n (observerState sub)") (simp_all add: sub_notify_def sub_validate_def AggregateResult_Success same)
  next
    case False
    then show ?thesis using assms(1) observe by (simp add: sub_notify_def sub_validate_def)
  qed
qed

lemma sub_notify_success:
  assumes "m_aggregateResult sub = Result_Success" and "\<not> m_isUndoEnabled sub"
    and "sub_notify config Commit n sub = Inr sub'" and "IsValidationResultSuccess (m_aggregateResult sub')"
  shows "\<exists>s. sub' = sub\<lparr>observerState := s\<rparr>"
proof -
  obtain r where r: "(if IsSetValidator config n then pValidator config n (observerState sub) else Inr Result_Success) = Inr r"
    using iffD1 [OF res_bind_Inr_iff assms(3) [unfolded sub_notify_clean [OF assms(1,2)]]] by (elim exE conjE)
  have eq: "(if IsValidationResultSuccess r
      then res_bind (ObservingNotificationSubscriber config Commit n (observerState sub)) (\<lambda>s. Inr (sub\<lparr>observerState := s\<rparr>))
      else Inr (sub\<lparr>m_aggregateResult := r\<rparr>)) = Inr sub'"
    using assms(3) unfolding sub_notify_clean [OF assms(1,2)] r res_bind_simps .
  have "IsValidationResultSuccess r"
  proof (rule ccontr)
    assume no: "\<not> IsValidationResultSuccess r"
    have "sub' = sub\<lparr>m_aggregateResult := r\<rparr>" using eq unfolding if_not_P [OF no] sum.inject by (rule sym)
    then show False using no assms(4) by simp
  qed
  from eq [unfolded if_P [OF this] res_bind_Inr_iff] show ?thesis by (elim exE conjE) (auto simp only: sum.inject)
qed

lemma process_notifications:
  assumes "m_aggregateResult sub = Result_Success" and "\<not> m_isUndoEnabled sub"
  shows "res_bind (res_fold (sub_notify config Commit) ns sub) (\<lambda>sub'.
      if \<not> IsValidationResultSuccess (m_aggregateResult sub') then Inr (m_aggregateResult sub', observerState sub')
      else checked_run config ms (observerState sub')) =
    checked_run config (ns @ ms) (observerState sub)"
  using assms
proof (induction ns arbitrary: sub)
  case (Cons n ns)
  note clean = sub_notify_clean [OF Cons.prems, of config n]
  show ?case
  proof (cases "if IsSetValidator config n then pValidator config n (observerState sub) else Inr Result_Success")
    case (Inr r)
    show ?thesis
    proof (cases "IsValidationResultSuccess r")
      case False
      then show ?thesis using Inr by (simp add: clean sub_notify_fold_failed)
    next
      case True
      then show ?thesis using Inr Cons.IH Cons.prems
        by (cases "ObservingNotificationSubscriber config Commit n (observerState sub)") (simp_all add: clean res_bind_assoc)
    qed
  qed (simp add: clean)
qed simp

lemma process_entities_run:
  assumes "m_aggregateResult sub = Result_Success" and "\<not> m_isUndoEnabled sub"
  shows "process_entities config publish entities sub = checked_run config (concat (map publish entities)) (observerState sub)"
  using assms
proof (induction entities arbitrary: sub)
  case (Cons e es)
  have keep: "m_aggregateResult sub' = Result_Success \<and> \<not> m_isUndoEnabled sub'"
    if "res_fold (sub_notify config Commit) ns sub = Inr sub'" "IsValidationResultSuccess (m_aggregateResult sub')"
      "m_aggregateResult sub = Result_Success" "\<not> m_isUndoEnabled sub" for ns sub sub'
    using that
  proof (induction ns arbitrary: sub)
    case (Cons n ns)
    then obtain sub1 where sub1: "sub_notify config Commit n sub = Inr sub1" "res_fold (sub_notify config Commit) ns sub1 = Inr sub'"
      by (auto simp: res_bind_Inr_iff)
    have "IsValidationResultSuccess (m_aggregateResult sub1)"
      using sub1(2) Cons.prems(2) sub_notify_fold_failed [of sub1 config Commit ns] by auto
    then have "m_aggregateResult sub1 = Result_Success \<and> \<not> m_isUndoEnabled sub1"
      using sub1(1) Cons.prems(3,4) sub_notify_success [of sub config n sub1] by auto
    then show ?case using Cons.IH sub1(2) Cons.prems(2) by blast
  qed simp
  have "process_entities config publish (e # es) sub =
      res_bind (res_fold (sub_notify config Commit) (publish e) sub) (\<lambda>sub'.
        if \<not> IsValidationResultSuccess (m_aggregateResult sub') then Inr (m_aggregateResult sub', observerState sub')
        else checked_run config (concat (map publish es)) (observerState sub'))"
    using keep [OF _ _ Cons.prems] Cons.IH by (cases "res_fold (sub_notify config Commit) (publish e) sub") auto
  then show ?case by (simp add: process_notifications [OF Cons.prems])
qed simp

section \<open>Undoing\<close>

text \<open>No step of a run leaves the range in which it can be undone.\<close>

primrec run_fits :: "('n \<Rightarrow> 's \<Rightarrow> 's result) \<Rightarrow> ('n \<Rightarrow> 's \<Rightarrow> bool) \<Rightarrow> 'n list \<Rightarrow> 's \<Rightarrow> bool" where
  "run_fits f fits [] s \<longleftrightarrow> True"
| "run_fits f fits (n # ns) s \<longleftrightarrow> fits n s \<and> (\<forall>s'. f n s = Inr s' \<longrightarrow> run_fits f fits ns s')"

lemma run_fits_append:
  "run_fits f fits (ms @ ns) s \<longleftrightarrow> run_fits f fits ms s \<and> (\<forall>s'. res_fold f ms s = Inr s' \<longrightarrow> run_fits f fits ns s')"
  by (induction ms arbitrary: s) (auto simp: res_bind_Inr_iff)

lemma adapter_run:
  "res_fold (NotificationObserverAdapter config publish mode) entities s =
     res_fold (pObserver config mode) (filter (IsSetObserver config) (concat (map publish entities))) s"
proof -
  have one: "res_fold (ObservingNotificationSubscriber config mode) ns s = res_fold (pObserver config mode) (filter (IsSetObserver config) ns) s"
    for ns s by (induction ns arbitrary: s) (simp_all add: ObservingNotificationSubscriber_def res_bind_def split: sum.split)
  show ?thesis by (induction entities arbitrary: s)
      (simp_all add: NotificationObserverAdapter_def one res_fold_append res_bind_def split: sum.split)
qed

lemma reverse_adapter_run:
  "res_fold (ReverseNotificationObserverAdapter config publish mode) (rev entities) s =
     res_fold (pObserver config mode) (rev (filter (IsSetObserver config) (concat (map publish entities)))) s"
proof -
  have buffers: "fold (\<lambda>n buffers. if IsSetObserver config n then buffers @ [n] else buffers) ns bs = bs @ filter (IsSetObserver config) ns"
    for ns bs by (induction ns arbitrary: bs) simp_all
  have "res_fold (ReverseNotificationObserverAdapter config publish mode) es s =
      res_fold (pObserver config mode) (concat (map (\<lambda>e. rev (filter (IsSetObserver config) (publish e))) es)) s" for es s
    by (induction es arbitrary: s) (simp_all add: ReverseNotificationObserverAdapter_def buffers res_fold_append res_bind_def split: sum.split)
  moreover have "concat (map (\<lambda>e. rev (filter (IsSetObserver config) (publish e))) (rev entities)) =
      rev (filter (IsSetObserver config) (concat (map publish entities)))"
    by (induction entities) simp_all
  ultimately show ?thesis by simp
qed

text \<open>
  The contract of observers: on states that satisfy \<open>inv\<close>, rolling a notification back on a state \<open>t\<close> that extends the
  state after its commit leads to a state that extends the one before it. States are compared up to \<open>ext\<close> since a
  rollback does not restore everything at once (accounts are removed at the end of the block).
\<close>

locale undoable_observer =
  fixes obs :: "notify_mode \<Rightarrow> 'n \<Rightarrow> 's \<Rightarrow> 's result" and inv :: "'s \<Rightarrow> bool" and ext :: "'s \<Rightarrow> 's \<Rightarrow> bool"
    and fits :: "'n \<Rightarrow> 's \<Rightarrow> bool"
  assumes commit_inv: "inv s \<Longrightarrow> fits n s \<Longrightarrow> obs Commit n s = Inr s' \<Longrightarrow> inv s'"
    and rollback_undoes: "inv s \<Longrightarrow> fits n s \<Longrightarrow> obs Commit n s = Inr s' \<Longrightarrow> inv t \<Longrightarrow> ext s' t \<Longrightarrow>
      \<exists>t'. obs Rollback n t = Inr t' \<and> inv t' \<and> ext s t'"
    and ext_refl: "ext s s"
begin

lemma run_undo:
  assumes "inv s" and "run_fits (obs Commit) fits ns s" and "res_fold (obs Commit) ns s = Inr s'"
  shows "inv s' \<and> (\<forall>t. inv t \<longrightarrow> ext s' t \<longrightarrow> (\<exists>t'. res_fold (obs Rollback) (rev ns) t = Inr t' \<and> inv t' \<and> ext s t'))"
  using assms
proof (induction ns arbitrary: s)
  case (Cons n ns)
  then obtain s1 where s1: "obs Commit n s = Inr s1" "res_fold (obs Commit) ns s1 = Inr s'" by (auto simp: res_bind_Inr_iff)
  have fits: "fits n s" "run_fits (obs Commit) fits ns s1" using Cons.prems(2) s1(1) by simp_all
  have inv1: "inv s1" by (rule commit_inv [OF Cons.prems(1) fits(1) s1(1)])
  note IH = Cons.IH [OF inv1 fits(2) s1(2)]
  have "\<exists>t'. res_fold (obs Rollback) (rev (n # ns)) t = Inr t' \<and> inv t' \<and> ext s t'" if t: "inv t" "ext s' t" for t
  proof -
    obtain t1 where t1: "res_fold (obs Rollback) (rev ns) t = Inr t1" "inv t1" "ext s1 t1" using IH t by blast
    obtain t' where "obs Rollback n t1 = Inr t'" "inv t'" "ext s t'"
      using rollback_undoes [OF Cons.prems(1) fits(1) s1(1) t1(2,3)] by blast
    then show ?thesis using t1(1) by (simp add: res_fold_append)
  qed
  then show ?case using IH by blast
qed simp

text \<open>The undo buffer of the processing subscriber: whatever was observed since undo was enabled is taken back.\<close>

lemma notify_buffers:
  assumes config: "pObserver config = obs" and enabled: "m_isUndoEnabled sub" and notify: "sub_notify config Commit n sub = Inr sub'"
  shows "m_isUndoEnabled sub' \<and> (\<exists>ms. m_notificationBuffers sub' = m_notificationBuffers sub @ ms \<and> (ms = [] \<or> ms = [n]) \<and>
      res_fold (obs Commit) ms (observerState sub) = Inr (observerState sub'))"
proof (cases "IsValidationResultSuccess (m_aggregateResult sub)")
  case True
  then obtain sub1 where sub1: "sub_validate config n sub = Inr sub1"
      "(if \<not> IsValidationResultSuccess (m_aggregateResult sub1) then Inr sub1 else sub_observe config Commit n sub1) = Inr sub'"
    using notify by (auto simp: sub_notify_def res_bind_Inr_iff)
  have same: "m_isUndoEnabled sub1" "m_notificationBuffers sub1 = m_notificationBuffers sub" "observerState sub1 = observerState sub"
    using sub1(1) enabled by (auto simp: sub_validate_def res_bind_Inr_iff split: if_splits)
  show ?thesis
  proof (cases "IsValidationResultSuccess (m_aggregateResult sub1) \<and> IsSetObserver config n")
    case False
    then have "sub' = sub1" using sub1(2) by (auto simp: sub_observe_def split: if_splits)
    then show ?thesis using same by simp
  next
    case True
    then obtain s where "obs Commit n (observerState sub) = Inr s"
        "sub' = sub1\<lparr>observerState := s, m_notificationBuffers := m_notificationBuffers sub1 @ [n]\<rparr>"
      using sub1(2) same by (auto simp: sub_observe_def config res_bind_Inr_iff Let_def)
    then show ?thesis using same by simp
  qed
next
  case False
  then show ?thesis using notify enabled by (simp add: sub_notify_def)
qed

lemma notify_all_buffers:
  assumes "pObserver config = obs" and "m_isUndoEnabled sub" and "res_fold (sub_notify config Commit) ns sub = Inr sub'"
  shows "m_isUndoEnabled sub' \<and> (\<exists>ms. m_notificationBuffers sub' = m_notificationBuffers sub @ ms \<and> subseq ms ns \<and>
      res_fold (obs Commit) ms (observerState sub) = Inr (observerState sub'))"
  using assms(2,3)
proof (induction ns arbitrary: sub)
  case (Cons n ns)
  then obtain sub1 where sub1: "sub_notify config Commit n sub = Inr sub1" "res_fold (sub_notify config Commit) ns sub1 = Inr sub'"
    by (auto simp: res_bind_Inr_iff)
  obtain ms where ms: "m_isUndoEnabled sub1" "m_notificationBuffers sub1 = m_notificationBuffers sub @ ms" "subseq ms [n]"
      "res_fold (obs Commit) ms (observerState sub) = Inr (observerState sub1)"
    using notify_buffers [OF assms(1) Cons.prems(1) sub1(1)] by fastforce
  obtain ms' where ms': "m_isUndoEnabled sub'" "m_notificationBuffers sub' = m_notificationBuffers sub1 @ ms'" "subseq ms' ns"
      "res_fold (obs Commit) ms' (observerState sub1) = Inr (observerState sub')"
    using Cons.IH [OF ms(1) sub1(2)] by blast
  have "subseq (ms @ ms') (n # ns)" using list_emb_append_mono [OF ms(3) ms'(3)] by simp
  then show ?case using ms ms' by (auto simp: res_fold_append intro!: exI [of _ "ms @ ms'"])
qed simp

text \<open>Whatever happened since undo was enabled, also a failed validation in the middle, is taken back by \<^verbatim>\<open>undo\<close>.\<close>

lemma subscriber_undo:
  assumes config: "pObserver config = obs" and "inv s"
    and run: "res_fold (sub_notify config Commit) ns (enableUndo (ProcessingNotificationSubscriber s)) = Inr sub"
    and fits: "\<And>ms. subseq ms ns \<Longrightarrow> run_fits (obs Commit) fits ms s"
  shows "\<exists>sub'. undo config Commit sub = Inr sub' \<and> m_notificationBuffers sub' = [] \<and> inv (observerState sub') \<and>
    ext s (observerState sub')"
proof -
  have sub: "m_isUndoEnabled sub" "res_fold (obs Commit) (m_notificationBuffers sub) s = Inr (observerState sub)"
      "subseq (m_notificationBuffers sub) ns"
    using notify_all_buffers [OF config _ run] by (auto simp: enableUndo_def ProcessingNotificationSubscriber_def)
  obtain t where "res_fold (obs Rollback) (rev (m_notificationBuffers sub)) (observerState sub) = Inr t" "inv t" "ext s t"
    using run_undo [OF assms(2) fits [OF sub(3)] sub(2)] ext_refl by blast
  then show ?thesis using sub(1) by (simp add: undo_def config)
qed

text \<open>Blocks: the notifications of all entities of the block, rolled back in reverse order of entities and notifications.\<close>

lemma block_undo:
  assumes config: "pObserver config = obs" and "inv s"
    and fits: "run_fits (obs Commit) fits (filter (IsSetObserver config) (concat (map publish (ExtractEntityInfos element)))) s"
    and run: "ExecuteBlock (NotificationObserverAdapter config publish) element s = Inr s'"
  shows "inv s' \<and> (\<exists>t. ObserveAll (ReverseNotificationObserverAdapter config publish Rollback) (rev (ExtractEntityInfos element)) s' = Inr t \<and>
    inv t \<and> ext s t)"
proof -
  have "res_fold (obs Commit) (filter (IsSetObserver config) (concat (map publish (ExtractEntityInfos element)))) s = Inr s'"
    using run unfolding ExecuteBlock_def ObserveAll_def adapter_run config by simp
  from run_undo [OF assms(2) fits this] show ?thesis
    unfolding ObserveAll_def reverse_adapter_run config using ext_refl by blast
qed

end

section \<open>Properties\<close>



end
