(* ===== verification/Core_System.thy ===== *)
theory Core_System
  imports Account_Cache Inflation Notification_Processing
begin

text \<open>
  The core system plugin (\<^verbatim>\<open>plugins/coresystem\<close>): the notifications it handles, its validators and its observers, as
  registered in \<^verbatim>\<open>CoreSystem.cpp\<close>. The state of the observers is the account state cache, the number of confirmed
  transactions and the block statement under construction. What the plugin gets from elsewhere is part of the context: the
  resolvers of aliased ids, addresses and amounts (\<^verbatim>\<open>ResolverContext\<close>) and the check of an address (\<^verbatim>\<open>IsValidAddress\<close>,
  cryptography).
\<close>

section \<open>Receipts\<close>

definition MakeReceiptType :: "u8 \<Rightarrow> u8 \<Rightarrow> u8 \<Rightarrow> u16" where
  "MakeReceiptType basicReceiptType facilityCode code =
     (ucast basicReceiptType mod 16) * 4096 + (ucast code mod 16) * 256 + ucast facilityCode"

definition Receipt_Type_Harvest_Fee :: u16 where "Receipt_Type_Harvest_Fee = MakeReceiptType 0x2 0x43 1"
definition Receipt_Type_Inflation :: u16 where "Receipt_Type_Inflation = MakeReceiptType 0x5 0x43 1"

datatype 'k receipt =
    BalanceChangeReceipt (ReceiptType: u16) 'k mosaic_id amount
  | InflationReceipt (ReceiptType: u16) mosaic_id amount

type_synonym receipt_source = "u32 \<times> u32"

record 'k statement_builder =
  m_activeSource :: receipt_source
  TransactionStatements :: "receipt_source \<rightharpoonup> 'k receipt list"

text \<open>\<^verbatim>\<open>Statement.h\<close>: insertion sort by receipt type, behind the receipts of the same type.\<close>

fun addReceipt :: "'k receipt \<Rightarrow> 'k receipt list \<Rightarrow> 'k receipt list" where
  "addReceipt receipt [] = [receipt]"
| "addReceipt receipt (r # rs) = (if ReceiptType r > ReceiptType receipt then receipt # r # rs else r # addReceipt receipt rs)"

definition addTransactionReceipt :: "'k receipt \<Rightarrow> 'k statement_builder option \<Rightarrow> 'k statement_builder option" where
  "addTransactionReceipt receipt builder =
     map_option (\<lambda>b. b\<lparr>TransactionStatements := (TransactionStatements b)
        (m_activeSource b \<mapsto> (case TransactionStatements b (m_activeSource b) of
            None \<Rightarrow> addReceipt receipt [] | Some rs \<Rightarrow> addReceipt receipt rs))\<rparr>) builder"

definition builder_source :: "'k statement_builder option \<Rightarrow> receipt_source" where
  "builder_source builder = (case builder of None \<Rightarrow> (0, 0) | Some b \<Rightarrow> m_activeSource b)"

definition setSource :: "receipt_source \<Rightarrow> 'k statement_builder option \<Rightarrow> 'k statement_builder option" where
  "setSource source builder = map_option (\<lambda>b. b\<lparr>m_activeSource := source\<rparr>) builder"

section \<open>Notifications\<close>

record 'k block_notification =
  Signer :: 'k
  Beneficiary :: 'k
  Timestamp :: timestamp
  Difficulty :: u64
  TotalFee :: amount
  NumTransactions :: u32
  FeeInterest :: u32
  FeeInterestDenominator :: u32

datatype source_change_type = Absolute | Relative

datatype ('k, 'u, 'x) notification =
    RegisterAccountNotification "('u, 'k) account_notification"
  | BalanceTransferNotification 'k 'u u64 'x
  | BalanceDebitNotification 'k u64 'x
  | BalanceCreditNotification 'k u64 'x
  | EntityNotification u8 u16 u32
  | BlockNotification "'k block_notification"
  | TransactionNotification 'k u16 timestamp
  | TransactionDeadlineNotification timestamp u64
  | TransactionFeeNotification u32 amount amount
  | SignatureNotification 'k
  | SourceChangeNotification source_change_type u32 source_change_type u32

text \<open>\<^verbatim>\<open>NotificationType.h\<close>: the channels of the notification types.\<close>

fun channel_validator :: "('k, 'u, 'x) notification \<Rightarrow> bool" where
  "channel_validator (RegisterAccountNotification (AccountPublicKeyNotification _)) \<longleftrightarrow> False"
| "channel_validator (SourceChangeNotification _ _ _ _) \<longleftrightarrow> False"
| "channel_validator _ \<longleftrightarrow> True"

fun channel_observer :: "('k, 'u, 'x) notification \<Rightarrow> bool" where
  "channel_observer (EntityNotification _ _ _) \<longleftrightarrow> False"
| "channel_observer (SignatureNotification _) \<longleftrightarrow> False"
| "channel_observer (TransactionFeeNotification _ _ _) \<longleftrightarrow> False"
| "channel_observer (TransactionDeadlineNotification _ _) \<longleftrightarrow> False"
| "channel_observer _ \<longleftrightarrow> True"

section \<open>Context and state\<close>

record ('a, 'k, 'u, 'x) core_context =
  Height :: height
  BlockTime :: timestamp
  Options :: "('a, 'k) account_options"
  resolveMosaic :: "u64 \<Rightarrow> mosaic_id"
  resolveAddress :: "'u \<Rightarrow> 'a"
  resolveAmount :: "'x \<Rightarrow> amount"
  IsValidAddress :: "'a \<Rightarrow> bool"
  InflationCalculator :: inflation_map
  HarvestBeneficiaryPercentage :: u8
  ImportanceGrouping :: u64
  MaxRollbackBlocks :: u32
  MinHarvesterBalance :: amount
  MaxTransactionsPerBlock :: u32
  SupportedEntityVersions :: "u16 \<rightharpoonup> u32 set"
  EnableDeadlineValidation :: bool
  MaxTransactionLifetime :: u64
  NetworkIdentifier :: u8
  updatedAddresses :: "'a list"

record ('a, 'k) core_state =
  Accounts :: "('a, 'k) account_cache"
  NumTotalTransactions :: u64
  StatementBuilder :: "'k statement_builder option"

section \<open>Finding and changing accounts\<close>

text \<open>The iterator of \<^verbatim>\<open>cache.find\<close> is the position of the account; \<^verbatim>\<open>get()\<close> throws when there is none.\<close>

definition find_by_key :: "'k \<Rightarrow> ('a, 'k) account_cache \<Rightarrow> 'a option" where
  "find_by_key publicKey c =
     (case m_keyToAddress c publicKey of None \<Rightarrow> None | Some address \<Rightarrow> if contains_address address c then Some address else None)"

definition get_account :: "'a option \<Rightarrow> ('a, 'k) account_cache \<Rightarrow> ('a \<times> ('a, 'k) account_state) result" where
  "get_account position c =
     (case position of
        None \<Rightarrow> Inl (InvalidArgument ''not found'')
      | Some address \<Rightarrow>
         (case m_stateByAddress c address of None \<Rightarrow> Inl (InvalidArgument ''not found'') | Some s \<Rightarrow> Inr (address, s)))"

definition update_balances ::
  "'a \<Rightarrow> (account_balances \<Rightarrow> account_balances result) \<Rightarrow> ('a, 'k) account_cache \<Rightarrow> ('a, 'k) account_cache result" where
  "update_balances address f c =
     res_bind (get_account (Some address) c) (\<lambda>(_, s).
     res_bind (f (Balances s)) (\<lambda>b.
     Inr (c\<lparr>m_stateByAddress := (m_stateByAddress c)(address \<mapsto> s\<lparr>Balances := b\<rparr>)\<rparr>)))"

definition credit_account :: "height \<Rightarrow> 'a \<Rightarrow> mosaic_id \<Rightarrow> amount \<Rightarrow> ('a, 'k) account_cache \<Rightarrow> ('a, 'k) account_cache result" where
  "credit_account height address mosaicId amount = update_balances address (\<lambda>b. credit b mosaicId amount height)"

definition debit_account :: "height \<Rightarrow> 'a \<Rightarrow> mosaic_id \<Rightarrow> amount \<Rightarrow> ('a, 'k) account_cache \<Rightarrow> ('a, 'k) account_cache result" where
  "debit_account height address mosaicId amount = update_balances address (\<lambda>b. debit b mosaicId amount height)"

text \<open>An observer that only works on the account state cache.\<close>

definition on_accounts ::
  "(('a, 'k) account_cache \<Rightarrow> ('a, 'k) account_cache result) \<Rightarrow> ('a, 'k) core_state \<Rightarrow> ('a, 'k) core_state result" where
  "on_accounts f s = res_bind (f (Accounts s)) (\<lambda>c. Inr (s\<lparr>Accounts := c\<rparr>))"

section \<open>Observers\<close>

definition Transfer ::
  "height \<Rightarrow> 'a \<Rightarrow> 'a \<Rightarrow> mosaic_id \<Rightarrow> amount \<Rightarrow> ('a, 'k) account_cache \<Rightarrow> ('a, 'k) account_cache result" where
  "Transfer height debitAddress creditAddress mosaicId amount c =
     res_bind (debit_account height debitAddress mosaicId amount c) (credit_account height creditAddress mosaicId amount)"

definition BalanceTransferObserver ::
  "('a, 'k, 'u, 'x) core_context \<Rightarrow> notify_mode \<Rightarrow> 'k \<Rightarrow> 'u \<Rightarrow> u64 \<Rightarrow> 'x \<Rightarrow>
   ('a, 'k) account_cache \<Rightarrow> ('a, 'k) account_cache result" where
  "BalanceTransferObserver context mode sender recipient mosaic amount c =
     res_bind (get_account (find_by_key sender c) c) (\<lambda>(senderAddress, _).
     res_bind (get_account (Some (resolveAddress context recipient)) c) (\<lambda>(recipientAddress, _).
     let mosaicId = resolveMosaic context mosaic; amount = resolveAmount context amount
     in if Commit = mode then Transfer (Height context) senderAddress recipientAddress mosaicId amount c
        else Transfer (Height context) recipientAddress senderAddress mosaicId amount c))"

definition BalanceDebitObserver ::
  "('a, 'k, 'u, 'x) core_context \<Rightarrow> notify_mode \<Rightarrow> 'k \<Rightarrow> u64 \<Rightarrow> 'x \<Rightarrow> ('a, 'k) account_cache \<Rightarrow> ('a, 'k) account_cache result" where
  "BalanceDebitObserver context mode sender mosaic amount c =
     res_bind (get_account (find_by_key sender c) c) (\<lambda>(senderAddress, _).
     let mosaicId = resolveMosaic context mosaic; amount = resolveAmount context amount
     in if Commit = mode then debit_account (Height context) senderAddress mosaicId amount c
        else credit_account (Height context) senderAddress mosaicId amount c)"

definition BalanceCreditObserver ::
  "('a, 'k, 'u, 'x) core_context \<Rightarrow> notify_mode \<Rightarrow> 'k \<Rightarrow> u64 \<Rightarrow> 'x \<Rightarrow> ('a, 'k) account_cache \<Rightarrow> ('a, 'k) account_cache result" where
  "BalanceCreditObserver context mode sender mosaic amount c =
     res_bind (get_account (find_by_key sender c) c) (\<lambda>(senderAddress, _).
     let mosaicId = resolveMosaic context mosaic; amount = resolveAmount context amount
     in if Commit = mode then credit_account (Height context) senderAddress mosaicId amount c
        else debit_account (Height context) senderAddress mosaicId amount c)"

definition ApplyFee_state ::
  "'a \<Rightarrow> ('a, 'k, 'u, 'x) core_context \<Rightarrow> notify_mode \<Rightarrow> mosaic_id \<Rightarrow> amount \<Rightarrow> ('a, 'k) core_state \<Rightarrow> ('a, 'k) core_state result" where
  "ApplyFee_state address context mode mosaicId amount s =
     (if Rollback = mode then on_accounts (debit_account (Height context) address mosaicId amount) s
      else res_bind (on_accounts (credit_account (Height context) address mosaicId amount) s) (\<lambda>s.
           res_bind (get_account (Some address) (Accounts s)) (\<lambda>(_, accountState).
           Inr (s\<lparr>StatementBuilder := addTransactionReceipt
             (BalanceChangeReceipt Receipt_Type_Harvest_Fee (PublicKey accountState) mosaicId amount) (StatementBuilder s)\<rparr>))))"

definition ApplyFee ::
  "('a, 'k, 'u, 'x) core_context \<Rightarrow> notify_mode \<Rightarrow> 'k \<Rightarrow> mosaic_id \<Rightarrow> amount \<Rightarrow> ('a, 'k) core_state \<Rightarrow> ('a, 'k) core_state result" where
  "ApplyFee context mode publicKey mosaicId amount s =
     res_bind (get_account (find_by_key publicKey (Accounts s)) (Accounts s)) (\<lambda>(address, accountState).
     if Remote \<noteq> AccountType accountState then ApplyFee_state address context mode mosaicId amount s
     else
       res_bind (get_account (find_by_key (LinkedAccountKey accountState) (Accounts s)) (Accounts s)) (\<lambda>(linkedAddress, linkedAccountState).
       res_bind (RequireLinkedRemoteAndMainAccounts accountState linkedAccountState) (\<lambda>_.
       ApplyFee_state linkedAddress context mode mosaicId amount s)))"

definition ShouldShareFees :: "'k \<Rightarrow> 'k \<Rightarrow> 'k \<Rightarrow> u8 \<Rightarrow> bool" where
  "ShouldShareFees zeroKey signer harvesterBeneficiary harvestBeneficiaryPercentage \<longleftrightarrow>
     0 < harvestBeneficiaryPercentage \<and> zeroKey \<noteq> harvesterBeneficiary \<and> signer \<noteq> harvesterBeneficiary"

text \<open>The product is a 64-bit product: \<^verbatim>\<open>totalAmount.unwrap() * percentage / 100\<close>.\<close>

definition beneficiary_amount :: "('a, 'k, 'u, 'x) core_context \<Rightarrow> 'k block_notification \<Rightarrow> amount \<Rightarrow> amount" where
  "beneficiary_amount context notification totalAmount =
     (if ShouldShareFees (ZeroKey (Options context)) (Signer notification) (Beneficiary notification) (HarvestBeneficiaryPercentage context)
      then totalAmount * ucast (HarvestBeneficiaryPercentage context) div 100 else 0)"

definition HarvestFeeObserver ::
  "('a, 'k, 'u, 'x) core_context \<Rightarrow> notify_mode \<Rightarrow> 'k block_notification \<Rightarrow> ('a, 'k) core_state \<Rightarrow> ('a, 'k) core_state result" where
  "HarvestFeeObserver context mode notification s =
     (let inflationAmount = getSpotAmount (InflationCalculator context) (Height context);
          totalAmount = TotalFee notification + inflationAmount;
          mosaicId = CurrencyMosaicId (Options context);
          beneficiaryAmount = beneficiary_amount context notification totalAmount;
          harvesterAmount = totalAmount - beneficiaryAmount
      in res_bind (ApplyFee context mode (Signer notification) mosaicId harvesterAmount s) (\<lambda>s.
         res_bind (if 0 \<noteq> beneficiaryAmount then ApplyFee context mode (Beneficiary notification) mosaicId beneficiaryAmount s else Inr s) (\<lambda>s.
         if 0 \<noteq> inflationAmount \<and> Commit = mode
         then Inr (s\<lparr>StatementBuilder := addTransactionReceipt (InflationReceipt Receipt_Type_Inflation mosaicId inflationAmount) (StatementBuilder s)\<rparr>)
         else Inr s)))"

definition TotalTransactionsObserver :: "notify_mode \<Rightarrow> 'k block_notification \<Rightarrow> ('a, 'k) core_state \<Rightarrow> ('a, 'k) core_state result" where
  "TotalTransactionsObserver mode notification s =
     Inr (if Commit = mode then s\<lparr>NumTotalTransactions := NumTotalTransactions s + ucast (NumTransactions notification)\<rparr>
          else s\<lparr>NumTotalTransactions := NumTotalTransactions s - ucast (NumTransactions notification)\<rparr>)"

definition cleanUp_account :: "('a, 'k, 'u, 'x) core_context \<Rightarrow> 'a \<Rightarrow> ('a, 'k) account_cache \<Rightarrow> ('a, 'k) account_cache" where
  "cleanUp_account context address c =
     (case m_stateByAddress c address of
        None \<Rightarrow> c
      | Some s \<Rightarrow> c\<lparr>m_stateByAddress := (m_stateByAddress c)(address \<mapsto>
          s\<lparr>Balances := maybeCleanUpSnapshots (Balances s) (Height context) (ImportanceGrouping context) (ucast (MaxRollbackBlocks context))\<rparr>)\<rparr>)"

definition SnapshotCleanUpObserver :: "('a, 'k, 'u, 'x) core_context \<Rightarrow> notify_mode \<Rightarrow> ('a, 'k) core_state \<Rightarrow> ('a, 'k) core_state result" where
  "SnapshotCleanUpObserver context mode s =
     (if mode = Rollback then Inr s
      else if MaxRollbackBlocks context \<noteq> 0 \<and> Height context mod ucast (MaxRollbackBlocks context) \<noteq> 0 then Inr s
      else Inr (s\<lparr>Accounts := fold (cleanUp_account context) (updatedAddresses context) (Accounts s)\<rparr>))"

definition SourceChangeObserver ::
  "notify_mode \<Rightarrow> source_change_type \<Rightarrow> u32 \<Rightarrow> source_change_type \<Rightarrow> u32 \<Rightarrow> ('a, 'k) core_state \<Rightarrow> ('a, 'k) core_state result" where
  "SourceChangeObserver mode primaryChangeType primaryId secondaryChangeType secondaryId s =
     (if Commit \<noteq> mode then Inr s
      else
        let currentSource = builder_source (StatementBuilder s);
            newPrimary = (if Relative = primaryChangeType then primaryId + fst currentSource else primaryId);
            newSecondary = (if Relative = secondaryChangeType then secondaryId + snd currentSource else secondaryId)
        in Inr (s\<lparr>StatementBuilder := setSource (newPrimary, newSecondary) (StatementBuilder s)\<rparr>))"

text \<open>\<^verbatim>\<open>CoreSystem.cpp\<close>: the observers of a notification, in the order of their registration.\<close>

fun core_observers ::
  "('a, 'k, 'u, 'x) core_context \<Rightarrow> ('k, 'u, 'x) notification \<Rightarrow> (notify_mode \<Rightarrow> ('a, 'k) core_state \<Rightarrow> ('a, 'k) core_state result) list" where
  "core_observers context (SourceChangeNotification pt p st q) = [\<lambda>mode. SourceChangeObserver mode pt p st q]"
| "core_observers context (RegisterAccountNotification n) =
     [\<lambda>mode. on_accounts (AccountObserver (resolveAddress context) (Options context) mode (Height context) n)]"
| "core_observers context (BalanceDebitNotification k m x) = [\<lambda>mode. on_accounts (BalanceDebitObserver context mode k m x)]"
| "core_observers context (BalanceCreditNotification k m x) = [\<lambda>mode. on_accounts (BalanceCreditObserver context mode k m x)]"
| "core_observers context (BalanceTransferNotification k u m x) = [\<lambda>mode. on_accounts (BalanceTransferObserver context mode k u m x)]"
| "core_observers context (BlockNotification n) =
     [\<lambda>mode. HarvestFeeObserver context mode n, \<lambda>mode. TotalTransactionsObserver mode n, \<lambda>mode. SnapshotCleanUpObserver context mode]"
| "core_observers context _ = []"

definition core_observer ::
  "('a, 'k, 'u, 'x) core_context \<Rightarrow> notify_mode \<Rightarrow> ('k, 'u, 'x) notification \<Rightarrow> ('a, 'k) core_state \<Rightarrow> ('a, 'k) core_state result" where
  "core_observer context = aggregate_notify (\<lambda>n. map (\<lambda>ob mode _. ob mode) (core_observers context n))"

section \<open>Validators\<close>

definition core_failure :: "u16 \<Rightarrow> validation_result" where
  "core_failure code = MakeValidationResult SeverityFailure 0x43 code 0"

definition Failure_Core_Past_Deadline :: validation_result where "Failure_Core_Past_Deadline = core_failure 3"
definition Failure_Core_Future_Deadline :: validation_result where "Failure_Core_Future_Deadline = core_failure 4"
definition Failure_Core_Insufficient_Balance :: validation_result where "Failure_Core_Insufficient_Balance = core_failure 5"
definition Failure_Core_Too_Many_Transactions :: validation_result where "Failure_Core_Too_Many_Transactions = core_failure 15"
definition Failure_Core_Wrong_Network :: validation_result where "Failure_Core_Wrong_Network = core_failure 20"
definition Failure_Core_Invalid_Address :: validation_result where "Failure_Core_Invalid_Address = core_failure 21"
definition Failure_Core_Invalid_Version :: validation_result where "Failure_Core_Invalid_Version = core_failure 22"
definition Failure_Core_Invalid_Transaction_Fee :: validation_result where "Failure_Core_Invalid_Transaction_Fee = core_failure 23"
definition Failure_Core_Invalid_FeeInterest :: validation_result where "Failure_Core_Invalid_FeeInterest = core_failure 24"
definition Failure_Core_Invalid_FeeInterestDenominator :: validation_result where
  "Failure_Core_Invalid_FeeInterestDenominator = core_failure 25"
definition Failure_Core_Block_Harvester_Ineligible :: validation_result where
  "Failure_Core_Block_Harvester_Ineligible = core_failure 105"

definition AddressValidator :: "('a, 'k, 'u, 'x) core_context \<Rightarrow> 'u \<Rightarrow> validation_result" where
  "AddressValidator context address =
     (if IsValidAddress context (resolveAddress context address) then Result_Success else Failure_Core_Invalid_Address)"

text \<open>The balance is looked up by public key and, if the key is not known yet, by the address of the key.\<close>

definition FindAccountBalance ::
  "('a, 'k) account_options \<Rightarrow> ('a, 'k) account_cache \<Rightarrow> 'k \<Rightarrow> mosaic_id \<Rightarrow> amount option" where
  "FindAccountBalance options c publicKey mosaicId =
     (case find_key publicKey c of
        Some s \<Rightarrow> Some (get_balance (Balances s) mosaicId)
      | None \<Rightarrow>
         (case m_stateByAddress c (PublicKeyToAddress options publicKey) of
            Some s \<Rightarrow> Some (get_balance (Balances s) mosaicId)
          | None \<Rightarrow> None))"

definition CheckBalance ::
  "('a, 'k, 'u, 'x) core_context \<Rightarrow> 'k \<Rightarrow> u64 \<Rightarrow> 'x \<Rightarrow> ('a, 'k) account_cache \<Rightarrow> validation_result" where
  "CheckBalance context sender mosaic amount c =
     (case FindAccountBalance (Options context) c sender (resolveMosaic context mosaic) of
        None \<Rightarrow> Failure_Core_Insufficient_Balance
      | Some balance \<Rightarrow> if balance \<ge> resolveAmount context amount then Result_Success else Failure_Core_Insufficient_Balance)"

definition ValidateTransactionDeadline :: "timestamp \<Rightarrow> timestamp \<Rightarrow> u64 \<Rightarrow> validation_result" where
  "ValidateTransactionDeadline timestamp deadline maxTransactionLifetime =
     (if timestamp > deadline then Failure_Core_Past_Deadline
      else if deadline > timestamp + maxTransactionLifetime then Failure_Core_Future_Deadline else Result_Success)"

definition DeadlineValidator :: "('a, 'k, 'u, 'x) core_context \<Rightarrow> timestamp \<Rightarrow> u64 \<Rightarrow> validation_result" where
  "DeadlineValidator context deadline maxLifetime =
     (if \<not> EnableDeadlineValidation context then Result_Success
      else ValidateTransactionDeadline (BlockTime context) deadline
        (if 0 = maxLifetime then MaxTransactionLifetime context else maxLifetime))"

definition EligibleHarvesterValidator ::
  "('a, 'k, 'u, 'x) core_context \<Rightarrow> 'k block_notification \<Rightarrow> ('a, 'k) account_cache \<Rightarrow> validation_result result" where
  "EligibleHarvesterValidator context notification c =
     map_sum id (\<lambda>eligible. if eligible then Result_Success else Failure_Core_Block_Harvester_Ineligible)
       (canHarvest (Options context) (ImportanceGrouping context) c (Signer notification) (Height context) (MinHarvesterBalance context))"

definition EntityVersionValidator :: "('a, 'k, 'u, 'x) core_context \<Rightarrow> u16 \<Rightarrow> u32 \<Rightarrow> validation_result" where
  "EntityVersionValidator context entityType entityVersion =
     (case SupportedEntityVersions context entityType of
        None \<Rightarrow> Failure_Core_Invalid_Version
      | Some versions \<Rightarrow> if entityVersion \<notin> versions then Failure_Core_Invalid_Version else Result_Success)"

definition GreedValidator :: "'k block_notification \<Rightarrow> validation_result" where
  "GreedValidator notification =
     (if FeeInterestDenominator notification = 0 then Failure_Core_Invalid_FeeInterestDenominator
      else if FeeInterestDenominator notification < FeeInterest notification then Failure_Core_Invalid_FeeInterest
      else Result_Success)"

definition MaxTransactionsValidator :: "('a, 'k, 'u, 'x) core_context \<Rightarrow> 'k block_notification \<Rightarrow> validation_result" where
  "MaxTransactionsValidator context notification =
     (if NumTransactions notification \<le> MaxTransactionsPerBlock context then Result_Success else Failure_Core_Too_Many_Transactions)"

definition NetworkValidator :: "('a, 'k, 'u, 'x) core_context \<Rightarrow> u8 \<Rightarrow> validation_result" where
  "NetworkValidator context network = (if NetworkIdentifier context = network then Result_Success else Failure_Core_Wrong_Network)"

definition TransactionFeeValidator :: "u32 \<Rightarrow> amount \<Rightarrow> amount \<Rightarrow> validation_result" where
  "TransactionFeeValidator transactionSize fee maxFee =
     (if fee > maxFee then Failure_Core_Invalid_Transaction_Fee
      else let maxRawBlockFeeMultiplier = ucast (- 1 :: u32) :: u64
           in if maxFee > maxRawBlockFeeMultiplier * ucast transactionSize
              then Failure_Core_Invalid_Transaction_Fee else Result_Success)"

text \<open>
  \<^verbatim>\<open>CoreSystem.cpp\<close>: the stateful validators in the order of their registration, and the stateless ones. The greed
  validator is defined but not registered.
\<close>

fun core_stateful_validators ::
  "('a, 'k, 'u, 'x) core_context \<Rightarrow> ('k, 'u, 'x) notification \<Rightarrow> ('a, 'k) account_cache \<Rightarrow> validation_result result list" where
  "core_stateful_validators context (EntityNotification network entityType version) c = [Inr (EntityVersionValidator context entityType version)]"
| "core_stateful_validators context (BlockNotification n) c =
     [Inr (MaxTransactionsValidator context n), EligibleHarvesterValidator context n c]"
| "core_stateful_validators context (RegisterAccountNotification (AccountAddressNotification u)) c = [Inr (AddressValidator context u)]"
| "core_stateful_validators context (TransactionDeadlineNotification deadline maxLifetime) c =
     [Inr (DeadlineValidator context deadline maxLifetime)]"
| "core_stateful_validators context (BalanceDebitNotification k m x) c = [Inr (CheckBalance context k m x c)]"
| "core_stateful_validators context (BalanceTransferNotification k u m x) c = [Inr (CheckBalance context k m x c)]"
| "core_stateful_validators context _ c = []"

fun core_stateless_validators :: "('a, 'k, 'u, 'x) core_context \<Rightarrow> ('k, 'u, 'x) notification \<Rightarrow> validation_result list" where
  "core_stateless_validators context (EntityNotification network entityType version) = [NetworkValidator context network]"
| "core_stateless_validators context (TransactionFeeNotification txSize fee maxFee) = [TransactionFeeValidator txSize fee maxFee]"
| "core_stateless_validators context _ = []"

text \<open>
  The loop of the aggregate validator (\<^verbatim>\<open>AggregateValidatorBuilder.h\<close>), with validators that may throw. The validators
  that the plugin manager builds by default suppress no failure.
\<close>

fun run_validators ::
  "(validation_result \<Rightarrow> bool) \<Rightarrow> validation_result result list \<Rightarrow> validation_result \<Rightarrow> validation_result result" where
  "run_validators isSuppressedFailure [] aggregateResult = Inr aggregateResult"
| "run_validators isSuppressedFailure (v # vs) aggregateResult =
     res_bind v (\<lambda>result.
       if isSuppressedFailure result then run_validators isSuppressedFailure vs aggregateResult
       else if IsValidationResultFailure result then Inr result
       else run_validators isSuppressedFailure vs (AggregateResult aggregateResult result))"

definition core_validator ::
  "('a, 'k, 'u, 'x) core_context \<Rightarrow> ('k, 'u, 'x) notification \<Rightarrow> ('a, 'k) core_state \<Rightarrow> validation_result result" where
  "core_validator context notification s =
     run_validators (\<lambda>_. False) (core_stateful_validators context notification (Accounts s)) Result_Success"

definition core_stateless_validator :: "('a, 'k, 'u, 'x) core_context \<Rightarrow> ('k, 'u, 'x) notification \<Rightarrow> validation_result result" where
  "core_stateless_validator context notification =
     run_validators (\<lambda>_. False) (map Inr (core_stateless_validators context notification)) Result_Success"

definition core_configuration ::
  "('a, 'k, 'u, 'x) core_context \<Rightarrow> (('k, 'u, 'x) notification, ('a, 'k) core_state) execution_configuration" where
  "core_configuration context =
     \<lparr>IsSetValidator = channel_validator, IsSetObserver = channel_observer,
      pValidator = core_validator context, pObserver = core_observer context\<rparr>"
end
