(* ===== verification/Ledger.thy ===== *)
theory Ledger
  imports Core_System
begin

text \<open>
  The account state cache as a ledger. A book maps every account to its balances; the locale \<open>account_book\<close> is what
  observers rely on when they credit and debit accounts, and it is interpreted on the operations of the cache. Inside the
  locale, transfers are shown to conserve the supply of every mosaic and to be undone by the transfer back.
\<close>

section \<open>Books\<close>

type_synonym 'a book = "'a \<rightharpoonup> (mosaic_id \<Rightarrow> amount)"

definition book_in :: "'a \<Rightarrow> mosaic_id \<Rightarrow> amount \<Rightarrow> 'a book \<Rightarrow> 'a book" where
  "book_in a m x B = (case B a of None \<Rightarrow> B | Some f \<Rightarrow> B(a \<mapsto> f(m := f m + x)))"

definition book_out :: "'a \<Rightarrow> mosaic_id \<Rightarrow> amount \<Rightarrow> 'a book \<Rightarrow> 'a book" where
  "book_out a m x B = (case B a of None \<Rightarrow> B | Some f \<Rightarrow> B(a \<mapsto> f(m := f m - x)))"

text \<open>The total amount of a mosaic, as a natural number.\<close>

definition mosaic_supply :: "mosaic_id \<Rightarrow> 'a book \<Rightarrow> nat" where
  "mosaic_supply m B = (\<Sum>a\<in>dom B. unat (the (B a) m))"

text \<open>The same book, with possibly more accounts that hold nothing.\<close>

definition book_ext :: "'a book \<Rightarrow> 'a book \<Rightarrow> bool" where
  "book_ext B B' \<longleftrightarrow> (\<forall>a. B' a = B a \<or> B a = None \<and> B' a = Some (\<lambda>_. 0))"

lemma dom_book_in [simp]: "dom (book_in a m x B) = dom B"
  by (auto simp: book_in_def split: option.splits if_splits)

lemma dom_book_out [simp]: "dom (book_out a m x B) = dom B"
  by (auto simp: book_out_def split: option.splits if_splits)

lemma book_None_iff [simp]: "book_in a m x B b = None \<longleftrightarrow> B b = None" "book_out a m x B b = None \<longleftrightarrow> B b = None"
  by (auto simp: book_in_def book_out_def split: option.splits)

lemma supply_upd:
  assumes "finite (dom B)" and "B a = Some f"
  shows "mosaic_supply m (B(a \<mapsto> g)) + unat (f m) = mosaic_supply m B + unat (g m)"
proof -
  have dom: "dom (B(a \<mapsto> g)) = insert a (dom B - {a})" "dom B = insert a (dom B - {a})" using assms(2) by auto
  have "(\<Sum>b\<in>dom B - {a}. unat (the ((B(a \<mapsto> g)) b) m)) = (\<Sum>b\<in>dom B - {a}. unat (the (B b) m))"
    by (rule sum.cong) auto
  moreover have "mosaic_supply m (B(a \<mapsto> g)) = unat (g m) + (\<Sum>b\<in>dom B - {a}. unat (the ((B(a \<mapsto> g)) b) m))"
    unfolding mosaic_supply_def dom(1) using assms(1) by (subst sum.insert) auto
  moreover have "mosaic_supply m B = unat (f m) + (\<Sum>b\<in>dom B - {a}. unat (the (B b) m))"
    unfolding mosaic_supply_def using sum.remove [OF assms(1), of a "\<lambda>b. unat (the (B b) m)"] assms(2) by auto
  ultimately show ?thesis by simp
qed

lemma balance_le_supply:
  assumes "finite (dom B)" and "B a = Some f"
  shows "unat (f m) \<le> mosaic_supply m B"
  using member_le_sum [of a "dom B" "\<lambda>b. unat (the (B b) m)"] assms by (simp add: mosaic_supply_def domI)

lemma unat_add_small: "unat x + unat y < 2 ^ 64 \<Longrightarrow> unat (x + y :: u64) = unat x + unat y"
  by (simp add: unat_word_ariths)

lemma supply_in:
  assumes "finite (dom B)" and "B a = Some f" and "unat (f m) + unat x < 2 ^ 64"
  shows "mosaic_supply m' (book_in a m x B) = mosaic_supply m' B + (if m' = m then unat x else 0)"
proof -
  have "book_in a m x B = B(a \<mapsto> f(m := f m + x))" using assms(2) by (simp add: book_in_def)
  moreover have "mosaic_supply m' (B(a \<mapsto> f(m := f m + x))) + unat (f m') = mosaic_supply m' B + unat ((f(m := f m + x)) m')"
    by (rule supply_upd [OF assms(1,2)])
  ultimately show ?thesis using unat_add_small [OF assms(3)] by (cases "m' = m") simp_all
qed

lemma supply_out:
  assumes "finite (dom B)" and "B a = Some f" and "x \<le> f m"
  shows "mosaic_supply m' (book_out a m x B) + (if m' = m then unat x else 0) = mosaic_supply m' B"
proof -
  have "book_out a m x B = B(a \<mapsto> f(m := f m - x))" using assms(2) by (simp add: book_out_def)
  moreover have "mosaic_supply m' (B(a \<mapsto> f(m := f m - x))) + unat (f m') = mosaic_supply m' B + unat ((f(m := f m - x)) m')"
    by (rule supply_upd [OF assms(1,2)])
  moreover have "unat (f m - x) = unat (f m) - unat x" "unat x \<le> unat (f m)"
    using assms(3) by (simp_all add: unat_sub word_le_nat_alt)
  ultimately show ?thesis by (cases "m' = m") simp_all
qed

lemma book_in_commute: "book_in a m x (book_in b m y B) = book_in b m y (book_in a m x B)"
  by (cases "a = b") (auto simp: book_in_def fun_upd_twist add.assoc add.commute [of x y] split: option.splits)

lemma book_out_in: "book_out a m x (book_in a m x B) = B"
  by (auto simp: book_in_def book_out_def split: option.splits)

lemma book_in_out: "book_in a m x (book_out a m x B) = B"
  by (auto simp: book_in_def book_out_def split: option.splits)

lemma book_ext_refl [simp]: "book_ext B B"
  by (simp add: book_ext_def)

lemma book_ext_trans: "book_ext A B \<Longrightarrow> book_ext B C \<Longrightarrow> book_ext A C"
  unfolding book_ext_def by metis

lemma book_ext_Some: "book_ext B B' \<Longrightarrow> B a = Some f \<Longrightarrow> B' a = Some f"
  by (auto simp: book_ext_def split: option.splits dest: spec [of _ a])

lemma book_ext_out:
  assumes "book_ext B B'" and "B a \<noteq> None"
  shows "book_ext (book_out a m x B) (book_out a m x B')"
  unfolding book_ext_def
proof
  fix b
  obtain f where "B a = Some f" using assms(2) by auto
  note f = this book_ext_Some [OF assms(1) this]
  have "B' b = B b \<or> B b = None \<and> B' b = Some (\<lambda>_. 0)" using assms(1) by (simp add: book_ext_def)
  moreover have "book_out a m x B = B(a \<mapsto> f(m := f m - x))" "book_out a m x B' = B'(a \<mapsto> f(m := f m - x))"
    using f by (simp_all add: book_out_def)
  ultimately show "book_out a m x B' b = book_out a m x B b \<or> book_out a m x B b = None \<and> book_out a m x B' b = Some (\<lambda>_. 0)"
    by (cases "b = a") simp_all
qed

lemma book_ext_in:
  assumes "book_ext B B'" and "B a \<noteq> None"
  shows "book_ext (book_in a m x B) (book_in a m x B')"
  unfolding book_ext_def
proof
  fix b
  obtain f where "B a = Some f" using assms(2) by auto
  note f = this book_ext_Some [OF assms(1) this]
  have "B' b = B b \<or> B b = None \<and> B' b = Some (\<lambda>_. 0)" using assms(1) by (simp add: book_ext_def)
  moreover have "book_in a m x B = B(a \<mapsto> f(m := f m + x))" "book_in a m x B' = B'(a \<mapsto> f(m := f m + x))"
    using f by (simp_all add: book_in_def)
  ultimately show "book_in a m x B' b = book_in a m x B b \<or> book_in a m x B b = None \<and> book_in a m x B' b = Some (\<lambda>_. 0)"
    by (cases "b = a") simp_all
qed

section \<open>The interface of accounts\<close>

text \<open>
  \<open>frame\<close> is what payments leave alone. The laws are those of \<^verbatim>\<open>AccountBalances::credit\<close> and \<^verbatim>\<open>debit\<close>: a credit always
  succeeds and wraps, a debit succeeds exactly when the balance covers it, and both need the account.
\<close>

locale account_book =
  fixes book :: "'c \<Rightarrow> 'a book" and fine :: "'c \<Rightarrow> bool" and frame :: "'c \<Rightarrow> 'f"
    and pay_in pay_out :: "'a \<Rightarrow> mosaic_id \<Rightarrow> amount \<Rightarrow> 'c \<Rightarrow> 'c result"
  assumes finite_book: "fine c \<Longrightarrow> finite (dom (book c))"
    and pay_in_ok: "fine c \<Longrightarrow> book c a = Some f \<Longrightarrow> m \<noteq> 0 \<Longrightarrow>
      \<exists>c'. pay_in a m x c = Inr c' \<and> fine c' \<and> frame c' = frame c \<and> book c' = book_in a m x (book c)"
    and pay_out_ok: "fine c \<Longrightarrow> book c a = Some f \<Longrightarrow> x \<le> f m \<Longrightarrow>
      \<exists>c'. pay_out a m x c = Inr c' \<and> fine c' \<and> frame c' = frame c \<and> book c' = book_out a m x (book c)"
    and pay_out_short: "fine c \<Longrightarrow> book c a = Some f \<Longrightarrow> f m < x \<Longrightarrow> \<exists>e. pay_out a m x c = Inl e"
    and pay_unknown: "book c a = None \<Longrightarrow> \<exists>e. pay_in a m x c = Inl e" "book c a = None \<Longrightarrow> \<exists>e. pay_out a m x c = Inl e"
begin

lemma pay_inD:
  assumes "fine c" and "m \<noteq> 0" and "pay_in a m x c = Inr c'"
  obtains f where "book c a = Some f" "fine c'" "frame c' = frame c" "book c' = book_in a m x (book c)"
  using assms pay_in_ok [OF assms(1) _ assms(2), of a _ x] pay_unknown(1) [of c a m x]
  by (cases "book c a") auto

lemma pay_outD:
  assumes "fine c" and "pay_out a m x c = Inr c'"
  obtains f where "book c a = Some f" "x \<le> f m" "fine c'" "frame c' = frame c" "book c' = book_out a m x (book c)"
proof (cases "book c a")
  case (Some f)
  then have "x \<le> f m" using pay_out_short [OF assms(1) Some, of m x] assms(2) by fastforce
  then show thesis using that Some pay_out_ok [OF assms(1) Some, of x m] assms(2) by auto
qed (use pay_unknown(2) [of c a m x] assms(2) in auto)

text \<open>A payment is taken back on every book that extends the one after it.\<close>

lemma pay_in_undone:
  assumes "fine t" and ext: "book_ext (book_in a m x B) (book t)" and a: "B a = Some f" and small: "unat (f m) + unat x < 2 ^ 64"
  shows "\<exists>t'. pay_out a m x t = Inr t' \<and> fine t' \<and> frame t' = frame t \<and> book_ext B (book t')"
proof -
  have t: "book t a = Some (f(m := f m + x))" using book_ext_Some [OF ext, of a] a by (simp add: book_in_def)
  have "x \<le> f m + x" using unat_add_small [OF small] by (simp add: word_le_nat_alt)
  then obtain t' where t': "pay_out a m x t = Inr t'" "fine t'" "frame t' = frame t" "book t' = book_out a m x (book t)"
    using pay_out_ok [OF assms(1) t, of x m] by auto
  have "book_ext B (book t')" using book_ext_out [OF ext, of a m x] a by (simp add: t' book_out_in del: not_None_eq)
  then show ?thesis using t' by blast
qed

lemma pay_out_undone:
  assumes "fine t" and ext: "book_ext (book_out a m x B) (book t)" and a: "B a = Some f" and m: "m \<noteq> 0"
  shows "\<exists>t'. pay_in a m x t = Inr t' \<and> fine t' \<and> frame t' = frame t \<and> book_ext B (book t')"
proof -
  have t: "book t a = Some (f(m := f m - x))" using book_ext_Some [OF ext, of a] a by (simp add: book_out_def)
  then obtain t' where t': "pay_in a m x t = Inr t'" "fine t'" "frame t' = frame t" "book t' = book_in a m x (book t)"
    using pay_in_ok [OF assms(1) t m, of x] by auto
  have "book_ext B (book t')" using book_ext_in [OF ext, of a m x] a by (simp add: t' book_in_out del: not_None_eq)
  then show ?thesis using t' by blast
qed

text \<open>Transfers.\<close>

lemma transfer_ok:
  assumes "fine c" and "book c a = Some f" "book c b = Some g" and "m \<noteq> 0" and "x \<le> f m"
  obtains c' where "res_bind (pay_out a m x c) (pay_in b m x) = Inr c'" "fine c'" "frame c' = frame c"
    "book c' = book_in b m x (book_out a m x (book c))"
proof -
  obtain c1 where c1: "pay_out a m x c = Inr c1" "fine c1" "frame c1 = frame c" "book c1 = book_out a m x (book c)"
    using pay_out_ok [OF assms(1,2,5)] by blast
  have "book c1 b \<noteq> None" using assms(3) by (simp add: c1(4) del: not_None_eq)
  then obtain c' where "pay_in b m x c1 = Inr c'" "fine c'" "frame c' = frame c1" "book c' = book_in b m x (book c1)"
    using pay_in_ok [OF c1(2) _ assms(4)] by blast
  then show thesis using that c1 by simp
qed

lemma transferD:
  assumes "fine c" and "m \<noteq> 0" and "res_bind (pay_out a m x c) (pay_in b m x) = Inr c'"
  obtains f g where "book c a = Some f" "book c b = Some g" "x \<le> f m" "fine c'" "frame c' = frame c"
    "book c' = book_in b m x (book_out a m x (book c))"
proof -
  obtain c1 where c1: "pay_out a m x c = Inr c1" "pay_in b m x c1 = Inr c'" using assms(3) by (auto simp: res_bind_Inr_iff)
  obtain f where f: "book c a = Some f" "x \<le> f m" "fine c1" "frame c1 = frame c" "book c1 = book_out a m x (book c)"
    by (rule pay_outD [OF assms(1) c1(1)])
  obtain g1 where g1: "book c1 b = Some g1" "fine c'" "frame c' = frame c1" "book c' = book_in b m x (book c1)"
    by (rule pay_inD [OF f(3) assms(2) c1(2)])
  have "book c1 b \<noteq> None" using g1(1) by simp
  then obtain g where "book c b = Some g" unfolding f(5) book_None_iff by blast
  then show thesis using that f g1 by simp
qed

lemma transfer_supply:
  assumes "fine c" and "book c a = Some f" "book c b = Some g" "x \<le> f m" and small: "mosaic_supply m (book c) < 2 ^ 64"
  shows "mosaic_supply m' (book_in b m x (book_out a m x (book c))) = mosaic_supply m' (book c)"
    and "\<exists>g. book_out a m x (book c) b = Some g \<and> unat (g m) + unat x < 2 ^ 64"
proof -
  let ?B = "book_out a m x (book c)"
  have fin: "finite (dom ?B)" using finite_book [OF assms(1)] by simp
  have out: "mosaic_supply n ?B + (if n = m then unat x else 0) = mosaic_supply n (book c)" for n
    by (rule supply_out [OF finite_book [OF assms(1)] assms(2,4)])
  have "?B b \<noteq> None" using assms(3) by (simp del: not_None_eq)
  then obtain g' where g': "?B b = Some g'" by blast
  have "unat (g' m) + unat x < 2 ^ 64" using balance_le_supply [OF fin g', of m] out [of m] small by simp
  then show "\<exists>g. ?B b = Some g \<and> unat (g m) + unat x < 2 ^ 64" using g' by blast
  show "mosaic_supply m' (book_in b m x ?B) = mosaic_supply m' (book c)"
    using supply_in [OF fin g' \<open>unat (g' m) + unat x < 2 ^ 64\<close>, of m'] out [of m'] by simp
qed

lemma transfer_undone:
  assumes "fine c" and "book c a = Some f" "book c b = Some g" "x \<le> f m" and m: "m \<noteq> 0" and small: "mosaic_supply m (book c) < 2 ^ 64"
    and t: "fine t" "book_ext (book_in b m x (book_out a m x (book c))) (book t)"
  shows "\<exists>t'. res_bind (pay_out b m x t) (pay_in a m x) = Inr t' \<and> fine t' \<and> frame t' = frame t \<and> book_ext (book c) (book t')"
proof -
  obtain g' where g': "book_out a m x (book c) b = Some g'" "unat (g' m) + unat x < 2 ^ 64"
    using transfer_supply(2) [OF assms(1-4) small] by blast
  obtain t1 where t1: "pay_out b m x t = Inr t1" "fine t1" "frame t1 = frame t" "book_ext (book_out a m x (book c)) (book t1)"
    using pay_in_undone [OF t g'] by blast
  obtain t' where "pay_in a m x t1 = Inr t'" "fine t'" "frame t' = frame t1" "book_ext (book c) (book t')"
    using pay_out_undone [OF t1(2,4) assms(2) m] by blast
  then show ?thesis using t1 by simp
qed

end

section \<open>The account state cache as a book\<close>

definition book_of :: "('a, 'k) account_cache \<Rightarrow> 'a book" where
  "book_of c a = map_option (\<lambda>s. get_balance (Balances s)) (m_stateByAddress c a)"

text \<open>Every account is well-formed and became known no later than at the current height.\<close>

definition accounts_ok :: "height \<Rightarrow> ('a, 'k) account_cache \<Rightarrow> bool" where
  "accounts_ok h c \<longleftrightarrow> h \<noteq> 0 \<and> h \<noteq> - 1 \<and> finite (dom (m_stateByAddress c)) \<and>
     (\<forall>a s. m_stateByAddress c a = Some s \<longrightarrow>
        bal_inv (Balances s) \<and> m_accountState (Balances s) = Some (AddressHeight s) \<and> AddressHeight s \<le> h)"

text \<open>The cache without the balances: every account gets the balances of a new account.\<close>

definition fresh_of :: "('a, 'k) account_options \<Rightarrow> height \<Rightarrow> account_balances" where
  "fresh_of options h =
     (case res_bind (optimize (AccountBalances (Some h)) (CurrencyMosaicId options)) (\<lambda>b. track b (HarvestingMosaicId options)) of
        Inl _ \<Rightarrow> AccountBalances None | Inr b \<Rightarrow> b)"

definition strip_state :: "('a, 'k) account_options \<Rightarrow> ('a, 'k) account_state \<Rightarrow> ('a, 'k) account_state" where
  "strip_state options s = s\<lparr>Balances := fresh_of options (AddressHeight s)\<rparr>"

definition frame_of :: "('a, 'k) account_options \<Rightarrow> ('a, 'k) account_cache \<Rightarrow> ('a, 'k) account_cache" where
  "frame_of options c = c\<lparr>m_stateByAddress := (\<lambda>a. map_option (strip_state options) (m_stateByAddress c a))\<rparr>"

lemma frame_of_sel [simp]:
  "m_stateByAddress (frame_of options c) a = map_option (strip_state options) (m_stateByAddress c a)"
  "m_keyToAddress (frame_of options c) = m_keyToAddress c"
  "m_queuedRemoveByAddress (frame_of options c) = m_queuedRemoveByAddress c"
  "m_queuedRemoveByPublicKey (frame_of options c) = m_queuedRemoveByPublicKey c"
  by (simp_all add: frame_of_def)

lemma strip_state_sel [simp]:
  "Address (strip_state options s) = Address s" "AddressHeight (strip_state options s) = AddressHeight s"
  "PublicKey (strip_state options s) = PublicKey s" "PublicKeyHeight (strip_state options s) = PublicKeyHeight s"
  "AccountType (strip_state options s) = AccountType s" "LinkedAccountKey (strip_state options s) = LinkedAccountKey s"
  by (simp_all add: strip_state_def)

lemma frame_of_eqI:
  assumes "\<And>a. map_option (strip_state options) (m_stateByAddress c a) = map_option (strip_state options) (m_stateByAddress d a)"
    and "m_keyToAddress c = m_keyToAddress d" and "m_queuedRemoveByAddress c = m_queuedRemoveByAddress d"
    and "m_queuedRemoveByPublicKey c = m_queuedRemoveByPublicKey d"
  shows "frame_of options c = frame_of options d"
  using assms unfolding frame_of_def by (cases c; cases d) simp

text \<open>A change of balances that is described on the level of the book.\<close>

lemma update_balances_ok:
  assumes ok: "accounts_ok h c" and s: "m_stateByAddress c a = Some s" and f: "f (Balances s) = Inr b"
    and b: "bal_inv b" "m_accountState b = m_accountState (Balances s)"
  obtains c' where "update_balances a f c = Inr c'" "accounts_ok h c'" "frame_of options c' = frame_of options c"
    "book_of c' = (book_of c)(a \<mapsto> get_balance b)"
proof -
  define c' where "c' = c\<lparr>m_stateByAddress := (m_stateByAddress c)(a \<mapsto> s\<lparr>Balances := b\<rparr>)\<rparr>"
  have 1: "update_balances a f c = Inr c'" using s f by (simp add: update_balances_def get_account_def c'_def)
  have 2: "accounts_ok h c'" using ok s b by (auto simp: accounts_ok_def c'_def)
  have 3: "frame_of options c' = frame_of options c"
    by (rule frame_of_eqI) (auto simp: c'_def s strip_state_def)
  have 4: "book_of c' = (book_of c)(a \<mapsto> get_balance b)" by (auto simp: book_of_def c'_def)
  show thesis by (rule that [OF 1 2 3 4])
qed

lemma credit_account_ok:
  assumes ok: "accounts_ok h c" and a: "book_of c a = Some f" and m: "m \<noteq> 0"
  shows "\<exists>c'. credit_account h a m x c = Inr c' \<and> accounts_ok h c' \<and> frame_of options c' = frame_of options c \<and>
    book_of c' = book_in a m x (book_of c)"
proof -
  obtain s where s: "m_stateByAddress c a = Some s" "f = get_balance (Balances s)" using a by (auto simp: book_of_def)
  have inv: "bal_inv (Balances s)" "m_accountState (Balances s) = Some (AddressHeight s)" "op_ok (AddressHeight s) (Op_Credit m x h)"
    and h: "h \<noteq> 0" using ok s(1) m by (auto simp: accounts_ok_def)
  have run: "run_ok (Balances s) (Op_Credit m x h)" by (rule credit_run_ok [OF inv])
  then obtain b where b: "credit (Balances s) m x h = Inr b" "get_balance b = f(m := f m + x)"
    using h s(2) by (cases "credit (Balances s) m x h") (auto simp: run_ok_def)
  have "bal_inv b" "m_accountState b = m_accountState (Balances s)" using run b(1) by (auto simp: run_ok_def)
  then obtain c' where "update_balances a (\<lambda>b. credit b m x h) c = Inr c'" "accounts_ok h c'" "frame_of options c' = frame_of options c"
      "book_of c' = (book_of c)(a \<mapsto> get_balance b)"
    using update_balances_ok [where f = "\<lambda>b. credit b m x h" and options = options, OF ok s(1) b(1)] by metis
  then show ?thesis using a b(2) by (auto simp: credit_account_def book_in_def)
qed

lemma debit_account_cases:
  assumes ok: "accounts_ok h c" and a: "book_of c a = Some f"
  shows "x \<le> f m \<Longrightarrow> \<exists>c'. debit_account h a m x c = Inr c' \<and> accounts_ok h c' \<and> frame_of options c' = frame_of options c \<and>
      book_of c' = book_out a m x (book_of c)"
    and "f m < x \<Longrightarrow> \<exists>e. debit_account h a m x c = Inl e"
proof -
  obtain s where s: "m_stateByAddress c a = Some s" "f = get_balance (Balances s)" using a by (auto simp: book_of_def)
  have inv: "bal_inv (Balances s)" "m_accountState (Balances s) = Some (AddressHeight s)" "op_ok (AddressHeight s) (Op_Debit m x h)"
    and h: "h \<noteq> 0" using ok s(1) by (auto simp: accounts_ok_def)
  have run: "run_ok (Balances s) (Op_Debit m x h)" by (rule debit_run_ok [OF inv])
  show "\<exists>c'. debit_account h a m x c = Inr c' \<and> accounts_ok h c' \<and> frame_of options c' = frame_of options c \<and>
      book_of c' = book_out a m x (book_of c)" if le: "x \<le> f m"
  proof -
    have "\<not> get_balance (Balances s) m < x" using le s(2) by simp
    then obtain b where b: "debit (Balances s) m x h = Inr b" "get_balance b = f(m := f m - x)"
      using run h s(2) by (cases "debit (Balances s) m x h") (auto simp: run_ok_def)
    have "bal_inv b" "m_accountState b = m_accountState (Balances s)" using run b(1) by (auto simp: run_ok_def)
    then obtain c' where "update_balances a (\<lambda>b. debit b m x h) c = Inr c'" "accounts_ok h c'" "frame_of options c' = frame_of options c"
        "book_of c' = (book_of c)(a \<mapsto> get_balance b)"
      using update_balances_ok [where f = "\<lambda>b. debit b m x h" and options = options, OF ok s(1) b(1)] by metis
    then show ?thesis using a b(2) by (auto simp: debit_account_def book_out_def)
  qed
  show "\<exists>e. debit_account h a m x c = Inl e" if less: "f m < x"
  proof -
    obtain e where "debit (Balances s) m x h = Inl e"
      using run h s(2) less by (cases "debit (Balances s) m x h") (auto simp: run_ok_def)
    then show ?thesis using s(1) by (simp add: debit_account_def update_balances_def get_account_def)
  qed
qed

lemma account_unknown:
  assumes "book_of c a = None"
  shows "\<exists>e. credit_account h a m x c = Inl e" and "\<exists>e. debit_account h a m x c = Inl e"
  using assms by (auto simp: credit_account_def debit_account_def update_balances_def get_account_def book_of_def)

interpretation accounts: account_book book_of "accounts_ok h" "frame_of options" "credit_account h" "debit_account h"
  for h :: height and options :: "('a, 'k) account_options"
proof unfold_locales
  fix c :: "('a, 'k) account_cache"
  assume "accounts_ok h c"
  moreover have "dom (book_of c) = dom (m_stateByAddress c)" by (auto simp: book_of_def dom_def)
  ultimately show "finite (dom (book_of c))" by (simp add: accounts_ok_def)
qed (simp_all add: credit_account_ok debit_account_cases account_unknown)

end
