(* ===== verification/Core_Frames.thy ===== *)
theory Core_Frames
  imports Ledger
begin

text \<open>
  The part of the account state cache that payments leave alone: what a later cache keeps of an earlier one
  (\<open>frame_ext\<close>), the account that collects the fees of a harvester, and the split of the fees.
\<close>

section \<open>Frames\<close>

text \<open>Everything the observers look at besides balances is kept by \<open>d\<close>; it may know more accounts and keys.\<close>

definition state_ext :: "('a, 'k) account_state \<Rightarrow> ('a, 'k) account_state \<Rightarrow> bool" where
  "state_ext s s' \<longleftrightarrow> AccountType s' = AccountType s \<and> LinkedAccountKey s' = LinkedAccountKey s \<and>
     (PublicKeyHeight s \<noteq> 0 \<longrightarrow> PublicKeyHeight s' \<noteq> 0 \<and> PublicKey s' = PublicKey s)"

definition frame_ext :: "('a, 'k) account_cache \<Rightarrow> ('a, 'k) account_cache \<Rightarrow> bool" where
  "frame_ext c d \<longleftrightarrow> m_keyToAddress c \<subseteq>\<^sub>m m_keyToAddress d \<and>
     (\<forall>a s. m_stateByAddress c a = Some s \<longrightarrow> (\<exists>s'. m_stateByAddress d a = Some s' \<and> state_ext s s'))"

lemma state_ext_strip [simp]:
  "state_ext (strip_state options s) s' \<longleftrightarrow> state_ext s s'" "state_ext s (strip_state options s') \<longleftrightarrow> state_ext s s'"
  by (simp_all add: state_ext_def)

lemma frame_ext_frame [simp]:
  "frame_ext (frame_of options c) d \<longleftrightarrow> frame_ext c d" "frame_ext c (frame_of options d) \<longleftrightarrow> frame_ext c d"
  by (fastforce simp: frame_ext_def)+

lemma frame_ext_cong: "frame_of options c = frame_of options c' \<Longrightarrow> frame_of options d = frame_of options d' \<Longrightarrow> frame_ext c d \<longleftrightarrow> frame_ext c' d'"
  using frame_ext_frame by metis

lemma frame_ext_refl [simp]: "frame_ext c c"
  by (simp add: frame_ext_def state_ext_def)

lemma state_ext_trans: "state_ext s s' \<Longrightarrow> state_ext s' s'' \<Longrightarrow> state_ext s s''"
  by (simp add: state_ext_def)

lemma frame_ext_trans:
  assumes "frame_ext c d" and "frame_ext d e"
  shows "frame_ext c e"
  unfolding frame_ext_def
proof (intro conjI allI impI)
  show "m_keyToAddress c \<subseteq>\<^sub>m m_keyToAddress e" using assms map_le_trans by (auto simp: frame_ext_def)
  fix a s
  assume "m_stateByAddress c a = Some s"
  then obtain s' where "m_stateByAddress d a = Some s'" "state_ext s s'" using assms(1) by (auto simp: frame_ext_def)
  moreover then obtain s'' where "m_stateByAddress e a = Some s''" "state_ext s' s''" using assms(2) by (auto simp: frame_ext_def)
  ultimately show "\<exists>s''. m_stateByAddress e a = Some s'' \<and> state_ext s s''" using state_ext_trans by blast
qed

lemma map_option_quantifiers:
  "(\<forall>s. map_option g x = Some s \<longrightarrow> P s) \<longleftrightarrow> (\<forall>z. x = Some z \<longrightarrow> P (g z))"
  "(\<exists>s. map_option g x = Some s \<and> P s) \<longleftrightarrow> (\<exists>z. x = Some z \<and> P (g z))"
  by (cases x; simp)+

lemma cache_keys_ok_frame [simp]: "cache_keys_ok options (frame_of options' c) \<longleftrightarrow> cache_keys_ok options c"
  by (simp add: cache_keys_ok_def map_option_quantifiers del: map_option_eq_Some)

lemma cache_keys_ok_cong: "frame_of options c = frame_of options d \<Longrightarrow> cache_keys_ok options c \<longleftrightarrow> cache_keys_ok options d"
  using cache_keys_ok_frame by metis

lemma get_account_iff:
  "get_account (find_by_key k c) c = Inr (a, s) \<longleftrightarrow> m_keyToAddress c k = Some a \<and> m_stateByAddress c a = Some s"
  "get_account (Some b) c = Inr (a, s) \<longleftrightarrow> a = b \<and> m_stateByAddress c b = Some s"
  by (auto simp: get_account_def find_by_key_def contains_address_def split: option.splits)

lemma get_account_ext:
  assumes "get_account (find_by_key k c) c = Inr (a, s)" and "frame_ext c d"
  shows "\<exists>s'. get_account (find_by_key k d) d = Inr (a, s') \<and> state_ext s s'"
  using assms unfolding get_account_iff by (auto simp: frame_ext_def map_le_def dest!: bspec)

lemma book_of_iff: "book_of c a = Some f \<longleftrightarrow> (\<exists>s. m_stateByAddress c a = Some s \<and> f = get_balance (Balances s))"
  by (auto simp: book_of_def)

text \<open>The account that collects the fees for a key.\<close>

definition fee_account :: "('a, 'k) account_cache \<Rightarrow> 'k \<Rightarrow> 'a result" where
  "fee_account c publicKey =
     res_bind (get_account (find_by_key publicKey c) c) (\<lambda>(address, accountState).
     if Remote \<noteq> AccountType accountState then Inr address
     else
       res_bind (get_account (find_by_key (LinkedAccountKey accountState) c) c) (\<lambda>(linkedAddress, linkedAccountState).
       res_bind (RequireLinkedRemoteAndMainAccounts accountState linkedAccountState) (\<lambda>_. Inr linkedAddress)))"

lemma ApplyFee_account:
  "ApplyFee context mode k m x s = res_bind (fee_account (Accounts s) k) (\<lambda>a. ApplyFee_state a context mode m x s)"
proof (cases "get_account (find_by_key k (Accounts s)) (Accounts s)")
  case (Inr p)
  obtain a st where p: "p = (a, st)" by (cases p)
  show ?thesis
  proof (cases "get_account (find_by_key (LinkedAccountKey st) (Accounts s)) (Accounts s)")
    case Inl2: (Inl e)
    then show ?thesis by (simp add: ApplyFee_def fee_account_def Inr p)
  next
    case Inr2: (Inr q)
    obtain la ls where q: "q = (la, ls)" by (cases q)
    show ?thesis
      by (cases "RequireLinkedRemoteAndMainAccounts st ls") (simp_all add: ApplyFee_def fee_account_def Inr p Inr2 q)
  qed
qed (simp add: ApplyFee_def fee_account_def)

lemma RequireLinked_iff:
  "RequireLinkedRemoteAndMainAccounts r m = Inr u \<longleftrightarrow> AccountType r = Remote \<and> AccountType m = Main \<and> AreLinked m r"
  by (auto simp: RequireLinkedRemoteAndMainAccounts_def RequireAccountType_def res_bind_Inr_iff split: if_splits)

lemma fee_account_iff:
  "fee_account c k = Inr b \<longleftrightarrow> (\<exists>a s. get_account (find_by_key k c) c = Inr (a, s) \<and>
     (if AccountType s \<noteq> Remote then b = a
      else \<exists>m. get_account (find_by_key (LinkedAccountKey s) c) c = Inr (b, m) \<and> AccountType m = Main \<and> AreLinked m s))"
  by (auto simp: fee_account_def res_bind_Inr_iff RequireLinked_iff eq_commute [of Remote] split: if_splits)

lemma fee_account_ext:
  assumes fee: "fee_account c k = Inr b" and ok: "cache_keys_ok options c" and ext: "frame_ext c d"
  shows "fee_account d k = Inr b"
proof -
  obtain a s where s: "get_account (find_by_key k c) c = Inr (a, s)" and
    b: "if AccountType s \<noteq> Remote then b = a
      else \<exists>m. get_account (find_by_key (LinkedAccountKey s) c) c = Inr (b, m) \<and> AccountType m = Main \<and> AreLinked m s"
    using fee unfolding fee_account_iff by blast
  have height: "PublicKeyHeight s \<noteq> 0" if "get_account (find_by_key k c) c = Inr (a, s)" for k a s
    using that cache_keys_okD(4) [OF ok] unfolding get_account_iff by fastforce
  obtain s' where s': "get_account (find_by_key k d) d = Inr (a, s')" "state_ext s s'" using get_account_ext [OF s ext] by blast
  have same: "AccountType s' = AccountType s" "LinkedAccountKey s' = LinkedAccountKey s" "PublicKey s' = PublicKey s"
    using s'(2) height [OF s] by (simp_all add: state_ext_def)
  show ?thesis
  proof (cases "AccountType s = Remote")
    case False
    then show ?thesis using b s'(1) same unfolding fee_account_iff by auto
  next
    case True
    then obtain m where m: "get_account (find_by_key (LinkedAccountKey s) c) c = Inr (b, m)" "AccountType m = Main" "AreLinked m s"
      using b by auto
    obtain m' where m': "get_account (find_by_key (LinkedAccountKey s) d) d = Inr (b, m')" "state_ext m m'"
      using get_account_ext [OF m(1) ext] by blast
    have "AccountType m' = Main" "AreLinked m' s'"
      using m'(2) height [OF m(1)] m(2,3) same by (simp_all add: state_ext_def AreLinked_def)
    then show ?thesis using s'(1) m'(1) True same unfolding fee_account_iff by auto
  qed
qed

lemma fee_account_known: "fee_account c k = Inr b \<Longrightarrow> book_of c b \<noteq> None"
  unfolding fee_account_iff get_account_iff by (auto simp: book_of_def split: if_splits)

section \<open>Sharing the fees\<close>

lemma beneficiary_amount_le:
  assumes "HarvestBeneficiaryPercentage context \<le> 100"
  shows "beneficiary_amount context n t \<le> t"
proof -
  define p where "p = unat (HarvestBeneficiaryPercentage context)"
  have p: "p \<le> 100" using assms by (simp add: p_def word_le_nat_alt)
  have "unat (ucast (HarvestBeneficiaryPercentage context) :: u64) = p"
    using p by (simp add: p_def unsigned_ucast_eq take_bit_eq_mod)
  then have v: "unat (t * ucast (HarvestBeneficiaryPercentage context) div 100) = (unat t * p mod 2 ^ 64) div 100"
    by (simp add: unat_div unat_word_ariths)
  have "(unat t * p mod 2 ^ 64) div 100 \<le> unat t"
  proof (cases "unat t * p < 2 ^ 64")
    case True
    have "unat t * p \<le> unat t * 100" using p by simp
    then have "unat t * p div 100 \<le> unat t * 100 div 100" by (rule div_le_mono)
    then show ?thesis using True by simp
  next
    case False
    have "unat t * p \<le> 100 * unat t" using p by simp
    moreover have "unat t * p mod 2 ^ 64 < 2 ^ 64" by simp
    ultimately have "unat t * p mod 2 ^ 64 < 100 * unat t" using False by linarith
    then show ?thesis by (simp add: less_mult_imp_div_less mult.commute less_imp_le)
  qed
  then show ?thesis unfolding beneficiary_amount_def by (auto simp: word_le_nat_alt v)
qed

end
