(* ===== verification/Core_Registrations.thy ===== *)
theory Core_Registrations
  imports Core_Frames
begin

text \<open>
  Registrations and the book: adding accounts extends the book by empty accounts, and everything the cache does for
  registrations and removals commutes with forgetting the balances. Hence the rollback of registrations, shown for caches
  without payments, holds when payments happen in between.
\<close>

section \<open>New accounts\<close>

lemma fresh_of_new: "new_balances options h (fresh_of options h)"
proof -
  obtain b1 b where "optimize (AccountBalances (Some h)) (CurrencyMosaicId options) = Inr b1"
      "track b1 (HarvestingMosaicId options) = Inr b" "new_balances options h b"
    by (rule fresh_balances)
  then show ?thesis by (simp add: fresh_of_def)
qed

lemma addAccount_address_eq:
  "addAccount_address options a h c = Inr (if contains_address a c then c
     else c\<lparr>m_stateByAddress := (m_stateByAddress c)(a \<mapsto> strip_state options (AccountState (ZeroKey options) a h))\<rparr>)"
proof -
  obtain b1 b where "optimize (AccountBalances (Some h)) (CurrencyMosaicId options) = Inr b1"
      "track b1 (HarvestingMosaicId options) = Inr b" "new_balances options h b"
    by (rule fresh_balances)
  then show ?thesis
    by (simp add: addAccount_address_def addAccount_state_def AccountState_def Let_def strip_state_def fresh_of_def)
qed

text \<open>How the cache changes when accounts are registered at height \<open>h\<close>.\<close>

definition registers :: "('a, 'k) account_options \<Rightarrow> height \<Rightarrow> ('a, 'k) account_cache \<Rightarrow> ('a, 'k) account_cache \<Rightarrow> bool" where
  "registers options h c c' \<longleftrightarrow> frame_ext c c' \<and> cache_keys_ok options c' \<and>
     (\<exists>A. finite A \<and> dom (m_stateByAddress c') \<subseteq> dom (m_stateByAddress c) \<union> A) \<and>
     (\<forall>a s. m_stateByAddress c a = Some s \<longrightarrow> (\<exists>s'. m_stateByAddress c' a = Some s' \<and> Balances s' = Balances s \<and> AddressHeight s' = AddressHeight s)) \<and>
     (\<forall>a s'. m_stateByAddress c a = None \<longrightarrow> m_stateByAddress c' a = Some s' \<longrightarrow> AddressHeight s' = h \<and> new_balances options h (Balances s'))"

lemma registers_refl: "cache_keys_ok options c \<Longrightarrow> registers options h c c"
  by (auto simp: registers_def)

lemma registers_book:
  assumes "registers options h c c'"
  shows "book_ext (book_of c) (book_of c')"
  unfolding book_ext_def
proof
  fix a
  show "book_of c' a = book_of c a \<or> book_of c a = None \<and> book_of c' a = Some (\<lambda>_. 0)"
  proof (cases "m_stateByAddress c a")
    case (Some s)
    then obtain s' where "m_stateByAddress c' a = Some s'" "Balances s' = Balances s" using assms unfolding registers_def by blast
    then show ?thesis using Some by (simp add: book_of_def)
  next
    case None
    show ?thesis
    proof (cases "m_stateByAddress c' a")
      case (Some s')
      then have "get_balance (Balances s') = (\<lambda>_. 0)" using assms None unfolding registers_def new_balances_def by (intro ext) blast
      then show ?thesis using None Some by (simp add: book_of_def)
    qed (simp add: book_of_def None)
  qed
qed

lemma registers_accounts_ok:
  assumes reg: "registers options h c c'" and ok: "accounts_ok h c"
  shows "accounts_ok h c'"
proof -
  have "bal_inv (Balances s') \<and> m_accountState (Balances s') = Some (AddressHeight s') \<and> AddressHeight s' \<le> h"
    if s': "m_stateByAddress c' a = Some s'" for a s'
  proof (cases "m_stateByAddress c a")
    case (Some s)
    then obtain s'' where "m_stateByAddress c' a = Some s''" "Balances s'' = Balances s" "AddressHeight s'' = AddressHeight s"
      using reg unfolding registers_def by blast
    then show ?thesis using ok Some s' unfolding accounts_ok_def by auto
  next
    case None
    then have "AddressHeight s' = h" "new_balances options h (Balances s')" using reg s' unfolding registers_def by blast+
    then show ?thesis by (simp add: new_balances_def)
  qed
  moreover have "finite (dom (m_stateByAddress c'))"
    using reg ok unfolding registers_def accounts_ok_def by (meson finite_UnI finite_subset)
  ultimately show ?thesis using ok by (simp add: accounts_ok_def)
qed

lemma addAccount_address_registers:
  assumes ok: "cache_keys_ok options c" and add: "addAccount_address options a h c = Inr c'"
  shows "registers options h c c'"
proof (cases "contains_address a c")
  case True
  then show ?thesis using add ok registers_refl by (simp add: addAccount_address_eq)
next
  case False
  then have none: "m_stateByAddress c a = None" by (simp add: contains_address_def)
  have c': "c' = c\<lparr>m_stateByAddress := (m_stateByAddress c)(a \<mapsto> strip_state options (AccountState (ZeroKey options) a h))\<rparr>"
    using add False by (simp add: addAccount_address_eq)
  have "cache_keys_ok options c'"
    using ok none by (auto simp: cache_keys_ok_def c' AccountState_def)
  moreover have "frame_ext c c'" using none by (auto simp: frame_ext_def c' state_ext_def)
  moreover have "finite {a} \<and> dom (m_stateByAddress c') \<subseteq> dom (m_stateByAddress c) \<union> {a}" by (auto simp: c')
  ultimately show ?thesis
    using none fresh_of_new [of options h] unfolding registers_def
    by (auto simp: c' AccountState_def strip_state_def intro: exI [of _ "{a}"])
qed

lemma addAccount_key_registers:
  assumes ok: "cache_keys_ok options c" and h: "h \<noteq> 0" and nc: "no_collision options k c" and add: "addAccount_key options k h c = Inr c'"
  shows "registers options h c c'"
proof (cases "m_keyToAddress c k")
  case (Some a)
  then obtain s where s: "m_stateByAddress c a = Some s" "PublicKeyHeight s \<noteq> 0" using cache_keys_okD(4) [OF ok Some] by blast
  then have "c' = c"
    using add Some by (simp add: addAccount_key_def getAddress_def addAccount_address_def contains_address_def)
  then show ?thesis using ok registers_refl by simp
next
  case None
  define a where "a = PublicKeyToAddress options k"
  have none: "\<forall>s. m_stateByAddress c a = Some s \<longrightarrow> PublicKeyHeight s = 0"
  proof (intro allI impI)
    fix s
    assume s: "m_stateByAddress c a = Some s"
    then have "PublicKeyHeight s \<noteq> 0 \<longrightarrow> PublicKey s = k" using nc unfolding no_collision_def a_def by blast
    then show "PublicKeyHeight s = 0" using cache_keys_okD(3) [OF ok s] None by force
  qed
  obtain s where s: "m_stateByAddress c' = (m_stateByAddress c)(a \<mapsto> s\<lparr>PublicKey := k, PublicKeyHeight := h\<rparr>)"
      "m_keyToAddress c' = (m_keyToAddress c)(k \<mapsto> a)"
      "m_queuedRemoveByAddress c' = m_queuedRemoveByAddress c" "m_queuedRemoveByPublicKey c' = m_queuedRemoveByPublicKey c"
      "m_stateByAddress c a = Some s \<or> m_stateByAddress c a = None \<and> Address s = a \<and> AddressHeight s = h \<and> PublicKeyHeight s = 0 \<and>
        new_balances options h (Balances s)"
    by (rule addAccount_key_effect [OF None a_def none add])
  have addr: "Address s = a" using s(5) cache_keys_okD(1) [OF ok] by auto
  have keys: "cache_keys_ok options c'" by (rule keys_ok_set_key [OF ok h a_def [symmetric] addr None none s(1,2)])
  have frame: "frame_ext c c'"
    unfolding frame_ext_def
  proof (intro conjI allI impI)
    show "m_keyToAddress c \<subseteq>\<^sub>m m_keyToAddress c'" using None by (auto simp: map_le_def s(2))
    fix b t
    assume t: "m_stateByAddress c b = Some t"
    show "\<exists>s'. m_stateByAddress c' b = Some s' \<and> state_ext t s'"
    proof (cases "b = a")
      case True
      then have "t = s" "PublicKeyHeight t = 0" using t s(5) none by auto
      then show ?thesis using True by (simp add: s(1) state_ext_def)
    next
      case False
      then show ?thesis using t by (simp add: s(1) state_ext_def)
    qed
  qed
  have dom: "finite {a} \<and> dom (m_stateByAddress c') \<subseteq> dom (m_stateByAddress c) \<union> {a}" by (auto simp: s(1))
  have old: "\<exists>s'. m_stateByAddress c' b = Some s' \<and> Balances s' = Balances t \<and> AddressHeight s' = AddressHeight t"
    if "m_stateByAddress c b = Some t" for b t using that s(5) by (cases "b = a") (auto simp: s(1))
  have new: "AddressHeight s' = h \<and> new_balances options h (Balances s')"
    if "m_stateByAddress c b = None" "m_stateByAddress c' b = Some s'" for b s' using that s(5) by (cases "b = a") (auto simp: s(1))
  show ?thesis unfolding registers_def using keys frame dom old new by blast
qed

section \<open>Registrations commute with forgetting the balances\<close>

lemma frame_of_updates:
  "frame_of options (c\<lparr>m_keyToAddress := K\<rparr>) = (frame_of options c)\<lparr>m_keyToAddress := K\<rparr>"
  "frame_of options (c\<lparr>m_queuedRemoveByAddress := qa\<rparr>) = (frame_of options c)\<lparr>m_queuedRemoveByAddress := qa\<rparr>"
  "frame_of options (c\<lparr>m_queuedRemoveByPublicKey := qk\<rparr>) = (frame_of options c)\<lparr>m_queuedRemoveByPublicKey := qk\<rparr>"
  "frame_of options (c\<lparr>m_stateByAddress := (m_stateByAddress c)(a := x)\<rparr>) =
     (frame_of options c)\<lparr>m_stateByAddress := (m_stateByAddress (frame_of options c))(a := map_option (strip_state options) x)\<rparr>"
  "frame_of options (c\<lparr>m_keyToAddress := K, m_stateByAddress := (m_stateByAddress c)(a := x)\<rparr>) =
     (frame_of options c)\<lparr>m_keyToAddress := K,
       m_stateByAddress := (m_stateByAddress (frame_of options c))(a := map_option (strip_state options) x)\<rparr>"
  by (simp_all add: frame_of_def fun_eq_iff)

lemma strip_state_updates [simp]:
  "strip_state options (strip_state options s) = strip_state options s"
  "strip_state options (s\<lparr>PublicKey := k, PublicKeyHeight := h\<rparr>) = (strip_state options s)\<lparr>PublicKey := k, PublicKeyHeight := h\<rparr>"
  "strip_state options (s\<lparr>PublicKeyHeight := h, PublicKey := k\<rparr>) = (strip_state options s)\<lparr>PublicKeyHeight := h, PublicKey := k\<rparr>"
  by (simp_all add: strip_state_def)

lemma contains_address_frame [simp]: "contains_address a (frame_of options c) \<longleftrightarrow> contains_address a c"
  by (simp add: contains_address_def)

lemma addAccount_address_frame:
  "addAccount_address options a h (frame_of options c) = map_sum id (frame_of options) (addAccount_address options a h c)"
  by (simp add: addAccount_address_eq frame_of_updates)

lemma addAccount_key_frame:
  "addAccount_key options k h (frame_of options c) = map_sum id (frame_of options) (addAccount_key options k h c)"
proof -
  obtain a c1 where get: "getAddress options k c = (a, c1)" by (cases "getAddress options k c")
  have get': "getAddress options k (frame_of options c) = (a, frame_of options c1)"
    using get by (auto simp: getAddress_def Let_def frame_of_updates split: option.splits)
  obtain c2 where c2: "addAccount_address options a h c1 = Inr c2" by (simp add: addAccount_address_eq)
  have c2': "addAccount_address options a h (frame_of options c1) = Inr (frame_of options c2)"
    by (simp add: addAccount_address_frame c2)
  show ?thesis
    by (cases "m_stateByAddress c2 a") (simp_all add: addAccount_key_def get get' c2 c2' frame_of_updates)
qed

lemma AccountObserver_frame:
  "AccountObserver resolve options mode h n (frame_of options c) =
     map_sum id (frame_of options) (AccountObserver resolve options mode h n c)"
  by (simp add: AccountObserver_def addAccount_address_frame addAccount_key_frame queueRemove_address_def queueRemove_key_def
      frame_of_updates split: account_notification.split)

lemma remove_address_frame: "remove_address a h (frame_of options c) = frame_of options (remove_address a h c)"
  by (cases "m_stateByAddress c a") (simp_all add: remove_address_def Let_def frame_of_updates)

lemma remove_key_frame: "remove_key options k h (frame_of options c) = frame_of options (remove_key options k h c)"
proof -
  have find: "find_key k (frame_of options c) = map_option (strip_state options) (find_key k c)"
    by (simp add: find_key_def split: option.split)
  show ?thesis by (cases "find_key k c") (simp_all add: remove_key_def find Let_def frame_of_updates)
qed

lemma commitRemovals_frame: "commitRemovals options (frame_of options c) = frame_of options (commitRemovals options c)"
proof -
  have 1: "fold (\<lambda>(h, a). remove_address a h) q (frame_of options c) = frame_of options (fold (\<lambda>(h, a). remove_address a h) q c)" for q c
    by (induction q arbitrary: c) (auto simp: remove_address_frame)
  have 2: "fold (\<lambda>(h, k). remove_key options k h) q (frame_of options c) = frame_of options (fold (\<lambda>(h, k). remove_key options k h) q c)" for q c
    by (induction q arbitrary: c) (auto simp: remove_key_frame)
  show ?thesis by (simp add: commitRemovals_def Let_def 1 2 frame_of_updates)
qed

text \<open>Removals never change the balances of an account that stays.\<close>

definition keeps_balances :: "('a, 'k) account_cache \<Rightarrow> ('a, 'k) account_cache \<Rightarrow> bool" where
  "keeps_balances c c' \<longleftrightarrow> (\<forall>a s'. m_stateByAddress c' a = Some s' \<longrightarrow> (\<exists>s. m_stateByAddress c a = Some s \<and> Balances s' = Balances s))"

lemma keeps_balances_refl [simp]: "keeps_balances c c"
  by (simp add: keeps_balances_def)

lemma keeps_balances_trans: "keeps_balances c d \<Longrightarrow> keeps_balances d e \<Longrightarrow> keeps_balances c e"
  unfolding keeps_balances_def by metis

lemma remove_address_keeps: "keeps_balances c (remove_address a h c)"
  by (auto simp: keeps_balances_def remove_address_def Let_def split: option.splits if_splits)

lemma remove_key_keeps: "keeps_balances c (remove_key options k h c)"
proof (cases "find_key k c")
  case (Some s)
  then obtain a where "m_keyToAddress c k = Some a" "m_stateByAddress c a = Some s" by (auto simp: find_key_def split: option.splits)
  then show ?thesis using Some by (auto simp: keeps_balances_def remove_key_def Let_def split: if_splits)
qed (simp add: remove_key_def)

lemma commitRemovals_keeps: "keeps_balances c (commitRemovals options c)"
proof -
  have 1: "keeps_balances c (fold (\<lambda>(h, a). remove_address a h) q c)" for q c
    by (induction q arbitrary: c) (auto intro: keeps_balances_trans remove_address_keeps)
  have 2: "keeps_balances c (fold (\<lambda>(h, k). remove_key options k h) q c)" for q c
    by (induction q arbitrary: c) (auto intro: keeps_balances_trans remove_key_keeps)
  show ?thesis
    using keeps_balances_trans [OF 1 2, of c] by (simp add: commitRemovals_def Let_def keeps_balances_def)
qed

text \<open>
  Removing exactly what was registered leaves the book before the block: the accounts that stay are those of \<open>c\<close>, and
  their balances are the rolled back ones.
\<close>

lemma book_after_removals:
  assumes ext: "book_ext (book_of c) (book_of d)" and frame: "frame_of options (commitRemovals options d) = frame_of options c"
  shows "book_of (commitRemovals options d) = book_of c"
proof
  fix a
  have same: "map_option (strip_state options) (m_stateByAddress (commitRemovals options d) a) = map_option (strip_state options) (m_stateByAddress c a)"
    using arg_cong [OF frame, of "\<lambda>c. m_stateByAddress c a"] by simp
  show "book_of (commitRemovals options d) a = book_of c a"
  proof (cases "m_stateByAddress (commitRemovals options d) a")
    case None
    then show ?thesis using same by (simp add: book_of_def)
  next
    case (Some s')
    then obtain s where s: "m_stateByAddress d a = Some s" "Balances s' = Balances s"
      using commitRemovals_keeps [of d options] unfolding keeps_balances_def by blast
    have "book_of c a \<noteq> None" using same Some by (cases "m_stateByAddress c a") (auto simp: book_of_def)
    then have "book_of d a = book_of c a" using book_ext_Some [OF ext, of a] by auto
    then show ?thesis using Some s by (simp add: book_of_def)
  qed
qed

end
