(* ===== verification/Core_Payments.thy ===== *)
theory Core_Payments
  imports Core_Registrations
begin

text \<open>
  The observers that pay: transfers, debits, credits and the harvest fee. Each commit is described by a \<open>payment\<close>: the
  accounts stay well-formed, the frame stays, the supply of every mosaic changes by what is minted and burned, and the
  observer in rollback mode takes the payment back on every state that extends the one after it.
\<close>

section \<open>Payments\<close>

definition payment ::
  "('a, 'k) account_options \<Rightarrow> height \<Rightarrow> ('a, 'k) account_cache \<Rightarrow> ('a, 'k) account_cache \<Rightarrow>
   (('a, 'k) account_cache \<Rightarrow> ('a, 'k) account_cache result) \<Rightarrow> (mosaic_id \<Rightarrow> nat) \<Rightarrow> (mosaic_id \<Rightarrow> nat) \<Rightarrow> bool" where
  "payment options h c c' rollback burned minted \<longleftrightarrow>
     accounts_ok h c' \<and> frame_of options c' = frame_of options c \<and>
     (\<forall>m. mosaic_supply m (book_of c') + burned m = mosaic_supply m (book_of c) + minted m) \<and>
     (\<forall>t. accounts_ok h t \<longrightarrow> frame_ext c' t \<longrightarrow> book_ext (book_of c') (book_of t) \<longrightarrow>
        (\<exists>t'. rollback t = Inr t' \<and> accounts_ok h t' \<and> frame_of options t' = frame_of options t \<and> book_ext (book_of c) (book_of t')))"

lemma paymentI:
  assumes "accounts_ok h c'" and "frame_of options c' = frame_of options c"
    and "\<And>m. mosaic_supply m (book_of c') + burned m = mosaic_supply m (book_of c) + minted m"
    and "\<And>t. accounts_ok h t \<Longrightarrow> frame_ext c t \<Longrightarrow> book_ext (book_of c') (book_of t) \<Longrightarrow>
      \<exists>t'. rollback t = Inr t' \<and> accounts_ok h t' \<and> frame_of options t' = frame_of options t \<and> book_ext (book_of c) (book_of t')"
  shows "payment options h c c' rollback burned minted"
  unfolding payment_def using assms frame_ext_cong [OF assms(2) refl] by blast

definition context_ok :: "('a, 'k, 'u, 'x) core_context \<Rightarrow> bool" where
  "context_ok context \<longleftrightarrow> CurrencyMosaicId (Options context) \<noteq> 0 \<and> (\<forall>m. resolveMosaic context m \<noteq> 0) \<and>
     HarvestBeneficiaryPercentage context \<le> 100"

text \<open>What a notification mints and burns of a mosaic, as natural numbers.\<close>

fun minted :: "('a, 'k, 'u, 'x) core_context \<Rightarrow> ('k, 'u, 'x) notification \<Rightarrow> mosaic_id \<Rightarrow> nat" where
  "minted context (BalanceCreditNotification k mosaic x) m =
     (if m = resolveMosaic context mosaic then unat (resolveAmount context x) else 0)"
| "minted context (BlockNotification n) m =
     (if m = CurrencyMosaicId (Options context)
      then unat (TotalFee n) + unat (getSpotAmount (InflationCalculator context) (Height context)) else 0)"
| "minted context _ m = 0"

fun burned :: "('a, 'k, 'u, 'x) core_context \<Rightarrow> ('k, 'u, 'x) notification \<Rightarrow> mosaic_id \<Rightarrow> nat" where
  "burned context (BalanceDebitNotification k mosaic x) m =
     (if m = resolveMosaic context mosaic then unat (resolveAmount context x) else 0)"
| "burned context _ m = 0"

lemma supply_finite: "accounts_ok h c \<Longrightarrow> finite (dom (book_of c))"
  by (rule accounts.finite_book)

lemma credit_small:
  assumes "accounts_ok h c" and "book_of c a = Some f" and "mosaic_supply m (book_of c) + unat x < 2 ^ 64"
  shows "unat (f m) + unat x < 2 ^ 64"
  using balance_le_supply [OF supply_finite [OF assms(1)] assms(2), of m] assms(3) by simp

lemma BalanceTransfer_payment:
  assumes ok: "accounts_ok (Height context) c" and ctx: "context_ok context"
    and small: "mosaic_supply (resolveMosaic context mosaic) (book_of c) < 2 ^ 64"
    and run: "BalanceTransferObserver context Commit k u mosaic x c = Inr c'"
  shows "payment options (Height context) c c' (BalanceTransferObserver context Rollback k u mosaic x) (\<lambda>_. 0) (\<lambda>_. 0)"
proof -
  define m where "m = resolveMosaic context mosaic"
  define y where "y = resolveAmount context x"
  define b where "b = resolveAddress context u"
  have m: "m \<noteq> 0" using ctx by (simp add: context_ok_def m_def)
  obtain a s s' where acc: "get_account (find_by_key k c) c = Inr (a, s)" "get_account (Some b) c = Inr (b, s')"
      and tr: "res_bind (debit_account (Height context) a m y c) (credit_account (Height context) b m y) = Inr c'"
    using run by (auto simp: BalanceTransferObserver_def Transfer_def res_bind_Inr_iff Let_def get_account_iff(2) m_def y_def b_def)
  obtain f g where fg: "book_of c a = Some f" "book_of c b = Some g" "y \<le> f m" "accounts_ok (Height context) c'"
      "frame_of options c' = frame_of options c" "book_of c' = book_in b m y (book_out a m y (book_of c))"
    by (rule accounts.transferD [OF ok m tr])
  show ?thesis
  proof (rule paymentI [OF fg(4,5)])
    fix n
    show "mosaic_supply n (book_of c') + 0 = mosaic_supply n (book_of c) + 0"
      using accounts.transfer_supply(1) [OF ok fg(1-3)] small by (simp add: fg(6) m_def)
  next
    fix t
    assume t: "accounts_ok (Height context) t" "frame_ext c t" "book_ext (book_of c') (book_of t)"
    obtain st where a: "get_account (find_by_key k t) t = Inr (a, st)" using get_account_ext [OF acc(1) t(2)] by blast
    obtain st' where b: "get_account (Some b) t = Inr (b, st')"
      using acc(2) t(2) unfolding get_account_iff frame_ext_def by blast
    have "\<exists>t'. res_bind (debit_account (Height context) b m y t) (credit_account (Height context) a m y) = Inr t' \<and>
        accounts_ok (Height context) t' \<and> frame_of options t' = frame_of options t \<and> book_ext (book_of c) (book_of t')"
      using accounts.transfer_undone [OF ok fg(1-3) m _ t(1), of options] small t(3) by (simp add: fg(6) m_def)
    then show "\<exists>t'. BalanceTransferObserver context Rollback k u mosaic x t = Inr t' \<and> accounts_ok (Height context) t' \<and>
        frame_of options t' = frame_of options t \<and> book_ext (book_of c) (book_of t')"
      using b by (simp add: BalanceTransferObserver_def Transfer_def a Let_def m_def y_def b_def)
  qed
qed

lemma BalanceDebit_payment:
  assumes ok: "accounts_ok (Height context) c" and ctx: "context_ok context"
    and run: "BalanceDebitObserver context Commit k mosaic x c = Inr c'"
  shows "payment options (Height context) c c' (BalanceDebitObserver context Rollback k mosaic x)
    (burned context (BalanceDebitNotification k mosaic x)) (\<lambda>_. 0)"
proof -
  define m where "m = resolveMosaic context mosaic"
  define y where "y = resolveAmount context x"
  have m: "m \<noteq> 0" using ctx by (simp add: context_ok_def m_def)
  obtain a s where acc: "get_account (find_by_key k c) c = Inr (a, s)" and pay: "debit_account (Height context) a m y c = Inr c'"
    using run by (auto simp: BalanceDebitObserver_def res_bind_Inr_iff Let_def m_def y_def)
  obtain f where f: "book_of c a = Some f" "y \<le> f m" "accounts_ok (Height context) c'"
      "frame_of options c' = frame_of options c" "book_of c' = book_out a m y (book_of c)"
    by (rule accounts.pay_outD [OF ok pay])
  show ?thesis
  proof (rule paymentI [OF f(3,4)])
    fix n
    show "mosaic_supply n (book_of c') + burned context (BalanceDebitNotification k mosaic x) n = mosaic_supply n (book_of c) + 0"
      using supply_out [OF supply_finite [OF ok] f(1,2), of n] by (cases "n = m") (simp_all add: f(5) m_def y_def)
  next
    fix t
    assume t: "accounts_ok (Height context) t" "frame_ext c t" "book_ext (book_of c') (book_of t)"
    obtain st where a: "get_account (find_by_key k t) t = Inr (a, st)" using get_account_ext [OF acc t(2)] by blast
    have "\<exists>t'. credit_account (Height context) a m y t = Inr t' \<and> accounts_ok (Height context) t' \<and>
        frame_of options t' = frame_of options t \<and> book_ext (book_of c) (book_of t')"
      using accounts.pay_out_undone [where a = a and B = "book_of c" and f = f and m = m and x = y and options = options, OF t(1) _ f(1) m] t(3)
      by (simp add: f(5))
    then show "\<exists>t'. BalanceDebitObserver context Rollback k mosaic x t = Inr t' \<and> accounts_ok (Height context) t' \<and>
        frame_of options t' = frame_of options t \<and> book_ext (book_of c) (book_of t')"
      by (simp add: BalanceDebitObserver_def a Let_def m_def y_def)
  qed
qed

lemma BalanceCredit_payment:
  assumes ok: "accounts_ok (Height context) c" and ctx: "context_ok context"
    and small: "mosaic_supply (resolveMosaic context mosaic) (book_of c) + unat (resolveAmount context x) < 2 ^ 64"
    and run: "BalanceCreditObserver context Commit k mosaic x c = Inr c'"
  shows "payment options (Height context) c c' (BalanceCreditObserver context Rollback k mosaic x)
    (\<lambda>_. 0) (minted context (BalanceCreditNotification k mosaic x))"
proof -
  define m where "m = resolveMosaic context mosaic"
  define y where "y = resolveAmount context x"
  have m: "m \<noteq> 0" using ctx by (simp add: context_ok_def m_def)
  obtain a s where acc: "get_account (find_by_key k c) c = Inr (a, s)" and pay: "credit_account (Height context) a m y c = Inr c'"
    using run by (auto simp: BalanceCreditObserver_def res_bind_Inr_iff Let_def m_def y_def)
  obtain f where f: "book_of c a = Some f" "accounts_ok (Height context) c'"
      "frame_of options c' = frame_of options c" "book_of c' = book_in a m y (book_of c)"
    by (rule accounts.pay_inD [OF ok m pay])
  have fit: "unat (f m) + unat y < 2 ^ 64" using credit_small [OF ok f(1)] small by (simp add: m_def y_def)
  show ?thesis
  proof (rule paymentI [OF f(2,3)])
    fix n
    show "mosaic_supply n (book_of c') + 0 = mosaic_supply n (book_of c) + minted context (BalanceCreditNotification k mosaic x) n"
      using supply_in [OF supply_finite [OF ok] f(1) fit, of n] by (cases "n = m") (simp_all add: f(4) m_def y_def)
  next
    fix t
    assume t: "accounts_ok (Height context) t" "frame_ext c t" "book_ext (book_of c') (book_of t)"
    obtain st where a: "get_account (find_by_key k t) t = Inr (a, st)" using get_account_ext [OF acc t(2)] by blast
    have "\<exists>t'. debit_account (Height context) a m y t = Inr t' \<and> accounts_ok (Height context) t' \<and>
        frame_of options t' = frame_of options t \<and> book_ext (book_of c) (book_of t')"
      using accounts.pay_in_undone [where a = a and B = "book_of c" and f = f and m = m and x = y and options = options, OF t(1) _ f(1) fit] t(3)
      by (simp add: f(4))
    then show "\<exists>t'. BalanceCreditObserver context Rollback k mosaic x t = Inr t' \<and> accounts_ok (Height context) t' \<and>
        frame_of options t' = frame_of options t \<and> book_ext (book_of c) (book_of t')"
      by (simp add: BalanceCreditObserver_def a Let_def m_def y_def)
  qed
qed

section \<open>The harvest fee\<close>

definition fee_total :: "('a, 'k, 'u, 'x) core_context \<Rightarrow> 'k block_notification \<Rightarrow> amount" where
  "fee_total context n = TotalFee n + getSpotAmount (InflationCalculator context) (Height context)"

definition fee_parts :: "('a, 'k, 'u, 'x) core_context \<Rightarrow> 'k block_notification \<Rightarrow> amount \<times> amount" where
  "fee_parts context n =
     (let x = beneficiary_amount context n (fee_total context n) in (fee_total context n - x, x))"

text \<open>The fee on the level of the account state cache: \<open>pay\<close> is a credit or a debit.\<close>

definition pay_fee ::
  "('a \<Rightarrow> mosaic_id \<Rightarrow> amount \<Rightarrow> ('a, 'k) account_cache \<Rightarrow> ('a, 'k) account_cache result) \<Rightarrow> ('a, 'k, 'u, 'x) core_context \<Rightarrow>
   'k block_notification \<Rightarrow> ('a, 'k) account_cache \<Rightarrow> ('a, 'k) account_cache result" where
  "pay_fee pay context n c =
     (let m = CurrencyMosaicId (Options context); (x, y) = fee_parts context n in
      res_bind (fee_account c (Signer n)) (\<lambda>a.
      res_bind (pay a m x c) (\<lambda>c.
      if y = 0 then Inr c else res_bind (fee_account c (Beneficiary n)) (\<lambda>b. pay b m y c))))"

lemma ApplyFee_commit_accounts:
  assumes "ApplyFee context Commit k m x s = Inr s'"
  shows "res_bind (fee_account (Accounts s) k) (\<lambda>a. credit_account (Height context) a m x (Accounts s)) = Inr (Accounts s') \<and>
    NumTotalTransactions s' = NumTotalTransactions s"
  using assms unfolding ApplyFee_account ApplyFee_state_def by (auto simp: res_bind_Inr_iff on_accounts_def)

lemma ApplyFee_rollback:
  "ApplyFee context Rollback k m x s =
     on_accounts (\<lambda>c. res_bind (fee_account c k) (\<lambda>a. debit_account (Height context) a m x c)) s"
  unfolding ApplyFee_account ApplyFee_state_def on_accounts_def by (simp add: res_bind_assoc)

lemma HarvestFee_parts:
  assumes "fee_parts context n = (x, y)"
  shows "HarvestFeeObserver context mode n s =
    res_bind (ApplyFee context mode (Signer n) (CurrencyMosaicId (Options context)) x s) (\<lambda>s.
    res_bind (if 0 \<noteq> y then ApplyFee context mode (Beneficiary n) (CurrencyMosaicId (Options context)) y s else Inr s) (\<lambda>s.
      Inr (if 0 \<noteq> getSpotAmount (InflationCalculator context) (Height context) \<and> Commit = mode
        then s\<lparr>StatementBuilder := addTransactionReceipt (InflationReceipt Receipt_Type_Inflation (CurrencyMosaicId (Options context))
          (getSpotAmount (InflationCalculator context) (Height context))) (StatementBuilder s)\<rparr> else s)))"
proof -
  have y: "beneficiary_amount context n (fee_total context n) = y" and x: "fee_total context n - y = x"
    using assms by (auto simp: fee_parts_def Let_def)
  show ?thesis
    unfolding HarvestFeeObserver_def Let_def fee_total_def [symmetric] y x by (simp only: if_distrib [of Inr])
qed

lemma HarvestFee_commit_accounts:
  assumes "HarvestFeeObserver context Commit n s = Inr s'"
  shows "pay_fee (credit_account (Height context)) context n (Accounts s) = Inr (Accounts s') \<and>
    NumTotalTransactions s' = NumTotalTransactions s"
proof -
  define m where "m = CurrencyMosaicId (Options context)"
  obtain x y where xy: "fee_parts context n = (x, y)" by (cases "fee_parts context n")
  obtain s1 s2 where s1: "ApplyFee context Commit (Signer n) m x s = Inr s1"
      and s2: "(if 0 \<noteq> y then ApplyFee context Commit (Beneficiary n) m y s1 else Inr s1) = Inr s2"
      and s': "Accounts s' = Accounts s2" "NumTotalTransactions s' = NumTotalTransactions s2"
    using assms unfolding HarvestFee_parts [OF xy] res_bind_Inr_iff m_def by (elim exE conjE) (auto split: if_splits)
  have 1: "res_bind (fee_account (Accounts s) (Signer n)) (\<lambda>a. credit_account (Height context) a m x (Accounts s)) = Inr (Accounts s1)"
      "NumTotalTransactions s1 = NumTotalTransactions s"
    using ApplyFee_commit_accounts [OF s1] by simp_all
  show ?thesis
  proof (cases "y = 0")
    case True
    then show ?thesis using 1 s2 s' unfolding pay_fee_def xy m_def by (auto simp: res_bind_Inr_iff)
  next
    case False
    then have "res_bind (fee_account (Accounts s1) (Beneficiary n)) (\<lambda>a. credit_account (Height context) a m y (Accounts s1)) = Inr (Accounts s2)"
        "NumTotalTransactions s2 = NumTotalTransactions s1"
      using ApplyFee_commit_accounts [of "context" "Beneficiary n" m y s1 s2] s2 by simp_all
    then show ?thesis using 1 s' False unfolding pay_fee_def xy m_def by (auto simp: res_bind_Inr_iff)
  qed
qed

lemma HarvestFee_rollback:
  "HarvestFeeObserver context Rollback n s = on_accounts (pay_fee (debit_account (Height context)) context n) s"
proof -
  obtain x y where xy: "fee_parts context n = (x, y)" by (cases "fee_parts context n")
  have unit: "res_bind r Inr = r" for r :: "'c result" by (cases r) simp_all
  show ?thesis
    unfolding HarvestFee_parts [OF xy] ApplyFee_rollback pay_fee_def xy on_accounts_def Let_def prod.case
    by (cases "y = 0") (simp_all add: res_bind_assoc unit)
qed

lemma fee_parts_sum:
  assumes "context_ok context" and "fee_parts context n = (x, y)"
    and "unat (TotalFee n) + unat (getSpotAmount (InflationCalculator context) (Height context)) < 2 ^ 64"
  shows "unat x + unat y = unat (TotalFee n) + unat (getSpotAmount (InflationCalculator context) (Height context))"
proof -
  have y: "y \<le> fee_total context n" "x = fee_total context n - y"
    using assms(1,2) beneficiary_amount_le [of "context" n "fee_total context n"] by (auto simp: fee_parts_def Let_def context_ok_def)
  then have "unat x + unat y = unat (fee_total context n)" by (simp add: unat_sub word_le_nat_alt)
  then show ?thesis using unat_add_small [OF assms(3)] by (simp add: fee_total_def)
qed

text \<open>Two payments into the ledger, taken back in the same order.\<close>

lemma two_credits_undone:
  assumes ok: "accounts_ok h c" and a: "book_of c a = Some f" and b: "book_of c b = Some g"
    and small: "mosaic_supply m (book_of c) + unat x + unat y < 2 ^ 64"
    and t: "accounts_ok h t" "book_ext (book_in b m y (book_in a m x (book_of c))) (book_of t)"
  shows "\<exists>t1. debit_account h a m x t = Inr t1 \<and> frame_of options t1 = frame_of options t \<and>
    (\<exists>t'. debit_account h b m y t1 = Inr t' \<and> accounts_ok h t' \<and> frame_of options t' = frame_of options t \<and> book_ext (book_of c) (book_of t'))"
proof -
  let ?B = "book_in b m y (book_of c)"
  have fin: "finite (dom (book_of c))" by (rule supply_finite [OF ok])
  have gb: "unat (g m) + unat y < 2 ^ 64" using balance_le_supply [OF fin b, of m] small by simp
  obtain f' where f': "?B a = Some f'" using a by (metis book_None_iff(1) not_Some_eq)
  have "mosaic_supply m ?B = mosaic_supply m (book_of c) + unat y" using supply_in [OF fin b gb, of m] by simp
  then have fa: "unat (f' m) + unat x < 2 ^ 64" using balance_le_supply [of ?B a f' m] fin f' small by simp
  have ext: "book_ext (book_in a m x ?B) (book_of t)" using t(2) by (simp only: book_in_commute)
  obtain t1 where t1: "debit_account h a m x t = Inr t1" "accounts_ok h t1" "frame_of options t1 = frame_of options t"
      "book_ext ?B (book_of t1)"
    using accounts.pay_in_undone [where a = a and B = ?B and f = f' and m = m and x = x and options = options, OF t(1) ext f' fa] by blast
  show ?thesis
    using t1 accounts.pay_in_undone [where a = b and B = "book_of c" and f = g and m = m and x = y and options = options, OF t1(2,4) b gb]
    by auto
qed

lemma fee_account_frame:
  assumes "frame_of options c = frame_of options d" and "cache_keys_ok options c"
  shows "fee_account c k = Inr a \<longleftrightarrow> fee_account d k = Inr a"
proof -
  have "frame_ext c d \<longleftrightarrow> frame_ext d d" "frame_ext d c \<longleftrightarrow> frame_ext d d"
    by (rule frame_ext_cong [OF assms(1) refl], rule frame_ext_cong [OF refl assms(1)])
  then have ext: "frame_ext c d" "frame_ext d c" by simp_all
  have d: "cache_keys_ok options d" using cache_keys_ok_cong [OF assms(1)] assms(2) by simp
  show ?thesis using fee_account_ext [OF _ assms(2) ext(1)] fee_account_ext [OF _ d ext(2)] by (rule iffI)
qed

lemma pay_feeI:
  assumes "fee_parts context n = (x, y)" and "fee_account t (Signer n) = Inr a" and "pay a (CurrencyMosaicId (Options context)) x t = Inr t1"
    and "y = 0 \<and> t' = t1 \<or> y \<noteq> 0 \<and> fee_account t1 (Beneficiary n) = Inr b \<and> pay b (CurrencyMosaicId (Options context)) y t1 = Inr t'"
  shows "pay_fee pay context n t = Inr t'"
  unfolding pay_fee_def assms(1) Let_def prod.case assms(2) res_bind_simps assms(3) using assms(4) by auto

lemma fee_alone_payment:
  assumes ok: "accounts_ok (Height context) c" and keys: "cache_keys_ok (Options context) c" and xy: "fee_parts context n = (x, 0)"
    and m: "m = CurrencyMosaicId (Options context)" "m \<noteq> 0"
    and a: "fee_account c (Signer n) = Inr a" and pay: "credit_account (Height context) a m x c = Inr c'"
    and small: "mosaic_supply m (book_of c) + unat x < 2 ^ 64"
  shows "payment (Options context) (Height context) c c' (pay_fee (debit_account (Height context)) context n)
    (\<lambda>_. 0) (\<lambda>k. if k = m then unat x else 0)"
proof -
  let ?h = "Height context" and ?o = "Options context"
  obtain f where f: "book_of c a = Some f" "accounts_ok ?h c'" "frame_of ?o c' = frame_of ?o c" "book_of c' = book_in a m x (book_of c)"
    by (rule accounts.pay_inD [OF ok m(2) pay])
  have fit: "unat (f m) + unat x < 2 ^ 64" by (rule credit_small [OF ok f(1) small])
  show ?thesis
  proof (rule paymentI [OF f(2,3)])
    show "mosaic_supply k (book_of c') + 0 = mosaic_supply k (book_of c) + (if k = m then unat x else 0)" for k
      using supply_in [OF supply_finite [OF ok] f(1) fit, of k] by (simp add: f(4))
    fix t
    assume t: "accounts_ok ?h t" "frame_ext c t" "book_ext (book_of c') (book_of t)"
    obtain t' where t': "debit_account ?h a m x t = Inr t'" "accounts_ok ?h t'" "frame_of ?o t' = frame_of ?o t" "book_ext (book_of c) (book_of t')"
      using accounts.pay_in_undone [where a = a and B = "book_of c" and f = f and m = m and x = x and options = ?o, OF t(1) _ f(1) fit] t(3)
      unfolding f(4) by blast
    have "pay_fee (debit_account ?h) context n t = Inr t'"
      by (rule pay_feeI [where pay = "debit_account (Height context)", OF xy fee_account_ext [OF a keys t(2)] t'(1) [unfolded m(1)]]) simp
    then show "\<exists>t'. pay_fee (debit_account ?h) context n t = Inr t' \<and> accounts_ok ?h t' \<and> frame_of ?o t' = frame_of ?o t \<and>
        book_ext (book_of c) (book_of t')" using t'(2-4) by blast
  qed
qed

lemma fee_shared_payment:
  assumes ok: "accounts_ok (Height context) c" and keys: "cache_keys_ok (Options context) c" and xy: "fee_parts context n = (x, y)" "y \<noteq> 0"
    and m: "m = CurrencyMosaicId (Options context)" "m \<noteq> 0"
    and a: "fee_account c (Signer n) = Inr a" and pay: "credit_account (Height context) a m x c = Inr c1"
    and b1: "fee_account c1 (Beneficiary n) = Inr b" and pay2: "credit_account (Height context) b m y c1 = Inr c'"
    and small: "mosaic_supply m (book_of c) + unat x + unat y < 2 ^ 64"
  shows "payment (Options context) (Height context) c c' (pay_fee (debit_account (Height context)) context n)
    (\<lambda>_. 0) (\<lambda>k. if k = m then unat x + unat y else 0)"
proof -
  let ?h = "Height context" and ?o = "Options context"
  obtain f where f: "book_of c a = Some f" "accounts_ok ?h c1" "frame_of ?o c1 = frame_of ?o c" "book_of c1 = book_in a m x (book_of c)"
    by (rule accounts.pay_inD [OF ok m(2) pay])
  have fit: "unat (f m) + unat x < 2 ^ 64" by (rule credit_small [OF ok f(1)]) (use small in simp)
  have sup1: "mosaic_supply k (book_of c1) = mosaic_supply k (book_of c) + (if k = m then unat x else 0)" for k
    unfolding f(4) by (rule supply_in [OF supply_finite [OF ok] f(1) fit])
  have b: "fee_account c (Beneficiary n) = Inr b" using b1 fee_account_frame [OF f(3) [symmetric] keys] by blast
  obtain g1 where g1: "book_of c1 b = Some g1" "accounts_ok ?h c'" "frame_of ?o c' = frame_of ?o c1" "book_of c' = book_in b m y (book_of c1)"
    by (rule accounts.pay_inD [OF f(2) m(2) pay2])
  obtain g where g: "book_of c b = Some g" using fee_account_known [OF b] by blast
  have fit1: "unat (g1 m) + unat y < 2 ^ 64" by (rule credit_small [OF f(2) g1(1)]) (use small sup1 [of m] in simp)
  show ?thesis
  proof (rule paymentI [OF g1(2) trans [OF g1(3) f(3)]])
    show "mosaic_supply k (book_of c') + 0 = mosaic_supply k (book_of c) + (if k = m then unat x + unat y else 0)" for k
      using supply_in [OF supply_finite [OF f(2)] g1(1) fit1, of k] sup1 [of k] by (simp add: g1(4))
    fix t
    assume t: "accounts_ok ?h t" "frame_ext c t" "book_ext (book_of c') (book_of t)"
    have ext: "book_ext (book_in b m y (book_in a m x (book_of c))) (book_of t)" using t(3) unfolding g1(4) f(4) .
    obtain t1 t' where t1: "debit_account ?h a m x t = Inr t1" "frame_of ?o t1 = frame_of ?o t" "debit_account ?h b m y t1 = Inr t'"
        "accounts_ok ?h t'" "frame_of ?o t' = frame_of ?o t" "book_ext (book_of c) (book_of t')"
      using two_credits_undone [where options = ?o, OF ok f(1) g small t(1) ext] by blast
    have "fee_account t1 (Beneficiary n) = Inr b"
      by (rule fee_account_ext [OF b keys]) (use frame_ext_cong [OF refl t1(2)] t(2) in blast)
    then have "pay_fee (debit_account ?h) context n t = Inr t'"
      by (intro pay_feeI [where pay = "debit_account (Height context)", OF xy(1) fee_account_ext [OF a keys t(2)] t1(1) [unfolded m(1)]]) (use t1(3) xy(2) m(1) in simp)
    then show "\<exists>t'. pay_fee (debit_account ?h) context n t = Inr t' \<and> accounts_ok ?h t' \<and> frame_of ?o t' = frame_of ?o t \<and>
        book_ext (book_of c) (book_of t')" using t1(4-6) by blast
  qed
qed

lemma HarvestFee_payment:
  assumes ok: "accounts_ok (Height context) c" and keys: "cache_keys_ok (Options context) c" and ctx: "context_ok context"
    and small: "mosaic_supply (CurrencyMosaicId (Options context)) (book_of c) +
      minted context (BlockNotification n) (CurrencyMosaicId (Options context)) < 2 ^ 64"
    and run: "pay_fee (credit_account (Height context)) context n c = Inr c'"
  shows "payment (Options context) (Height context) c c' (pay_fee (debit_account (Height context)) context n)
    (\<lambda>_. 0) (minted context (BlockNotification n))"
proof -
  let ?h = "Height context"
  define m where "m = CurrencyMosaicId (Options context)"
  obtain x y where xy: "fee_parts context n = (x, y)" by (cases "fee_parts context n")
  have m: "m \<noteq> 0" using ctx by (simp add: context_ok_def m_def)
  have sum: "minted context (BlockNotification n) = (\<lambda>k. if k = m then unat x + unat y else 0)"
    using fee_parts_sum [OF ctx xy] small by (simp add: m_def fun_eq_iff)
  have small': "mosaic_supply m (book_of c) + unat x + unat y < 2 ^ 64" using small by (simp add: sum m_def del: minted.simps)
  obtain a c1 where a: "fee_account c (Signer n) = Inr a" and pay: "credit_account ?h a m x c = Inr c1"
      and rest: "(if y = 0 then Inr c1 else res_bind (fee_account c1 (Beneficiary n)) (\<lambda>b. credit_account ?h b m y c1)) = Inr c'"
    using run unfolding pay_fee_def xy Let_def prod.case m_def [symmetric] res_bind_Inr_iff by blast
  show ?thesis
  proof (cases "y = 0")
    case True
    show ?thesis using fee_alone_payment [OF ok keys _ m_def m a, of x] xy pay rest small' True unfolding sum True unsigned_0 add_0_right by simp
  next
    case False
    then obtain b where "fee_account c1 (Beneficiary n) = Inr b" "credit_account ?h b m y c1 = Inr c'"
      using rest by (auto simp: res_bind_Inr_iff)
    from fee_shared_payment [OF ok keys xy False m_def m a pay this small'] show ?thesis unfolding sum .
  qed
qed

end
