(* ===== verification/Core_Blocks.thy ===== *)
theory Core_Blocks
  imports Core_Payments
begin

text \<open>
  The core observers provide the contract \<open>undoable_observer\<close>; with the lemmas of that locale, blocks that were executed
  are rolled back to the balances, accounts and keys from before, and the supply of every mosaic follows what the
  notifications mint and burn.
\<close>

section \<open>The invariant of the core state\<close>

text \<open>\<open>S\<close> is a set of public keys with different addresses that holds all keys in use.\<close>

definition core_inv :: "('a, 'k, 'u, 'x) core_context \<Rightarrow> 'k set \<Rightarrow> ('a, 'k) core_state \<Rightarrow> bool" where
  "core_inv context S s \<longleftrightarrow> accounts_ok (Height context) (Accounts s) \<and> cache_keys_ok (Options context) (Accounts s) \<and>
     dom (m_keyToAddress (Accounts s)) \<subseteq> S"

definition core_ext :: "('a, 'k) core_state \<Rightarrow> ('a, 'k) core_state \<Rightarrow> bool" where
  "core_ext s t \<longleftrightarrow> book_ext (book_of (Accounts s)) (book_of (Accounts t)) \<and> frame_ext (Accounts s) (Accounts t) \<and>
     NumTotalTransactions t = NumTotalTransactions s"

fun registration :: "('k, 'u, 'x) notification \<Rightarrow> ('u, 'k) account_notification list" where
  "registration (RegisterAccountNotification n) = [n]"
| "registration _ = []"

definition core_fits :: "('a, 'k, 'u, 'x) core_context \<Rightarrow> 'k set \<Rightarrow> ('k, 'u, 'x) notification \<Rightarrow> ('a, 'k) core_state \<Rightarrow> bool" where
  "core_fits context S n s \<longleftrightarrow> (\<forall>m. mosaic_supply m (book_of (Accounts s)) + minted context n m < 2 ^ 64) \<and>
     notified_keys (registration n) \<subseteq> S"

text \<open>What one commit achieves.\<close>

definition core_step ::
  "('a, 'k, 'u, 'x) core_context \<Rightarrow> 'k set \<Rightarrow> (('a, 'k) core_state \<Rightarrow> ('a, 'k) core_state result) \<Rightarrow>
   (mosaic_id \<Rightarrow> nat) \<Rightarrow> (mosaic_id \<Rightarrow> nat) \<Rightarrow> ('a, 'k) core_state \<Rightarrow> ('a, 'k) core_state \<Rightarrow> bool" where
  "core_step context S rollback b mi s s' \<longleftrightarrow> core_inv context S s' \<and>
     (\<forall>m. mosaic_supply m (book_of (Accounts s')) + b m = mosaic_supply m (book_of (Accounts s)) + mi m) \<and>
     (\<forall>t. core_inv context S t \<longrightarrow> core_ext s' t \<longrightarrow> (\<exists>t'. rollback t = Inr t' \<and> core_inv context S t' \<and> core_ext s t'))"

lemma core_ext_refl: "core_ext s s"
  by (simp add: core_ext_def)

lemma core_step_refl: "core_inv context S s \<Longrightarrow> core_step context S Inr (\<lambda>_. 0) (\<lambda>_. 0) s s"
  by (simp add: core_step_def)

lemma supply_ext:
  assumes "book_ext B B'" and "finite (dom B')"
  shows "mosaic_supply m B' = mosaic_supply m B"
proof -
  have sub: "dom B \<subseteq> dom B'" using book_ext_Some [OF assms(1)] by blast
  have zero: "unat (the (B' a) m) = 0" if "a \<in> dom B' - dom B" for a
  proof -
    have "B a = None" "B' a \<noteq> None" using that by auto
    then have "B' a = Some (\<lambda>_. 0)" using assms(1) unfolding book_ext_def by metis
    then show ?thesis by simp
  qed
  have "mosaic_supply m B' = (\<Sum>a\<in>dom B. unat (the (B' a) m))"
    unfolding mosaic_supply_def using assms(2) sub zero by (intro sum.mono_neutral_right) auto
  also have "\<dots> = mosaic_supply m B"
    unfolding mosaic_supply_def using book_ext_Some [OF assms(1)] by (intro sum.cong) auto
  finally show ?thesis .
qed

lemma core_inv_frame:
  assumes "core_inv context S s" and "frame_of (Options context) (Accounts s') = frame_of (Options context) (Accounts s)"
    and "accounts_ok (Height context) (Accounts s')"
  shows "core_inv context S s'"
proof -
  have "m_keyToAddress (Accounts s') = m_keyToAddress (Accounts s)"
    using arg_cong [OF assms(2), of m_keyToAddress] by simp
  then show ?thesis using assms cache_keys_ok_cong [OF assms(2)] by (simp add: core_inv_def)
qed

lemma payment_step:
  assumes inv: "core_inv context S s" and pay: "payment (Options context) (Height context) (Accounts s) (Accounts s') rollback b mi"
    and num: "NumTotalTransactions s' = NumTotalTransactions s"
  shows "core_step context S (on_accounts rollback) b mi s s'"
proof -
  let ?o = "Options context"
  have frame: "frame_of ?o (Accounts s') = frame_of ?o (Accounts s)" and ok: "accounts_ok (Height context) (Accounts s')"
    and sup: "\<forall>m. mosaic_supply m (book_of (Accounts s')) + b m = mosaic_supply m (book_of (Accounts s)) + mi m"
    using pay by (simp_all add: payment_def)
  have "\<exists>t'. on_accounts rollback t = Inr t' \<and> core_inv context S t' \<and> core_ext s t'"
    if t: "core_inv context S t" "core_ext s' t" for t
  proof -
    obtain c where c: "rollback (Accounts t) = Inr c" "accounts_ok (Height context) c" "frame_of ?o c = frame_of ?o (Accounts t)"
        "book_ext (book_of (Accounts s)) (book_of c)"
      using pay t unfolding payment_def core_inv_def core_ext_def by blast
    have "frame_ext (Accounts s) c"
      using t(2) frame_ext_cong [OF frame c(3) [symmetric]] by (simp add: core_ext_def)
    then have "core_ext s (t\<lparr>Accounts := c\<rparr>)" using c(4) t(2) num by (simp add: core_ext_def)
    moreover have "core_inv context S (t\<lparr>Accounts := c\<rparr>)" by (rule core_inv_frame [OF t(1)]) (use c in simp_all)
    ultimately show ?thesis using c(1) by (simp add: on_accounts_def)
  qed
  then show ?thesis using core_inv_frame [OF inv frame ok] sup by (simp add: core_step_def)
qed

section \<open>Registrations\<close>

lemma no_collisionI:
  assumes ok: "cache_keys_ok options c" and "dom (m_keyToAddress c) \<subseteq> S" "inj_on (PublicKeyToAddress options) S" "k \<in> S"
  shows "no_collision options k c"
  unfolding no_collision_def
proof (intro allI impI)
  fix s
  assume s: "m_stateByAddress c (PublicKeyToAddress options k) = Some s" "PublicKeyHeight s \<noteq> 0"
  then have "PublicKeyToAddress options (PublicKey s) = PublicKeyToAddress options k" "PublicKey s \<in> S"
    using cache_keys_okD(3) [OF ok s] assms(2) by auto
  then show "PublicKey s = k" using inj_onD [OF assms(3)] assms(4) by blast
qed

lemma AccountObserver_registers:
  assumes ok: "cache_keys_ok options c" and S: "dom (m_keyToAddress c) \<subseteq> S" "inj_on (PublicKeyToAddress options) S" "notified_keys [n] \<subseteq> S"
    and h: "h \<noteq> 0" and run: "AccountObserver resolve options Commit h n c = Inr c'"
  shows "registers options h c c' \<and> dom (m_keyToAddress c') \<subseteq> S"
proof (cases n)
  case (AccountAddressNotification u)
  then have add: "addAccount_address options (resolve u) h c = Inr c'" using run by (simp add: AccountObserver_def)
  then have "m_keyToAddress c' = m_keyToAddress c" by (auto simp: addAccount_address_eq split: if_splits)
  then show ?thesis using addAccount_address_registers [OF ok add] S(1) by simp
next
  case (AccountPublicKeyNotification k)
  then have add: "addAccount_key options k h c = Inr c'" and k: "k \<in> S" using run S(3) by (simp_all add: AccountObserver_def)
  have "registering options S h {} {} c c"
    using ok S(1) by (simp add: registering_def block_of_def entry_of_block_def)
  then have "dom (m_keyToAddress c') \<subseteq> S" using register_key [OF _ h S(2) k, of "{}" "{}" c c] add by (auto simp: registering_def)
  then show ?thesis using addAccount_key_registers [OF ok h no_collisionI [OF ok S(1,2) k] add] by simp
qed

lemma registration_step:
  assumes inv: "core_inv context S s" and S: "inj_on (PublicKeyToAddress (Options context)) S" "notified_keys [n] \<subseteq> S"
    and run: "AccountObserver (resolveAddress context) (Options context) Commit (Height context) n (Accounts s) = Inr c'"
  shows "core_step context S (on_accounts (AccountObserver (resolveAddress context) (Options context) Rollback (Height context) n))
    (\<lambda>_. 0) (\<lambda>_. 0) s (s\<lparr>Accounts := c'\<rparr>)"
proof -
  have h: "Height context \<noteq> 0" using inv by (simp add: core_inv_def accounts_ok_def)
  have reg: "registers (Options context) (Height context) (Accounts s) c'" "dom (m_keyToAddress c') \<subseteq> S"
    using AccountObserver_registers [OF _ _ S h run] inv by (auto simp: core_inv_def)
  have ok: "accounts_ok (Height context) c'" using registers_accounts_ok [OF reg(1)] inv by (simp add: core_inv_def)
  have book: "book_ext (book_of (Accounts s)) (book_of c')" by (rule registers_book [OF reg(1)])
  have "\<exists>t'. on_accounts (AccountObserver (resolveAddress context) (Options context) Rollback (Height context) n) t = Inr t' \<and>
      core_inv context S t' \<and> core_ext s t'" if t: "core_inv context S t" "core_ext (s\<lparr>Accounts := c'\<rparr>) t" for t
  proof -
    obtain d where d: "AccountObserver (resolveAddress context) (Options context) Rollback (Height context) n (Accounts t) = Inr d"
        "m_stateByAddress d = m_stateByAddress (Accounts t)" "m_keyToAddress d = m_keyToAddress (Accounts t)"
      by (cases n) (auto simp: AccountObserver_def queueRemove_address_def queueRemove_key_def)
    have "core_inv context S (t\<lparr>Accounts := d\<rparr>)"
      using t(1) d(2,3) by (simp add: core_inv_def accounts_ok_def cache_keys_ok_def)
    moreover have "book_of d = book_of (Accounts t)" "frame_ext c' d \<longleftrightarrow> frame_ext c' (Accounts t)"
      by (rule ext, simp only: book_of_def d(2), simp only: frame_ext_def d(2,3))
    moreover have "frame_ext (Accounts s) c'" using reg(1) by (simp add: registers_def)
    ultimately have "core_ext s (t\<lparr>Accounts := d\<rparr>)"
      using t(2) book_ext_trans [OF book] frame_ext_trans by (auto simp: core_ext_def)
    then show ?thesis using d(1) \<open>core_inv context S (t\<lparr>Accounts := d\<rparr>)\<close> by (simp add: on_accounts_def)
  qed
  moreover have "mosaic_supply m (book_of c') = mosaic_supply m (book_of (Accounts s))" for m
    by (rule supply_ext [OF book supply_finite [OF ok]])
  ultimately show ?thesis using ok reg by (simp add: core_step_def core_inv_def registers_def)
qed

section \<open>Blocks\<close>

lemma cleanUp_keeps:
  assumes "accounts_ok h c"
  shows "accounts_ok h (cleanUp_account context a c) \<and> book_of (cleanUp_account context a c) = book_of c \<and>
    frame_of options (cleanUp_account context a c) = frame_of options c"
proof (cases "m_stateByAddress c a")
  case (Some s)
  define b where "b = maybeCleanUpSnapshots (Balances s) (Height context) (ImportanceGrouping context) (ucast (MaxRollbackBlocks context))"
  have c': "cleanUp_account context a c = c\<lparr>m_stateByAddress := (m_stateByAddress c)(a \<mapsto> s\<lparr>Balances := b\<rparr>)\<rparr>"
    by (simp add: cleanUp_account_def Some b_def)
  have s: "bal_inv (Balances s)" using assms Some unfolding accounts_ok_def by blast
  have b: "bal_inv b" "m_accountState b = m_accountState (Balances s)" "get_balance b = get_balance (Balances s)"
    unfolding b_def by (rule maybeCleanUpSnapshots_inv [OF s], simp, rule get_balance_cong, simp)
  have upd: "update_balances a (\<lambda>_. Inr b) c = Inr (cleanUp_account context a c)"
    by (simp add: update_balances_def get_account_def Some c')
  obtain d where d: "update_balances a (\<lambda>_. Inr b) c = Inr d" "accounts_ok h d" "frame_of options d = frame_of options c"
      "book_of d = (book_of c)(a \<mapsto> get_balance b)"
    by (rule update_balances_ok [where f = "\<lambda>_. Inr b" and options = options, OF assms Some refl b(1,2)])
  have "(book_of c)(a \<mapsto> get_balance b) = book_of c" using Some b(3) by (simp add: fun_eq_iff book_of_def)
  then show ?thesis using d upd by simp
qed (use assms in \<open>simp add: cleanUp_account_def\<close>)

lemma cleanUps_keep:
  assumes "accounts_ok h c"
  shows "accounts_ok h (fold (cleanUp_account context) as c) \<and> book_of (fold (cleanUp_account context) as c) = book_of c \<and>
    frame_of options (fold (cleanUp_account context) as c) = frame_of options c"
  using assms
proof (induction "as" arbitrary: c)
  case (Cons a "as")
  then show ?case using cleanUp_keeps [of h c "context" a options] by simp
qed simp

lemma res_bind_unit [simp]: "res_bind r Inr = r"
  by (cases r) simp_all

lemma res_fold_Nil_fun [simp]: "res_fold f [] = Inr"
  by (rule ext) simp

lemma block_observers:
  "core_observer context Commit (BlockNotification n) s =
     res_bind (HarvestFeeObserver context Commit n s) (\<lambda>s1. SnapshotCleanUpObserver context Commit
       (s1\<lparr>NumTotalTransactions := NumTotalTransactions s1 + ucast (NumTransactions n)\<rparr>))"
  "core_observer context Rollback (BlockNotification n) s =
     HarvestFeeObserver context Rollback n (s\<lparr>NumTotalTransactions := NumTotalTransactions s - ucast (NumTransactions n)\<rparr>)"
proof -
  show "core_observer context Commit (BlockNotification n) s =
     res_bind (HarvestFeeObserver context Commit n s) (\<lambda>s1. SnapshotCleanUpObserver context Commit
       (s1\<lparr>NumTotalTransactions := NumTotalTransactions s1 + ucast (NumTransactions n)\<rparr>))"
    by (cases "HarvestFeeObserver context Commit n s")
      (simp_all add: core_observer_def aggregate_notify_def TotalTransactionsObserver_def)
  show "core_observer context Rollback (BlockNotification n) s =
     HarvestFeeObserver context Rollback n (s\<lparr>NumTotalTransactions := NumTotalTransactions s - ucast (NumTransactions n)\<rparr>)"
    by (simp add: core_observer_def aggregate_notify_def TotalTransactionsObserver_def SnapshotCleanUpObserver_def)
qed

lemma block_step:
  assumes inv: "core_inv context S s" and ctx: "context_ok context" and fits: "core_fits context S (BlockNotification n) s"
    and run: "core_observer context Commit (BlockNotification n) s = Inr s'"
  shows "core_step context S (core_observer context Rollback (BlockNotification n)) (\<lambda>_. 0) (minted context (BlockNotification n)) s s'"
proof -
  let ?o = "Options context" and ?h = "Height context"
  obtain s1 where s1: "HarvestFeeObserver context Commit n s = Inr s1"
      and s': "SnapshotCleanUpObserver context Commit (s1\<lparr>NumTotalTransactions := NumTotalTransactions s1 + ucast (NumTransactions n)\<rparr>) = Inr s'"
    using run unfolding block_observers res_bind_Inr_iff by blast
  have pay: "pay_fee (credit_account ?h) context n (Accounts s) = Inr (Accounts s1)" and num1: "NumTotalTransactions s1 = NumTotalTransactions s"
    using HarvestFee_commit_accounts [OF s1] by simp_all
  have payment: "payment ?o ?h (Accounts s) (Accounts s1) (pay_fee (debit_account ?h) context n) (\<lambda>_. 0) (minted context (BlockNotification n))"
    by (rule HarvestFee_payment [OF _ _ ctx _ pay]) (use inv fits in \<open>simp_all add: core_inv_def core_fits_def del: minted.simps\<close>)
  have step: "core_step context S (on_accounts (pay_fee (debit_account ?h) context n)) (\<lambda>_. 0) (minted context (BlockNotification n)) s s1"
    by (rule payment_step [OF inv payment num1])
  have ok1: "accounts_ok ?h (Accounts s1)" using step by (simp add: core_step_def core_inv_def)
  have keep: "accounts_ok ?h (Accounts s')" "book_of (Accounts s') = book_of (Accounts s1)" "frame_of ?o (Accounts s') = frame_of ?o (Accounts s1)"
      "NumTotalTransactions s' = NumTotalTransactions s1 + ucast (NumTransactions n)"
    using s' cleanUps_keep [OF ok1, of "context" "updatedAddresses context" ?o] ok1 by (auto simp: SnapshotCleanUpObserver_def split: if_splits)
  have inv': "core_inv context S s'" using core_inv_frame [OF _ keep(3,1)] step by (simp add: core_step_def)
  have "\<exists>t'. core_observer context Rollback (BlockNotification n) t = Inr t' \<and> core_inv context S t' \<and> core_ext s t'"
    if t: "core_inv context S t" "core_ext s' t" for t
  proof -
    define u where "u = t\<lparr>NumTotalTransactions := NumTotalTransactions t - ucast (NumTransactions n)\<rparr>"
    have "core_inv context S u" using t(1) by (simp add: core_inv_def u_def)
    moreover have "core_ext s1 u" using t(2) keep frame_ext_cong [OF keep(3) refl, of "Accounts t"] by (simp add: core_ext_def u_def)
    ultimately show ?thesis using step unfolding core_step_def block_observers HarvestFee_rollback u_def by blast
  qed
  then show ?thesis using inv' step by (simp add: core_step_def keep(2))
qed

lemma single_observer:
  assumes "core_observers context n = [ob]"
  shows "core_observer context mode n = ob mode"
  by (rule ext) (simp add: core_observer_def aggregate_notify_def assms Let_def)

lemma no_observer:
  assumes "core_observers context n = []"
  shows "core_observer context mode n = Inr"
  by (rule ext) (simp add: core_observer_def aggregate_notify_def assms Let_def)

lemma payment_observer_step:
  assumes inv: "core_inv context S s" and obs: "core_observers context n = [\<lambda>mode. on_accounts (ob mode)]"
    and run: "core_observer context Commit n s = Inr s'"
    and pay: "\<And>c'. ob Commit (Accounts s) = Inr c' \<Longrightarrow> payment (Options context) (Height context) (Accounts s) c' (ob Rollback) b mi"
  shows "core_step context S (core_observer context Rollback n) b mi s s'"
proof -
  obtain c' where c': "ob Commit (Accounts s) = Inr c'" "s' = s\<lparr>Accounts := c'\<rparr>"
    using run by (auto simp: single_observer [OF obs] on_accounts_def res_bind_Inr_iff)
  show ?thesis unfolding single_observer [OF obs] by (rule payment_step [OF inv]) (use pay [OF c'(1)] c'(2) in simp_all)
qed

lemma unchanged_step:
  assumes inv: "core_inv context S s" and same: "Accounts s' = Accounts s" "NumTotalTransactions s' = NumTotalTransactions s"
    and rollback: "core_observer context Rollback n = Inr"
  shows "core_step context S (core_observer context Rollback n) (\<lambda>_. 0) (\<lambda>_. 0) s s'"
  using assms by (simp add: core_step_def core_inv_def core_ext_def)

lemma core_commit_step:
  assumes inv: "core_inv context S s" and ctx: "context_ok context" and S: "inj_on (PublicKeyToAddress (Options context)) S"
    and fits: "core_fits context S n s" and run: "core_observer context Commit n s = Inr s'"
  shows "core_step context S (core_observer context Rollback n) (burned context n) (minted context n) s s'"
proof -
  have ok: "accounts_ok (Height context) (Accounts s)" using inv by (simp add: core_inv_def)
  have small: "mosaic_supply m (book_of (Accounts s)) + minted context n m < 2 ^ 64" for m using fits by (simp add: core_fits_def)
  have idle: ?thesis if "core_observers context n = []" "burned context n = (\<lambda>_. 0)" "minted context n = (\<lambda>_. 0)"
    using unchanged_step [OF inv, of s' n] no_observer [OF that(1)] run that(2,3) by simp
  show ?thesis
  proof (cases n)
    case (RegisterAccountNotification r)
    have obs: "core_observers context n = [\<lambda>mode. on_accounts (AccountObserver (resolveAddress context) (Options context) mode (Height context) r)]"
      by (simp add: RegisterAccountNotification)
    obtain c' where c': "AccountObserver (resolveAddress context) (Options context) Commit (Height context) r (Accounts s) = Inr c'"
        "s' = s\<lparr>Accounts := c'\<rparr>"
      using run by (auto simp: single_observer [OF obs] on_accounts_def res_bind_Inr_iff)
    have "burned context n = (\<lambda>_. 0)" "minted context n = (\<lambda>_. 0)" "notified_keys [r] \<subseteq> S"
      using fits by (simp_all add: RegisterAccountNotification fun_eq_iff core_fits_def)
    then show ?thesis using registration_step [OF inv S _ c'(1)] c'(2) by (simp add: single_observer [OF obs])
  next
    case (BalanceTransferNotification k u mosaic x)
    have "burned context n = (\<lambda>_. 0)" "minted context n = (\<lambda>_. 0)" by (simp_all add: BalanceTransferNotification fun_eq_iff)
    then show ?thesis
      using payment_observer_step [OF inv _ run, of "\<lambda>mode. BalanceTransferObserver context mode k u mosaic x"]
        BalanceTransfer_payment [OF ok ctx, of mosaic k u x] small [of "resolveMosaic context mosaic"]
      by (simp add: BalanceTransferNotification)
  next
    case (BalanceDebitNotification k mosaic x)
    have "minted context n = (\<lambda>_. 0)" by (simp add: BalanceDebitNotification fun_eq_iff)
    then show ?thesis
      using payment_observer_step [OF inv _ run, of "\<lambda>mode. BalanceDebitObserver context mode k mosaic x"]
        BalanceDebit_payment [OF ok ctx, of k mosaic x]
      by (simp add: BalanceDebitNotification)
  next
    case (BalanceCreditNotification k mosaic x)
    have "burned context n = (\<lambda>_. 0)" by (simp add: BalanceCreditNotification fun_eq_iff)
    then show ?thesis
      using payment_observer_step [OF inv _ run, of "\<lambda>mode. BalanceCreditObserver context mode k mosaic x"]
        BalanceCredit_payment [OF ok ctx, of mosaic x k] small [of "resolveMosaic context mosaic"]
      by (simp add: BalanceCreditNotification)
  next
    case (BlockNotification b)
    have "burned context n = (\<lambda>_. 0)" by (simp add: BlockNotification fun_eq_iff)
    then show ?thesis using block_step [OF inv ctx] fits run unfolding BlockNotification by metis
  next
    case (SourceChangeNotification pt p st q)
    have obs: "core_observers context n = [\<lambda>mode. SourceChangeObserver mode pt p st q]" by (simp add: SourceChangeNotification)
    have "core_observer context Rollback n = Inr" by (rule ext) (simp add: single_observer [OF obs] SourceChangeObserver_def)
    moreover have "burned context n = (\<lambda>_. 0)" "minted context n = (\<lambda>_. 0)" by (simp_all add: SourceChangeNotification fun_eq_iff)
    ultimately show ?thesis
      using unchanged_step [OF inv, of s' n] run by (auto simp: single_observer [OF obs] SourceChangeObserver_def Let_def)
  qed (rule idle; simp add: fun_eq_iff)+
qed

definition core_ready :: "('a, 'k, 'u, 'x) core_context \<Rightarrow> 'k set \<Rightarrow> ('a, 'k) core_state \<Rightarrow> bool" where
  "core_ready context S s \<longleftrightarrow> context_ok context \<and> inj_on (PublicKeyToAddress (Options context)) S \<and> core_inv context S s"

interpretation core: undoable_observer "core_observer context" "core_ready context S" core_ext "core_fits context S"
  for "context" :: "('a, 'k, 'u, 'x) core_context" and S :: "'k set"
proof unfold_locales
  fix s s' t :: "('a, 'k) core_state" and n
  assume ready: "core_ready context S s" and fits: "core_fits context S n s" and run: "core_observer context Commit n s = Inr s'"
  have step: "core_step context S (core_observer context Rollback n) (burned context n) (minted context n) s s'"
    using core_commit_step [OF _ _ _ fits run] ready by (simp add: core_ready_def)
  show "core_ready context S s'" using step ready by (simp add: core_step_def core_ready_def)
  assume "core_ready context S t" "core_ext s' t"
  then show "\<exists>t'. core_observer context Rollback n t = Inr t' \<and> core_ready context S t' \<and> core_ext s t'"
    using step unfolding core_step_def core_ready_def by blast
qed (rule core_ext_refl)

section \<open>Runs of notifications\<close>

definition total_minted :: "('a, 'k, 'u, 'x) core_context \<Rightarrow> ('k, 'u, 'x) notification list \<Rightarrow> mosaic_id \<Rightarrow> nat" where
  "total_minted context ns m = (\<Sum>n\<leftarrow>ns. minted context n m)"

definition total_burned :: "('a, 'k, 'u, 'x) core_context \<Rightarrow> ('k, 'u, 'x) notification list \<Rightarrow> mosaic_id \<Rightarrow> nat" where
  "total_burned context ns m = (\<Sum>n\<leftarrow>ns. burned context n m)"

definition registrations :: "('k, 'u, 'x) notification list \<Rightarrow> ('u, 'k) account_notification list" where
  "registrations ns = concat (map registration ns)"

lemma core_fits_head:
  assumes "\<forall>m. mosaic_supply m (book_of (Accounts s)) + total_minted context (n # ns) m < 2 ^ 64"
    and "notified_keys (registrations (n # ns)) \<subseteq> S"
  shows "core_fits context S n s" and "notified_keys (registration n) \<subseteq> S" and "notified_keys (registrations ns) \<subseteq> S"
proof -
  have "mosaic_supply m (book_of (Accounts s)) + minted context n m < 2 ^ 64" for m
    using spec [OF assms(1), of m] by (simp add: total_minted_def)
  then show "core_fits context S n s" "notified_keys (registration n) \<subseteq> S" "notified_keys (registrations ns) \<subseteq> S"
    using assms(2) by (simp_all add: core_fits_def registrations_def notified_append)
qed

lemma supply_later:
  assumes ready: "core_ready context S s" and fits: "core_fits context S n s" and run: "core_observer context Commit n s = Inr s1"
    and small: "\<forall>m. mosaic_supply m (book_of (Accounts s)) + total_minted context (n # ns) m < 2 ^ 64"
  shows "\<forall>m. mosaic_supply m (book_of (Accounts s1)) + total_minted context ns m < 2 ^ 64"
proof
  fix m
  have "mosaic_supply m (book_of (Accounts s1)) + burned context n m = mosaic_supply m (book_of (Accounts s)) + minted context n m"
    using core_commit_step [OF _ _ _ fits run] ready by (simp add: core_ready_def core_step_def)
  moreover have "mosaic_supply m (book_of (Accounts s)) + (minted context n m + total_minted context ns m) < 2 ^ 64"
    using small by (simp add: total_minted_def)
  ultimately show "mosaic_supply m (book_of (Accounts s1)) + total_minted context ns m < 2 ^ 64" by linarith
qed

lemma run_in_bounds:
  assumes "core_ready context S s" and "\<forall>m. mosaic_supply m (book_of (Accounts s)) + total_minted context ns m < 2 ^ 64"
    and "notified_keys (registrations ns) \<subseteq> S"
  shows "run_fits (core_observer context Commit) (core_fits context S) ns s \<and>
    (\<forall>s'. res_fold (core_observer context Commit) ns s = Inr s' \<longrightarrow> core_ready context S s' \<and>
      (\<forall>m. mosaic_supply m (book_of (Accounts s')) + total_burned context ns m =
        mosaic_supply m (book_of (Accounts s)) + total_minted context ns m))"
  using assms
proof (induction ns arbitrary: s)
  case (Cons n ns)
  note fits = core_fits_head(1) [OF Cons.prems(2,3)]
  have later: "core_ready context S s1 \<and>
      (\<forall>m. mosaic_supply m (book_of (Accounts s1)) + burned context n m = mosaic_supply m (book_of (Accounts s)) + minted context n m)"
    if run: "core_observer context Commit n s = Inr s1" for s1
    using core_commit_step [OF _ _ _ fits run] Cons.prems(1) by (simp add: core_ready_def core_step_def)
  have bound: "\<forall>m. mosaic_supply m (book_of (Accounts s1)) + total_minted context ns m < 2 ^ 64"
    if run: "core_observer context Commit n s = Inr s1" for s1
    by (rule supply_later [OF Cons.prems(1) fits run Cons.prems(2)])
  note IH = Cons.IH [OF conjunct1 [OF later] bound core_fits_head(3) [OF Cons.prems(2,3)]]
  show ?case
  proof (intro conjI allI impI)
    show "run_fits (core_observer context Commit) (core_fits context S) (n # ns) s" using fits IH by simp
    fix s'
    assume "res_fold (core_observer context Commit) (n # ns) s = Inr s'"
    then obtain s1 where s1: "core_observer context Commit n s = Inr s1" "res_fold (core_observer context Commit) ns s1 = Inr s'"
      by (auto simp: res_bind_Inr_iff)
    show "core_ready context S s'" using IH [OF s1(1) s1(1)] s1(2) by blast
    fix m
    have "mosaic_supply m (book_of (Accounts s')) + total_burned context ns m =
        mosaic_supply m (book_of (Accounts s1)) + total_minted context ns m" using IH [OF s1(1) s1(1)] s1(2) by blast
    moreover have "mosaic_supply m (book_of (Accounts s1)) + burned context n m = mosaic_supply m (book_of (Accounts s)) + minted context n m"
      using later [OF s1(1)] by blast
    ultimately show "mosaic_supply m (book_of (Accounts s')) + total_burned context (n # ns) m =
        mosaic_supply m (book_of (Accounts s)) + total_minted context (n # ns) m"
      by (simp add: total_minted_def total_burned_def)
  qed
qed (simp add: total_minted_def total_burned_def)

section \<open>Only registrations change the frame\<close>

lemma update_balances_frame: "update_balances a f c = Inr c' \<Longrightarrow> frame_of options c' = frame_of options c"
  by (auto simp: update_balances_def get_account_def res_bind_Inr_iff strip_state_def split: option.splits intro!: frame_of_eqI)

lemmas payment_frame = update_balances_frame [where f = "\<lambda>b. credit b m x h" for m x h, folded credit_account_def]
  update_balances_frame [where f = "\<lambda>b. debit b m x h" for m x h, folded debit_account_def]

lemma pay_fee_frame:
  assumes "pay_fee pay context n c = Inr c'"
    and "\<And>a m x c c'. pay a m x c = Inr c' \<Longrightarrow> frame_of options c' = frame_of options c"
  shows "frame_of options c' = frame_of options c"
proof -
  obtain x y where xy: "fee_parts context n = (x, y)" by (cases "fee_parts context n")
  obtain a c1 where c1: "pay a (CurrencyMosaicId (Options context)) x c = Inr c1"
      "(if y = 0 then Inr c1 else res_bind (fee_account c1 (Beneficiary n)) (\<lambda>b. pay b (CurrencyMosaicId (Options context)) y c1)) = Inr c'"
    using assms(1) unfolding pay_fee_def xy Let_def prod.case res_bind_Inr_iff by blast
  have "frame_of options c' = frame_of options c1"
    using c1(2) assms(2) by (cases "y = 0") (auto simp: res_bind_Inr_iff)
  then show ?thesis using assms(2) [OF c1(1)] by simp
qed

lemma cleanUps_frame: "frame_of options (fold (cleanUp_account context) as c) = frame_of options c"
proof -
  have "frame_of options (cleanUp_account context a c) = frame_of options c" for a c
    by (rule frame_of_eqI) (auto simp: cleanUp_account_def strip_state_def split: option.split)
  then show ?thesis by (induction "as" arbitrary: c) simp_all
qed

lemma block_observer_frame:
  assumes "core_observer context mode (BlockNotification b) s = Inr s'"
  shows "frame_of (Options context) (Accounts s') = frame_of (Options context) (Accounts s)"
proof (cases mode)
  case Commit
  then obtain s1 where s1: "HarvestFeeObserver context Commit b s = Inr s1"
      and s': "SnapshotCleanUpObserver context Commit (s1\<lparr>NumTotalTransactions := NumTotalTransactions s1 + ucast (NumTransactions b)\<rparr>) = Inr s'"
    using assms unfolding Commit block_observers res_bind_Inr_iff by blast
  have "frame_of (Options context) (Accounts s1) = frame_of (Options context) (Accounts s)"
    by (rule pay_fee_frame [OF conjunct1 [OF HarvestFee_commit_accounts [OF s1]]]) (rule payment_frame(1))
  moreover have "frame_of (Options context) (Accounts s') = frame_of (Options context) (Accounts s1)"
    using s' cleanUps_frame by (auto simp: SnapshotCleanUpObserver_def split: if_splits)
  ultimately show ?thesis by simp
next
  case Rollback
  then obtain c where "pay_fee (debit_account (Height context)) context b (Accounts s) = Inr c" "Accounts s' = c"
    using assms by (auto simp: block_observers HarvestFee_rollback on_accounts_def res_bind_Inr_iff)
  then show ?thesis using pay_fee_frame payment_frame(2) by metis
qed

lemma core_observer_frame:
  assumes "core_observer context mode n s = Inr s'"
  shows "res_fold (AccountObserver (resolveAddress context) (Options context) mode (Height context)) (registration n)
    (frame_of (Options context) (Accounts s)) = Inr (frame_of (Options context) (Accounts s'))"
proof -
  let ?o = "Options context"
  have pay: "frame_of ?o (Accounts s') = frame_of ?o (Accounts s)"
    if obs: "core_observers context n = [\<lambda>mode. on_accounts (ob mode)]"
      and ob: "\<And>c c'. ob mode c = Inr c' \<Longrightarrow> frame_of ?o c' = frame_of ?o c" for ob
    using assms ob by (auto simp: single_observer [OF obs] on_accounts_def res_bind_Inr_iff)
  show ?thesis
  proof (cases n)
    case (RegisterAccountNotification r)
    have obs: "core_observers context n = [\<lambda>mode. on_accounts (AccountObserver (resolveAddress context) ?o mode (Height context) r)]"
      by (simp add: RegisterAccountNotification)
    obtain c' where "AccountObserver (resolveAddress context) ?o mode (Height context) r (Accounts s) = Inr c'" "s' = s\<lparr>Accounts := c'\<rparr>"
      using assms by (auto simp: single_observer [OF obs] on_accounts_def res_bind_Inr_iff)
    then show ?thesis by (simp add: RegisterAccountNotification AccountObserver_frame)
  next
    case (BalanceTransferNotification k u mosaic x)
    have "frame_of ?o (Accounts s') = frame_of ?o (Accounts s)"
      by (rule pay [of "\<lambda>mode. BalanceTransferObserver context mode k u mosaic x"])
        (auto simp: BalanceTransferNotification BalanceTransferObserver_def Transfer_def Let_def res_bind_Inr_iff
          dest!: payment_frame [where options = ?o] split: if_splits)
    then show ?thesis by (simp add: BalanceTransferNotification)
  next
    case (BalanceDebitNotification k mosaic x)
    have "frame_of ?o (Accounts s') = frame_of ?o (Accounts s)"
      by (rule pay [of "\<lambda>mode. BalanceDebitObserver context mode k mosaic x"])
        (auto simp: BalanceDebitNotification BalanceDebitObserver_def Let_def res_bind_Inr_iff
          dest!: payment_frame [where options = ?o] split: if_splits)
    then show ?thesis by (simp add: BalanceDebitNotification)
  next
    case (BalanceCreditNotification k mosaic x)
    have "frame_of ?o (Accounts s') = frame_of ?o (Accounts s)"
      by (rule pay [of "\<lambda>mode. BalanceCreditObserver context mode k mosaic x"])
        (auto simp: BalanceCreditNotification BalanceCreditObserver_def Let_def res_bind_Inr_iff
          dest!: payment_frame [where options = ?o] split: if_splits)
    then show ?thesis by (simp add: BalanceCreditNotification)
  next
    case (BlockNotification b)
    then have "frame_of ?o (Accounts s') = frame_of ?o (Accounts s)" using block_observer_frame assms by blast
    then show ?thesis by (simp add: BlockNotification)
  next
    case (SourceChangeNotification pt p st q)
    have obs: "core_observers context n = [\<lambda>mode. SourceChangeObserver mode pt p st q]" by (simp add: SourceChangeNotification)
    have "Accounts s' = Accounts s" using assms by (auto simp: single_observer [OF obs] SourceChangeObserver_def Let_def split: if_splits)
    then show ?thesis by (simp add: SourceChangeNotification)
  qed (use assms in \<open>simp_all add: no_observer\<close>)
qed

lemma core_run_frame:
  assumes "res_fold (core_observer context mode) ns s = Inr s'"
  shows "res_fold (AccountObserver (resolveAddress context) (Options context) mode (Height context)) (registrations ns)
    (frame_of (Options context) (Accounts s)) = Inr (frame_of (Options context) (Accounts s'))"
  using assms
proof (induction ns arbitrary: s)
  case (Cons n ns)
  then obtain s1 where s1: "core_observer context mode n s = Inr s1" "res_fold (core_observer context mode) ns s1 = Inr s'"
    by (auto simp: res_bind_Inr_iff)
  show ?case using core_observer_frame [OF s1(1)] Cons.IH [OF s1(2)] by (simp add: registrations_def res_fold_append)
qed (simp add: registrations_def)

lemma registrations_rev: "registrations (rev ns) = rev (registrations ns)" for ns :: "('a, 'b, 'c) notification list"
proof -
  have "rev (registration n) = registration n" for n :: "('a, 'b, 'c) notification" by (cases n) simp_all
  then show ?thesis unfolding registrations_def by (induction ns) simp_all
qed

section \<open>Blocks\<close>

definition block_notifications :: "('e \<Rightarrow> 'n list) \<Rightarrow> 'e block_element \<Rightarrow> 'n list" where
  "block_notifications publish element = concat (map publish (ExtractEntityInfos element))"

text \<open>
  The state and the notifications of a block fit together: the state is well-formed, all public keys have different
  addresses and no mosaic exceeds the range of amounts.
\<close>

definition block_ready :: "('a, 'k, 'u, 'x) core_context \<Rightarrow> ('k, 'u, 'x) notification list \<Rightarrow> ('a, 'k) core_state \<Rightarrow> bool" where
  "block_ready context ns s \<longleftrightarrow> context_ok context \<and> accounts_ok (Height context) (Accounts s) \<and>
     cache_keys_ok (Options context) (Accounts s) \<and>
     inj_on (PublicKeyToAddress (Options context)) (dom (m_keyToAddress (Accounts s)) \<union> notified_keys (registrations ns)) \<and>
     (\<forall>m. mosaic_supply m (book_of (Accounts s)) + total_minted context ns m < 2 ^ 64)"

lemma observed_notifications:
  "total_minted context (filter channel_observer ns) = total_minted context ns"
  "total_burned context (filter channel_observer ns) = total_burned context ns"
  "registrations (filter channel_observer ns) = registrations ns"
proof -
  have "minted context n m = 0 \<and> burned context n m = 0 \<and> registration n = []" if "\<not> channel_observer n" for n m
    using that by (cases n) simp_all
  then show "total_minted context (filter channel_observer ns) = total_minted context ns"
      "total_burned context (filter channel_observer ns) = total_burned context ns"
      "registrations (filter channel_observer ns) = registrations ns"
    by (induction ns) (simp_all add: total_minted_def total_burned_def registrations_def fun_eq_iff)
qed

lemma block_ready_run:
  fixes ns :: "('k, 'u, 'x) notification list"
  assumes "block_ready context ns s"
  defines "S \<equiv> dom (m_keyToAddress (Accounts s)) \<union> notified_keys (registrations ns)"
  shows "core_ready context S s" and "run_fits (core_observer context Commit) (core_fits context S) (filter channel_observer ns) s"
    and "res_fold (core_observer context Commit) (filter channel_observer ns) s = Inr s' \<Longrightarrow>
      mosaic_supply m (book_of (Accounts s')) + total_burned context ns m = mosaic_supply m (book_of (Accounts s)) + total_minted context ns m"
proof -
  show ready: "core_ready context S s" using assms by (simp add: block_ready_def core_ready_def core_inv_def)
  have "\<forall>m. mosaic_supply m (book_of (Accounts s)) + total_minted context (filter channel_observer ns) m < 2 ^ 64"
    using assms by (simp add: block_ready_def observed_notifications)
  note run = run_in_bounds [OF ready this]
  have "notified_keys (registrations (filter channel_observer ns)) \<subseteq> S" by (simp add: S_def observed_notifications)
  from run [OF this] show "run_fits (core_observer context Commit) (core_fits context S) (filter channel_observer ns) s"
      "res_fold (core_observer context Commit) (filter channel_observer ns) s = Inr s' \<Longrightarrow>
      mosaic_supply m (book_of (Accounts s')) + total_burned context ns m = mosaic_supply m (book_of (Accounts s)) + total_minted context ns m"
    by (simp_all add: observed_notifications)
qed

lemma subseq_keys: "subseq ms ns \<Longrightarrow> notified_keys (registrations ms) \<subseteq> notified_keys (registrations ns)"
  by (induction rule: list_emb.induct) (auto simp: registrations_def notified_append)

lemma subseq_minted: "subseq ms ns \<Longrightarrow> total_minted context ms m \<le> total_minted context ns m"
  by (induction rule: list_emb.induct) (auto simp: total_minted_def)

lemma block_ready_subseq:
  assumes sub: "subseq ms ns" and ready: "block_ready context ns s"
  shows "block_ready context ms s"
proof -
  have "mosaic_supply m (book_of (Accounts s)) + total_minted context ms m < 2 ^ 64" for m
    using subseq_minted [OF sub, of "context" m] ready unfolding block_ready_def by (meson add_left_mono order_le_less_trans)
  moreover have "inj_on (PublicKeyToAddress (Options context)) (dom (m_keyToAddress (Accounts s)) \<union> notified_keys (registrations ms))"
    by (rule inj_on_subset [of _ "dom (m_keyToAddress (Accounts s)) \<union> notified_keys (registrations ns)"])
      (use ready subseq_keys [OF sub] in \<open>auto simp: block_ready_def\<close>)
  ultimately show ?thesis using ready by (simp add: block_ready_def)
qed

lemma core_configuration_sel [simp]:
  "pObserver (core_configuration context) = core_observer context" "IsSetObserver (core_configuration context) = channel_observer"
  by (simp_all add: core_configuration_def)

lemma execute_run:
  "ExecuteBlock (NotificationObserverAdapter (core_configuration context) publish) element s =
    res_fold (core_observer context Commit) (filter channel_observer (block_notifications publish element)) s"
  by (simp add: ExecuteBlock_def ObserveAll_def adapter_run block_notifications_def)

text \<open>\<^verbatim>\<open>BlockExecutor.cpp\<close>: the removals of accounts that the rollback queued are committed at the end.\<close>

definition commitAccountRemovals :: "('a, 'k, 'u, 'x) core_context \<Rightarrow> ('a, 'k) core_state \<Rightarrow> ('a, 'k) core_state" where
  "commitAccountRemovals context s = s\<lparr>Accounts := commitRemovals (Options context) (Accounts s)\<rparr>"

lemma rollback_run:
  "RollbackBlock (ReverseNotificationObserverAdapter (core_configuration context) publish) (commitAccountRemovals context) element s =
    res_bind (res_fold (core_observer context Rollback) (rev (filter channel_observer (block_notifications publish element))) s)
      (\<lambda>s. Inr (commitAccountRemovals context s))"
  by (simp add: RollbackBlock_def ObserveAll_def reverse_adapter_run block_notifications_def)

lemma fresh_height_frame [simp]: "fresh_height h (frame_of options c) \<longleftrightarrow> fresh_height h c"
  unfolding fresh_height_def frame_of_sel map_option_eq_Some by (metis strip_state_sel(2,4))

lemma run_frame_restored:
  assumes run: "res_fold (core_observer context Commit) ns s = Inr s'" and undo: "res_fold (core_observer context Rollback) (rev ns) s' = Inr t"
    and keys: "cache_keys_ok (Options context) (Accounts s)" and fresh: "fresh_height (Height context) (Accounts s)"
    and queues: "m_queuedRemoveByAddress (Accounts s) = []" "m_queuedRemoveByPublicKey (Accounts s) = []"
    and inj: "inj_on (PublicKeyToAddress (Options context)) (dom (m_keyToAddress (Accounts s)) \<union> notified_keys (registrations ns))"
  shows "frame_of (Options context) (commitRemovals (Options context) (Accounts t)) = frame_of (Options context) (Accounts s)"
proof -
  let ?o = "Options context"
  let ?ob = "AccountObserver (resolveAddress context) ?o"
  obtain c' c'' where c: "res_fold (?ob Commit (Height context)) (registrations ns) (frame_of ?o (Accounts s)) = Inr c'"
      "res_fold (?ob Rollback (Height context)) (rev (registrations ns)) c' = Inr c''" "commitRemovals ?o c'' = frame_of ?o (Accounts s)"
    using registrations_undone [of ?o "frame_of ?o (Accounts s)" "Height context" "registrations ns" "resolveAddress context"]
      keys fresh queues inj by (auto simp: cache_keys_ok_frame)
  have "c' = frame_of ?o (Accounts s')" using c(1) core_run_frame [OF run] by simp
  then have "c'' = frame_of ?o (Accounts t)" using c(2) core_run_frame [OF undo] by (simp add: registrations_rev)
  then show ?thesis using c(3) by (simp add: commitRemovals_frame)
qed

section \<open>An example block\<close>

text \<open>Public key \<open>k\<close> has the address \<open>k + 100\<close>; mosaic 7 is the currency; an account without balance exists at address 105.\<close>

definition example_context :: "(nat, nat, nat, u64) core_context" where
  "example_context = \<lparr>Height = 4, BlockTime = 0,
     Options = \<lparr>CurrencyMosaicId = 7, HarvestingMosaicId = 9, PublicKeyToAddress = (\<lambda>k. k + 100), ZeroKey = 0\<rparr>,
     resolveMosaic = (\<lambda>_. 7), resolveAddress = (\<lambda>u. u), resolveAmount = (\<lambda>x. x), IsValidAddress = (\<lambda>_. True),
     InflationCalculator = [(1, 5)], HarvestBeneficiaryPercentage = 20, ImportanceGrouping = 1, MaxRollbackBlocks = 2,
     MinHarvesterBalance = 0, MaxTransactionsPerBlock = 10, SupportedEntityVersions = Map.empty, EnableDeadlineValidation = False,
     MaxTransactionLifetime = 0, NetworkIdentifier = 0, updatedAddresses = [101, 105]\<rparr>"

definition example_state :: "(nat, nat) core_state" where
  "example_state = \<lparr>Accounts = \<lparr>m_stateByAddress = [105 \<mapsto> AccountState 0 105 3], m_keyToAddress = Map.empty,
     m_queuedRemoveByAddress = [], m_queuedRemoveByPublicKey = []\<rparr>, NumTotalTransactions = 8, StatementBuilder = None\<rparr>"

text \<open>Key 1 gets 100, pays 30 to address 105 and a fee of 10; it harvests the block and shares the fee with key 2.\<close>

definition example_element :: "(nat, nat, u64) notification list block_element" where
  "example_element = \<lparr>
     Block = [RegisterAccountNotification (AccountPublicKeyNotification 1), RegisterAccountNotification (AccountPublicKeyNotification 2),
       BlockNotification \<lparr>Signer = 1, Beneficiary = 2, Timestamp = 0, Difficulty = 0, TotalFee = 10, NumTransactions = 2,
         FeeInterest = 1, FeeInterestDenominator = 1\<rparr>],
     Transactions = [
       [RegisterAccountNotification (AccountPublicKeyNotification 1), BalanceCreditNotification 1 7 100],
       [SignatureNotification 1, RegisterAccountNotification (AccountAddressNotification 105),
        BalanceTransferNotification 1 105 7 30, BalanceDebitNotification 1 7 10]]\<rparr>"

lemma example_ready: "block_ready example_context (block_notifications (\<lambda>e. e) example_element) example_state"
proof -
  let ?ns = "block_notifications (\<lambda>e. e) example_element"
  have balances: "bal_inv (AccountBalances (Some 3))" "get_balance (AccountBalances (Some 3)) = (\<lambda>_. 0)"
  proof -
    show inv: "bal_inv (AccountBalances (Some 3))"
      by (simp add: AccountBalances_def bal_inv_def snapshots_ok_def map_inv_empty_map) (simp add: empty_map_def)
    show "get_balance (AccountBalances (Some 3)) = (\<lambda>_. 0)"
      using get_balance_fun [OF inv] by (simp add: AccountBalances_def cmm.bal_def lookup_empty_map fun_eq_iff)
  qed
  have book: "book_of (Accounts example_state) = [105 \<mapsto> (\<lambda>_. 0)]"
    by (rule ext) (simp add: book_of_def example_state_def AccountState_def balances(2))
  have "context_ok example_context" by (simp add: context_ok_def example_context_def)
  moreover have "accounts_ok (Height example_context) (Accounts example_state)"
    using balances by (auto simp: accounts_ok_def example_context_def example_state_def AccountState_def AccountBalances_def split: if_splits)
  moreover have "cache_keys_ok (Options example_context) (Accounts example_state)"
    by (auto simp: cache_keys_ok_def example_context_def example_state_def AccountState_def split: if_splits)
  moreover have "mosaic_supply m (book_of (Accounts example_state)) = 0" for m
    by (simp add: mosaic_supply_def book)
  moreover have "total_minted example_context ?ns m < 2 ^ 64" for m
    by (simp add: total_minted_def block_notifications_def ExtractEntityInfos_def example_element_def example_context_def getSpotAmount_def)
  ultimately show ?thesis by (auto simp: block_ready_def example_context_def inj_on_def)
qed

lemma example_executes:
  "\<exists>s'. ExecuteBlock (NotificationObserverAdapter (core_configuration example_context) (\<lambda>e. e)) example_element example_state = Inr s' \<and>
    FindAccountBalance (Options example_context) (Accounts s') 1 7 = Some 72 \<and>
    FindAccountBalance (Options example_context) (Accounts s') 2 7 = Some 3 \<and>
    FindAccountBalance (Options example_context) (Accounts s') 5 7 = Some 30 \<and> NumTotalTransactions s' = 10"
proof -
  have "(case ExecuteBlock (NotificationObserverAdapter (core_configuration example_context) (\<lambda>e. e)) example_element example_state of
      Inl _ \<Rightarrow> False
    | Inr s' \<Rightarrow> FindAccountBalance (Options example_context) (Accounts s') 1 7 = Some 72 \<and>
        FindAccountBalance (Options example_context) (Accounts s') 2 7 = Some 3 \<and>
        FindAccountBalance (Options example_context) (Accounts s') 5 7 = Some 30 \<and> NumTotalTransactions s' = 10)"
    by code_simp
  then show ?thesis by (auto split: sum.splits)
qed

section \<open>Properties\<close>

text \<open>
  C0. A block creates and destroys exactly what its notifications say: whenever the core observers execute a block on a
  well-formed state, the supply of every mosaic over all accounts, plus the debited amounts, is the supply before plus the
  credited amounts, the total fee and the inflation of the height. Transfers, registrations, fee sharing and the snapshot
  clean-up change no supply, and no 64-bit balance wraps.
\<close>

theorem block_conserves_supply:
  assumes "block_ready context (block_notifications publish element) s"
    and "ExecuteBlock (NotificationObserverAdapter (core_configuration context) publish) element s = Inr s'"
  shows "mosaic_supply m (book_of (Accounts s')) + total_burned context (block_notifications publish element) m =
    mosaic_supply m (book_of (Accounts s)) + total_minted context (block_notifications publish element) m"
  using block_ready_run(3) [OF assms(1)] assms(2) by (simp add: execute_run)

theorem block_conserves_witness:
  "\<exists>s'. ExecuteBlock (NotificationObserverAdapter (core_configuration example_context) (\<lambda>e. e)) example_element example_state = Inr s' \<and>
    FindAccountBalance (Options example_context) (Accounts s') 1 7 = Some 72 \<and>
    mosaic_supply 7 (book_of (Accounts s')) + total_burned example_context (block_notifications (\<lambda>e. e) example_element) 7 =
      mosaic_supply 7 (book_of (Accounts example_state)) + total_minted example_context (block_notifications (\<lambda>e. e) example_element) 7"
  using example_executes block_conserves_supply [OF example_ready, of _ 7] by blast

text \<open>
  C0. Rolling a block back restores the state: after the core observers executed a block on a well-formed state, the reverse
  adapter over the same block never fails, and after the removals are committed every account, public key and removal queue
  is as before, every balance of every account is as before, and so is the number of transactions. The block may register
  accounts and keys, pay fees to linked accounts and share them.
\<close>

theorem block_rollback_restores:
  assumes ready: "block_ready context (block_notifications publish element) s"
    and fresh: "fresh_height (Height context) (Accounts s)"
    and queues: "m_queuedRemoveByAddress (Accounts s) = []" "m_queuedRemoveByPublicKey (Accounts s) = []"
    and run: "ExecuteBlock (NotificationObserverAdapter (core_configuration context) publish) element s = Inr s'"
  shows "\<exists>t. RollbackBlock (ReverseNotificationObserverAdapter (core_configuration context) publish) (commitAccountRemovals context) element s' = Inr t \<and>
    frame_of (Options context) (Accounts t) = frame_of (Options context) (Accounts s) \<and> book_of (Accounts t) = book_of (Accounts s) \<and>
    NumTotalTransactions t = NumTotalTransactions s"
proof -
  let ?ns = "filter channel_observer (block_notifications publish element)"
  note r = block_ready_run [OF ready]
  have run': "res_fold (core_observer context Commit) ?ns s = Inr s'" using run by (simp add: execute_run)
  obtain t where t: "res_fold (core_observer context Rollback) (rev ?ns) s' = Inr t" "core_ext s t"
    using core.run_undo [OF r(1,2) run'] core_ext_refl by blast
  have frame: "frame_of (Options context) (commitRemovals (Options context) (Accounts t)) = frame_of (Options context) (Accounts s)"
    by (rule run_frame_restored [OF run' t(1) _ fresh queues]) (use ready in \<open>simp_all add: block_ready_def observed_notifications\<close>)
  have "book_of (commitRemovals (Options context) (Accounts t)) = book_of (Accounts s)"
    by (rule book_after_removals [OF _ frame]) (use t(2) in \<open>simp add: core_ext_def\<close>)
  then show ?thesis using t frame by (simp add: rollback_run commitAccountRemovals_def core_ext_def)
qed

theorem block_rollback_witness:
  "\<exists>s' t. ExecuteBlock (NotificationObserverAdapter (core_configuration example_context) (\<lambda>e. e)) example_element example_state = Inr s' \<and>
    FindAccountBalance (Options example_context) (Accounts s') 2 7 = Some 3 \<and>
    RollbackBlock (ReverseNotificationObserverAdapter (core_configuration example_context) (\<lambda>e. e)) (commitAccountRemovals example_context)
      example_element s' = Inr t \<and>
    frame_of (Options example_context) (Accounts t) = frame_of (Options example_context) (Accounts example_state) \<and>
    book_of (Accounts t) = book_of (Accounts example_state) \<and> NumTotalTransactions t = NumTotalTransactions example_state"
proof -
  have "fresh_height (Height example_context) (Accounts example_state)"
    by (auto simp: fresh_height_def example_context_def example_state_def AccountState_def split: if_splits)
  moreover have "m_queuedRemoveByAddress (Accounts example_state) = []" "m_queuedRemoveByPublicKey (Accounts example_state) = []"
    by (simp_all add: example_state_def)
  ultimately show ?thesis using example_executes block_rollback_restores [OF example_ready] by blast
qed

text \<open>
  C0. Undoing a partly processed list of notifications: when the processing subscriber validates and observes notifications
  on a well-formed state with undo enabled, stopping anywhere at a failed validation, then \<^verbatim>\<open>undo\<close> does not fail, empties
  the buffer and gives every account its old balances back; accounts registered on the way stay, without any balance, until
  their removal is committed, and the number of transactions is as before.
\<close>

theorem undo_restores_balances:
  assumes ready: "block_ready context ns s"
    and run: "res_fold (sub_notify (core_configuration context) Commit) ns (enableUndo (ProcessingNotificationSubscriber s)) = Inr sub"
  shows "\<exists>sub'. undo (core_configuration context) Commit sub = Inr sub' \<and> m_notificationBuffers sub' = [] \<and>
    book_ext (book_of (Accounts s)) (book_of (Accounts (observerState sub'))) \<and> frame_ext (Accounts s) (Accounts (observerState sub')) \<and>
    NumTotalTransactions (observerState sub') = NumTotalTransactions s"
proof -
  let ?S = "dom (m_keyToAddress (Accounts s)) \<union> notified_keys (registrations ns)"
  have fits: "run_fits (core_observer context Commit) (core_fits context ?S) ms s" if "subseq ms ns" for ms
  proof -
    have "\<forall>m. mosaic_supply m (book_of (Accounts s)) + total_minted context ms m < 2 ^ 64"
      using block_ready_subseq [OF that ready] by (simp add: block_ready_def)
    moreover have "notified_keys (registrations ms) \<subseteq> ?S" using subseq_keys [OF that] by blast
    ultimately show ?thesis using run_in_bounds [OF block_ready_run(1) [OF ready]] by blast
  qed
  from core.subscriber_undo [OF core_configuration_sel(1) block_ready_run(1) [OF ready] run fits] show ?thesis
    unfolding core_ext_def by blast
qed

theorem undo_restores_witness:
  "\<exists>sub sub'. res_fold (sub_notify (core_configuration example_context) Commit) (Transactions example_element ! 0 @ Transactions example_element ! 1 @
      [BalanceDebitNotification 1 7 70]) (enableUndo (ProcessingNotificationSubscriber example_state)) = Inr sub \<and>
    \<not> IsValidationResultSuccess (m_aggregateResult sub) \<and> FindAccountBalance (Options example_context) (Accounts (observerState sub)) 1 7 = Some 60 \<and>
    undo (core_configuration example_context) Commit sub = Inr sub' \<and> m_notificationBuffers sub' = [] \<and>
    book_ext (book_of (Accounts example_state)) (book_of (Accounts (observerState sub')))"
proof -
  let ?ns = "Transactions example_element ! 0 @ Transactions example_element ! 1 @ [BalanceDebitNotification 1 7 70]"
  have "(case res_fold (sub_notify (core_configuration example_context) Commit) ?ns (enableUndo (ProcessingNotificationSubscriber example_state)) of
      Inl _ \<Rightarrow> False | Inr sub \<Rightarrow> \<not> IsValidationResultSuccess (m_aggregateResult sub) \<and>
        FindAccountBalance (Options example_context) (Accounts (observerState sub)) 1 7 = Some 60)"
    by code_simp
  then obtain sub where sub: "res_fold (sub_notify (core_configuration example_context) Commit) ?ns
      (enableUndo (ProcessingNotificationSubscriber example_state)) = Inr sub" "\<not> IsValidationResultSuccess (m_aggregateResult sub)"
      "FindAccountBalance (Options example_context) (Accounts (observerState sub)) 1 7 = Some 60"
    by (auto split: sum.splits)
  have "block_ready example_context ?ns example_state"
    using block_ready_subseq [OF _ example_ready, of "Transactions example_element ! 0 @ Transactions example_element ! 1"]
    by (simp add: block_ready_def total_minted_def registrations_def example_element_def block_notifications_def ExtractEntityInfos_def)
  from undo_restores_balances [OF this sub(1)] show ?thesis using sub by blast
qed

end
