(* ===== verification/Spec2Isabelle.thy ===== *)
theory Spec2Isabelle
  imports Account_Balances Delta_Set Patricia_Tree Spin_Lock Namespace_Safety High_Value_Addresses Core_Blocks
begin

text \<open>ProximaX Sirius chain server.\<close>

end
